(* ===== verification/Prelude.thy ===== *)
theory Prelude
  imports Main "HOL-Library.Word"
begin

text \<open>
  Shared vocabulary of the development: the machine types of the Go package (bytes and the
  signed 64-bit integers behind \<open>int64\<close>, \<open>int\<close> and \<open>time.Duration\<close>), the collections of
  hints the component theories extend, and the facts on lists and options they share.

  A Go \<open>int64\<close> is modelled as an \<open>int\<close>. Where the code can overflow, the operation is
  written with \<open>wrap64\<close>, the two's complement reduction Go applies to every signed
  operation; where it cannot, the development proves the value lies in \<open>int64\<close>.
\<close>

named_theorems str_simps \<open>equations of the string and number routines of the Go library\<close>
named_theorems err_simps \<open>equations of the error values and of their inspection\<close>
named_theorems env_simps \<open>equations of the effects on the environment\<close>
named_theorems bound_intros \<open>facts that keep an integer inside its machine range\<close>

type_synonym byte = "8 word"

section \<open>Signed 64-bit integers\<close>

definition max_int64 :: int where
  "max_int64 = 9223372036854775807"

definition min_int64 :: int where
  "min_int64 = -9223372036854775808"

definition int64 :: "int \<Rightarrow> bool" where
  "int64 x \<longleftrightarrow> min_int64 \<le> x \<and> x \<le> max_int64"

text \<open>Two's complement wrap-around at 64 bits.\<close>

definition wrap64 :: "int \<Rightarrow> int" where
  "wrap64 x = (x + 9223372036854775808) mod 18446744073709551616 - 9223372036854775808"

lemma wrap64_id: "int64 x \<Longrightarrow> wrap64 x = x"
  by (simp add: int64_def wrap64_def min_int64_def max_int64_def)

lemma int64_wrap64 [bound_intros]: "int64 (wrap64 x)"
proof -
  let ?m = "(x + 9223372036854775808) mod 18446744073709551616"
  have "0 \<le> ?m" and "?m < 18446744073709551616" by simp_all
  then show ?thesis
    unfolding int64_def wrap64_def min_int64_def max_int64_def by arith
qed

lemma wrap64_eq_sint: "wrap64 x = sint (word_of_int x :: 64 word)"
  by (simp add: wrap64_def sint_uint word_of_int_inverse uint_word_of_int signed_take_bit_eq_take_bit_shift
      take_bit_eq_mod mod_simps)

lemma int64_zero [simp]: "int64 0"
  by (simp add: int64_def min_int64_def max_int64_def)

lemma int64_between [bound_intros]:
  "int64 b \<Longrightarrow> 0 \<le> x \<Longrightarrow> x \<le> b \<Longrightarrow> int64 x"
  by (simp add: int64_def min_int64_def)

section \<open>Lists\<close>

text \<open>A window of a list: the bytes from \<open>a\<close> up to but not including \<open>b\<close>.\<close>

definition window :: "nat \<Rightarrow> nat \<Rightarrow> 'a list \<Rightarrow> 'a list" where
  "window a b xs = take (b - a) (drop a xs)"

lemma window_empty [simp]: "b \<le> a \<Longrightarrow> window a b xs = []"
  by (simp add: window_def)

lemma length_window: "b \<le> length xs \<Longrightarrow> length (window a b xs) = b - a"
  by (simp add: window_def)

lemma window_join:
  assumes "a \<le> b" and "b \<le> c"
  shows "window a b xs @ window b c xs = window a c xs"
proof -
  have "window a c xs = take (b - a + (c - b)) (drop a xs)"
    using assms by (simp add: window_def)
  also have "\<dots> = take (b - a) (drop a xs) @ take (c - b) (drop (b - a) (drop a xs))"
    by (rule take_add)
  also have "drop (b - a) (drop a xs) = drop b xs"
    using assms by simp
  finally show ?thesis by (simp add: window_def)
qed

lemma window_take: "b \<le> n \<Longrightarrow> window a b (take n xs) = window a b xs"
  by (cases "a \<le> b") (simp_all add: window_def drop_take min_def)

lemma window_all: "length xs \<le> b \<Longrightarrow> window 0 b xs = xs"
  by (simp add: window_def)

lemma window_zero: "window 0 n xs = take n xs"
  by (simp add: window_def)

text \<open>The first element that a test accepts.\<close>

lemma find_None_all: "(find P xs = None) = (\<forall>x \<in> set xs. \<not> P x)"
  by (induction xs) auto

lemma find_append: "find P (xs @ ys) = (case find P xs of None \<Rightarrow> find P ys | Some x \<Rightarrow> Some x)"
  by (induction xs) auto

lemma find_SomeD: "find P xs = Some x \<Longrightarrow> x \<in> set xs \<and> P x"
  by (induction xs) (auto split: if_splits)

end
