(* ===== verification/GoStrings.thy ===== *)
theory GoStrings
  imports Prelude
begin

text \<open>
  The routines of Go's \<open>strings\<close> and \<open>strconv\<close> packages that the client calls, over byte
  strings (a \<open>char\<close> is one byte, as in a Go string). Letter case and white space are those
  of ASCII, except in \<open>equal_fold\<close>, which also knows the two characters outside ASCII that
  Go folds onto an ASCII letter (U+017F onto s, U+212A onto k).
\<close>

section \<open>Cutting and searching\<close>

text \<open>\<open>strings.Cut\<close> with a one-byte separator: before, after, found.\<close>

fun str_cut :: "char \<Rightarrow> string \<Rightarrow> string \<times> string \<times> bool" where
  "str_cut c [] = ([], [], False)"
| "str_cut c (x # xs) =
     (if x = c then ([], xs, True)
      else (case str_cut c xs of (a, b, found) \<Rightarrow> (x # a, b, found)))"

lemma str_cut_found: "str_cut c s = (a, b, True) \<longleftrightarrow> s = a @ c # b \<and> c \<notin> set a"
proof (induction s arbitrary: a)
  case Nil
  then show ?case by simp
next
  case (Cons x xs)
  obtain u v f where uv: "str_cut c xs = (u, v, f)" by (metis prod_cases3)
  show ?case
  proof (cases "x = c")
    case True
    then show ?thesis by (cases a) auto
  next
    case False
    show ?thesis
    proof (cases a)
      case Nil
      with False uv show ?thesis by simp
    next
      case (Cons y ys)
      with False uv Cons.IH [of ys] show ?thesis by auto
    qed
  qed
qed

lemma str_cut_append [str_simps]: "c \<notin> set a \<Longrightarrow> str_cut c (a @ c # b) = (a, b, True)"
  by (simp add: str_cut_found)

lemma str_cut_absent [str_simps]: "c \<notin> set s \<Longrightarrow> str_cut c s = (s, [], False)"
  by (induction s) auto

lemma str_cut_not_found: "str_cut c s = (a, b, False) \<longleftrightarrow> c \<notin> set s \<and> a = s \<and> b = []"
proof
  assume h: "str_cut c s = (a, b, False)"
  have "c \<notin> set s"
  proof
    assume "c \<in> set s"
    then obtain u v where "s = u @ c # v" and "c \<notin> set u" by (meson split_list_first)
    with h show False by (simp add: str_cut_append)
  qed
  with h show "c \<notin> set s \<and> a = s \<and> b = []" by (simp add: str_cut_absent)
qed (simp add: str_cut_absent)

text \<open>\<open>strings.HasPrefix\<close>, \<open>TrimPrefix\<close>, \<open>HasSuffix\<close>, \<open>TrimSuffix\<close>.\<close>

definition has_prefix :: "string \<Rightarrow> string \<Rightarrow> bool" where
  "has_prefix s p \<longleftrightarrow> take (length p) s = p"

definition trim_prefix :: "string \<Rightarrow> string \<Rightarrow> string" where
  "trim_prefix s p = (if has_prefix s p then drop (length p) s else s)"

definition has_suffix :: "string \<Rightarrow> string \<Rightarrow> bool" where
  "has_suffix s p \<longleftrightarrow> has_prefix (rev s) (rev p)"

definition trim_suffix :: "string \<Rightarrow> string \<Rightarrow> string" where
  "trim_suffix s p = (if has_suffix s p then take (length s - length p) s else s)"

lemma has_prefix_append [str_simps]: "has_prefix (p @ s) p"
  by (simp add: has_prefix_def)

lemma trim_prefix_append [str_simps]: "trim_prefix (p @ s) p = s"
  by (simp add: trim_prefix_def str_simps)

text \<open>\<open>strings.Contains\<close> and \<open>strings.ContainsAny\<close>.\<close>

fun str_contains :: "string \<Rightarrow> string \<Rightarrow> bool" where
  "str_contains [] p = (p = [])"
| "str_contains (c # s) p = (has_prefix (c # s) p \<or> str_contains s p)"

definition contains_any :: "string \<Rightarrow> string \<Rightarrow> bool" where
  "contains_any s cs \<longleftrightarrow> list_ex (\<lambda>c. c \<in> set cs) s"

text \<open>\<open>strings.LastIndexByte\<close> as a split: what precedes and what follows the last \<open>c\<close>.\<close>

definition cut_last :: "char \<Rightarrow> string \<Rightarrow> (string \<times> string) option" where
  "cut_last c s =
     (case str_cut c (rev s) of (b, a, found) \<Rightarrow> if found then Some (rev a, rev b) else None)"

lemma cut_last_Some: "cut_last c s = Some (a, b) \<longleftrightarrow> s = a @ c # b \<and> c \<notin> set b"
proof -
  have "cut_last c s = Some (a, b) \<longleftrightarrow> str_cut c (rev s) = (rev b, rev a, True)"
    by (auto simp: cut_last_def split: prod.splits)
  also have "\<dots> \<longleftrightarrow> rev s = rev b @ c # rev a \<and> c \<notin> set b"
    by (simp add: str_cut_found)
  also have "rev s = rev b @ c # rev a \<longleftrightarrow> s = a @ c # b"
    by (metis append.assoc append_Cons append_Nil rev.simps(2) rev_append rev_rev_ident)
  finally show ?thesis .
qed

lemma cut_last_None: "cut_last c s = None \<longleftrightarrow> c \<notin> set s"
proof -
  obtain b a f where cut: "str_cut c (rev s) = (b, a, f)" by (metis prod_cases3)
  show ?thesis
  proof (cases f)
    case True
    with cut have "rev s = b @ c # a" by (simp add: str_cut_found)
    then have "c \<in> set (rev s)" by simp
    with cut True show ?thesis by (simp add: cut_last_def)
  next
    case False
    with cut have "c \<notin> set (rev s)" by (simp add: str_cut_not_found)
    with cut False show ?thesis by (simp add: cut_last_def)
  qed
qed

text \<open>\<open>strings.Split\<close> and \<open>strings.Join\<close> with a one-byte separator.\<close>

fun str_split :: "char \<Rightarrow> string \<Rightarrow> string list" where
  "str_split c [] = [[]]"
| "str_split c (x # xs) =
     (if x = c then [] # str_split c xs
      else (case str_split c xs of [] \<Rightarrow> [[x]] | w # ws \<Rightarrow> (x # w) # ws))"

fun str_join :: "char \<Rightarrow> string list \<Rightarrow> string" where
  "str_join c [] = []"
| "str_join c [w] = w"
| "str_join c (w # v # ws) = w @ c # str_join c (v # ws)"

lemma str_split_nonempty [simp]: "str_split c s \<noteq> []"
  by (induction s) (auto split: list.splits)

lemma str_join_split: "str_join c (str_split c s) = s"
proof (induction s)
  case Nil
  then show ?case by simp
next
  case (Cons x xs)
  obtain w ws where w: "str_split c xs = w # ws"
    by (meson list.exhaust str_split_nonempty)
  with Cons show ?case by (cases ws) auto
qed

lemma str_split_pieces: "w \<in> set (str_split c s) \<Longrightarrow> c \<notin> set w"
proof (induction s arbitrary: w)
  case Nil
  then show ?case by simp
next
  case (Cons x xs)
  obtain u us where u: "str_split c xs = u # us"
    by (meson list.exhaust str_split_nonempty)
  with Cons show ?case by (auto split: if_splits)
qed

lemma str_split_absent: "c \<notin> set w \<Longrightarrow> str_split c w = [w]"
  by (induction w) auto

lemma str_split_append: "c \<notin> set w \<Longrightarrow> str_split c (w @ c # s) = w # str_split c s"
  by (induction w) auto

lemma str_split_join:
  "ws \<noteq> [] \<Longrightarrow> (\<forall>w \<in> set ws. c \<notin> set w) \<Longrightarrow> str_split c (str_join c ws) = ws"
  by (induction c ws rule: str_join.induct) (auto simp: str_split_absent str_split_append)

section \<open>Letter case and white space\<close>

definition is_upper :: "char \<Rightarrow> bool" where
  "is_upper c \<longleftrightarrow> 65 \<le> (of_char c :: nat) \<and> (of_char c :: nat) \<le> 90"

definition is_lower :: "char \<Rightarrow> bool" where
  "is_lower c \<longleftrightarrow> 97 \<le> (of_char c :: nat) \<and> (of_char c :: nat) \<le> 122"

definition is_digit :: "char \<Rightarrow> bool" where
  "is_digit c \<longleftrightarrow> 48 \<le> (of_char c :: nat) \<and> (of_char c :: nat) \<le> 57"

definition lower_char :: "char \<Rightarrow> char" where
  "lower_char c = (if is_upper c then char_of (of_char c + 32 :: nat) else c)"

definition to_lower :: "string \<Rightarrow> string" where
  "to_lower s = map lower_char s"

definition is_space :: "char \<Rightarrow> bool" where
  "is_space c \<longleftrightarrow> (let n = (of_char c :: nat) in n = 32 \<or> (9 \<le> n \<and> n \<le> 13))"

definition trim_space :: "string \<Rightarrow> string" where
  "trim_space s = rev (dropWhile is_space (rev (dropWhile is_space s)))"

lemma lower_char_idem [simp]: "lower_char (lower_char c) = lower_char c"
proof (cases "is_upper c")
  case True
  then have "of_char (char_of (of_char c + 32 :: nat)) = (of_char c + 32 :: nat)"
    by (simp add: is_upper_def)
  with True show ?thesis by (simp add: lower_char_def is_upper_def)
qed (simp add: lower_char_def)

lemma to_lower_idem [simp]: "to_lower (to_lower s) = to_lower s"
  by (simp add: to_lower_def)

lemma to_lower_Nil [simp]: "to_lower s = [] \<longleftrightarrow> s = []"
  by (simp add: to_lower_def)

text \<open>
  \<open>strings.EqualFold\<close>. Go folds the UTF-8 pair C5 BF (long s) onto s and the triple
  E2 84 AA (Kelvin sign) onto k; every other byte outside ASCII is compared as it is.
\<close>

fun fold_case :: "string \<Rightarrow> string" where
  "fold_case [] = []"
| "fold_case (c # s) =
     (let n = (of_char c :: nat) in
      case s of
        [] \<Rightarrow> [lower_char c]
      | d # t \<Rightarrow>
          if n = 197 \<and> (of_char d :: nat) = 191 then CHR ''s'' # fold_case t
          else (case t of
                  [] \<Rightarrow> lower_char c # fold_case s
                | e # u \<Rightarrow>
                    if n = 226 \<and> (of_char d :: nat) = 132 \<and> (of_char e :: nat) = 170
                    then CHR ''k'' # fold_case u
                    else lower_char c # fold_case s))"

definition equal_fold :: "string \<Rightarrow> string \<Rightarrow> bool" where
  "equal_fold s t \<longleftrightarrow> fold_case s = fold_case t"

lemma equal_fold_refl [simp]: "equal_fold s s"
  by (simp add: equal_fold_def)

section \<open>Decimal numbers\<close>

definition digit_char :: "nat \<Rightarrow> char" where
  "digit_char n = char_of (48 + n)"

definition digit_val :: "char \<Rightarrow> int" where
  "digit_val c = int (of_char c) - 48"

text \<open>The value of a run of digits; the caller has checked that every byte is a digit.\<close>

definition digits_val :: "string \<Rightarrow> int" where
  "digits_val s = foldl (\<lambda>v c. 10 * v + digit_val c) 0 s"

lemma digits_val_Nil [simp]: "digits_val [] = 0"
  by (simp add: digits_val_def)

lemma digits_val_snoc [simp]: "digits_val (s @ [c]) = 10 * digits_val s + digit_val c"
  by (simp add: digits_val_def)

lemma digits_val_nonneg: "list_all is_digit s \<Longrightarrow> 0 \<le> digits_val s"
proof (induction s rule: rev_induct)
  case (snoc c s)
  have "48 \<le> (of_char c :: nat)" using snoc.prems by (simp add: is_digit_def)
  with snoc show ?case by (simp add: digit_val_def)
qed simp

datatype num_error = ErrSyntax | ErrRange

text \<open>
  \<open>strconv.ParseUint (s, 10, bits)\<close> and \<open>strconv.ParseInt (s, 10, 64)\<close>: the value returned
  and the error, because a caller may use the value in spite of the error. Base ten admits
  no underscore.
\<close>

definition parse_uint :: "nat \<Rightarrow> string \<Rightarrow> int \<times> num_error option" where
  "parse_uint bits s =
     (if s = [] \<or> \<not> list_all is_digit s then (0, Some ErrSyntax)
      else if digits_val s \<ge> 2 ^ bits then (2 ^ bits - 1, Some ErrRange)
      else (digits_val s, None))"

definition clamp_int :: "bool \<Rightarrow> int \<Rightarrow> int \<times> num_error option" where
  "clamp_int neg v =
     (if \<not> neg \<and> v > max_int64 then (max_int64, Some ErrRange)
      else if neg \<and> v > - min_int64 then (min_int64, Some ErrRange)
      else (if neg then - v else v, None))"

definition parse_int :: "string \<Rightarrow> int \<times> num_error option" where
  "parse_int s =
     (let neg = (s \<noteq> [] \<and> hd s = CHR ''-'');
          body = (if s \<noteq> [] \<and> (hd s = CHR ''-'' \<or> hd s = CHR ''+'') then tl s else s)
      in case parse_uint 64 body of
           (v, Some ErrSyntax) \<Rightarrow> (0, Some ErrSyntax)
         | (v, _) \<Rightarrow> clamp_int neg v)"

lemma parse_uint_nonneg: "0 \<le> fst (parse_uint bits s)"
  by (simp add: parse_uint_def digits_val_nonneg)

lemma clamp_int_int64: "0 \<le> v \<Longrightarrow> int64 (fst (clamp_int neg v))"
  by (simp add: clamp_int_def int64_def min_int64_def max_int64_def)

lemma parse_int_int64 [bound_intros]: "int64 (fst (parse_int s))"
proof -
  let ?neg = "s \<noteq> [] \<and> hd s = CHR ''-''"
  let ?body = "if s \<noteq> [] \<and> (hd s = CHR ''-'' \<or> hd s = CHR ''+'') then tl s else s"
  obtain v e where v: "parse_uint 64 ?body = (v, e)" by (metis surj_pair)
  with parse_uint_nonneg [of 64 ?body] have "0 \<le> v" by simp
  then have c: "int64 (fst (clamp_int ?neg v))" by (rule clamp_int_int64)
  have "parse_int s = (if e = Some ErrSyntax then (0, Some ErrSyntax) else clamp_int ?neg v)"
    unfolding parse_int_def Let_def v by (cases e rule: option.exhaust; cases "the e") simp_all
  with c show ?thesis by simp
qed

text \<open>\<open>%d\<close> of a number that is not negative, and of any number.\<close>

fun nat_digits :: "nat \<Rightarrow> string" where
  "nat_digits n =
     (if n < 10 then [digit_char n] else nat_digits (n div 10) @ [digit_char (n mod 10)])"

declare nat_digits.simps [simp del]

definition fmt_d :: "int \<Rightarrow> string" where
  "fmt_d i = (if i < 0 then CHR ''-'' # nat_digits (nat (- i)) else nat_digits (nat i))"

lemma of_char_digit_char: "n < 10 \<Longrightarrow> (of_char (digit_char n) :: nat) = 48 + n"
  by (simp add: digit_char_def)

lemma is_digit_digit_char: "n < 10 \<Longrightarrow> is_digit (digit_char n)"
  by (simp add: is_digit_def of_char_digit_char)

lemma digit_val_digit_char: "n < 10 \<Longrightarrow> digit_val (digit_char n) = int n"
  by (simp add: digit_val_def of_char_digit_char)

lemma nat_digits_nonempty [simp]: "nat_digits n \<noteq> []"
  by (simp add: nat_digits.simps [of n])

lemma nat_digits_digits: "list_all is_digit (nat_digits n)"
proof (induction n rule: nat_digits.induct)
  case (1 n)
  then show ?case by (auto simp: nat_digits.simps [of n] is_digit_digit_char)
qed

lemma digits_val_nat_digits [simp]: "digits_val (nat_digits n) = int n"
proof (induction n rule: nat_digits.induct)
  case (1 n)
  show ?case
  proof (cases "n < 10")
    case True
    then have "digits_val (nat_digits n) = digits_val ([] @ [digit_char n])"
      by (simp add: nat_digits.simps [of n])
    also have "\<dots> = int n" using True by (simp only: digits_val_snoc digit_val_digit_char) simp
    finally show ?thesis .
  next
    case False
    with 1 have "digits_val (nat_digits n) = 10 * int (n div 10) + int (n mod 10)"
      by (simp add: nat_digits.simps [of n] digit_val_digit_char)
    then show ?thesis by (simp add: of_nat_div of_nat_mod)
  qed
qed

lemma not_digit_not_in: "list_all is_digit s \<Longrightarrow> \<not> is_digit c \<Longrightarrow> c \<notin> set s"
  by (auto simp: list_all_iff)

lemma fmt_d_nonneg: "0 \<le> i \<Longrightarrow> fmt_d i = nat_digits (nat i)"
  by (simp add: fmt_d_def)

end
