(* ===== verification/GoNet.thy ===== *)
theory GoNet
  imports GoStrings
begin

text \<open>
  IP literals as Go's \<open>net/netip\<close> reads and prints them (\<open>ParseAddr\<close>, \<open>Addr.String\<close>):
  the repository layer uses them to compare equivalent spellings of a registry host, and
  \<open>net/url\<close> uses them to check a bracketed host.
\<close>

section \<open>Hexadecimal digits\<close>

definition hex_val :: "char \<Rightarrow> nat option" where
  "hex_val c =
     (let n = of_char c in
      if 48 \<le> n \<and> n \<le> 57 then Some (n - 48)
      else if 97 \<le> n \<and> n \<le> 102 then Some (n - 87)
      else if 65 \<le> n \<and> n \<le> 70 then Some (n - 55)
      else None)"

definition is_hex :: "char \<Rightarrow> bool" where
  "is_hex c \<longleftrightarrow> hex_val c \<noteq> None"

definition hex_char :: "nat \<Rightarrow> char" where
  "hex_char n = (if n < 10 then char_of (48 + n) else char_of (87 + n))"

definition hex_group_val :: "string \<Rightarrow> nat" where
  "hex_group_val s = foldl (\<lambda>v c. 16 * v + the (hex_val c)) 0 s"

fun hex_digits :: "nat \<Rightarrow> string" where
  "hex_digits n =
     (if n < 16 then [hex_char n] else hex_digits (n div 16) @ [hex_char (n mod 16)])"

declare hex_digits.simps [simp del]

section \<open>Addresses\<close>

text \<open>Four octets, or eight 16-bit groups with a zone (empty for none).\<close>

datatype addr = V4 "nat list" | V6 "nat list" string

definition parse_octet :: "string \<Rightarrow> nat option" where
  "parse_octet s =
     (if s = [] \<or> \<not> list_all is_digit s then None
      else if length s > 1 \<and> hd s = CHR ''0'' then None
      else if digits_val s > 255 then None
      else Some (nat (digits_val s)))"

fun parse_octets :: "string list \<Rightarrow> nat list option" where
  "parse_octets [] = Some []"
| "parse_octets (s # ss) =
     (case parse_octet s of None \<Rightarrow> None | Some n \<Rightarrow> map_option ((#) n) (parse_octets ss))"

definition parse_ipv4 :: "string \<Rightarrow> nat list option" where
  "parse_ipv4 s = (let fs = str_split CHR ''.'' s in
     if length fs = 4 then parse_octets fs else None)"

text \<open>
  The group loop of \<open>parseIPv6\<close>. \<open>gs\<close> are the groups read so far, \<open>ell\<close> the position of
  the ellipsis; \<open>k\<close> counts the groups there is still room for. An embedded IPv4 address
  fills the last two groups.
\<close>

fun ipv6_loop :: "nat \<Rightarrow> nat list \<Rightarrow> nat option \<Rightarrow> string \<Rightarrow>
    (nat list \<times> nat option \<times> string) option" where
  "ipv6_loop 0 gs ell s = Some (gs, ell, s)"
| "ipv6_loop (Suc k) gs ell s =
     (let d = takeWhile is_hex s; r = dropWhile is_hex s in
      if d = [] \<or> length d > 4 then None
      else if r \<noteq> [] \<and> hd r = CHR ''.'' then
        (if (ell = None \<and> length gs \<noteq> 6) \<or> length gs + 2 > 8 then None
         else case parse_ipv4 s of
           Some [a, b, c, e] \<Rightarrow> Some (gs @ [256 * a + b, 256 * c + e], ell, [])
         | _ \<Rightarrow> None)
      else
        let gs' = gs @ [hex_group_val d] in
        case r of
          [] \<Rightarrow> Some (gs', ell, [])
        | x # t \<Rightarrow>
            if x \<noteq> CHR '':'' \<or> t = [] then None
            else if hd t = CHR '':'' then
              (if ell \<noteq> None then None
               else if tl t = [] then Some (gs', Some (length gs'), [])
               else ipv6_loop k gs' (Some (length gs')) (tl t))
            else ipv6_loop k gs' ell t)"

definition ipv6_expand :: "nat list \<Rightarrow> nat option \<Rightarrow> nat list option" where
  "ipv6_expand gs ell =
     (case ell of
        None \<Rightarrow> if length gs < 8 then None else Some gs
      | Some e \<Rightarrow>
          if length gs < 8 then Some (take e gs @ replicate (8 - length gs) 0 @ drop e gs)
          else None)"

definition parse_ipv6 :: "string \<Rightarrow> addr option" where
  "parse_ipv6 txt =
     (case str_cut CHR ''%'' txt of (s, zone, zoned) \<Rightarrow>
      if zoned \<and> zone = [] then None
      else
        let lead = has_prefix s ''::''; body = (if lead then drop 2 s else s) in
        if lead \<and> body = [] then Some (V6 (replicate 8 0) zone)
        else case ipv6_loop 8 [] (if lead then Some 0 else None) body of
               None \<Rightarrow> None
             | Some (gs, ell, rest) \<Rightarrow>
                 if rest \<noteq> [] then None
                 else map_option (\<lambda>g. V6 g zone) (ipv6_expand gs ell))"

text \<open>\<open>netip.ParseAddr\<close>: the first of dot, colon or percent sign decides.\<close>

fun addr_kind :: "string \<Rightarrow> char option" where
  "addr_kind [] = None"
| "addr_kind (c # s) =
     (if c = CHR ''.'' \<or> c = CHR '':'' \<or> c = CHR ''%'' then Some c else addr_kind s)"

definition parse_addr :: "string \<Rightarrow> addr option" where
  "parse_addr s =
     (case addr_kind s of
        Some c \<Rightarrow>
          if c = CHR ''.'' then map_option V4 (parse_ipv4 s)
          else if c = CHR '':'' then parse_ipv6 s
          else None
      | None \<Rightarrow> None)"

section \<open>Printing\<close>

definition dotted :: "nat list \<Rightarrow> string" where
  "dotted os = str_join CHR ''.'' (map nat_digits os)"

definition is_4in6 :: "nat list \<Rightarrow> bool" where
  "is_4in6 gs \<longleftrightarrow> take 6 gs = [0, 0, 0, 0, 0, 65535]"

text \<open>The first longest run of at least two zero groups, as a half-open interval.\<close>

definition zero_run :: "nat list \<Rightarrow> nat \<Rightarrow> nat" where
  "zero_run gs i = length (takeWhile (\<lambda>g. g = 0) (drop i gs))"

definition longest_zeros :: "nat list \<Rightarrow> (nat \<times> nat) option" where
  "longest_zeros gs =
     foldl (\<lambda>best i.
       let l = zero_run gs i in
       if l \<ge> 2 \<and> (case best of None \<Rightarrow> True | Some (a, b) \<Rightarrow> l > b - a) then Some (i, i + l)
       else best) None [0..<8]"

definition hex_join :: "nat list \<Rightarrow> string" where
  "hex_join gs = str_join CHR '':'' (map hex_digits gs)"

definition zone_suffix :: "string \<Rightarrow> string" where
  "zone_suffix zone = (if zone = [] then [] else CHR ''%'' # zone)"

fun addr_string :: "addr \<Rightarrow> string" where
  "addr_string (V4 os) = dotted os"
| "addr_string (V6 gs zone) =
     (if is_4in6 gs then
        ''::ffff:'' @ dotted [gs ! 6 div 256, gs ! 6 mod 256, gs ! 7 div 256, gs ! 7 mod 256]
          @ zone_suffix zone
      else (case longest_zeros gs of
              None \<Rightarrow> hex_join gs
            | Some (a, b) \<Rightarrow> hex_join (take a gs) @ ''::'' @ hex_join (drop b gs))
           @ zone_suffix zone)"

definition is_v4 :: "addr \<Rightarrow> bool" where
  "is_v4 a \<longleftrightarrow> (case a of V4 _ \<Rightarrow> True | V6 _ _ \<Rightarrow> False)"

end
