(* ===== verification/GoUrl.thy ===== *)
theory GoUrl
  imports GoNet
begin

text \<open>
  What the client uses of Go's \<open>net/url\<close>: percent coding, \<open>url.Parse\<close>,
  \<open>URL.ResolveReference\<close>, \<open>Hostname\<close> and \<open>Port\<close>. A path is kept in the escaped form that
  \<open>EscapedPath\<close> returns, the user information and the fragment as they were written.
\<close>

section \<open>Percent coding\<close>

datatype enc_mode = EncPath | EncQuery | EncHost | EncZone | EncUser | EncFragment

definition is_alnum :: "char \<Rightarrow> bool" where
  "is_alnum c \<longleftrightarrow> is_lower c \<or> is_upper c \<or> is_digit c"

definition should_escape :: "enc_mode \<Rightarrow> char \<Rightarrow> bool" where
  "should_escape m c =
     (if is_alnum c then False
      else if m \<in> {EncHost, EncZone} \<and>
              (c \<in> set ''!$&()*+,;=:[]<>'' \<or> of_char c = (34::nat) \<or> of_char c = (39::nat))
           then False
      else if c \<in> set ''-_.~'' then False
      else if c \<in> set ''$&+,/:;=?@'' then
        (case m of
           EncPath \<Rightarrow> c = CHR ''?''
         | EncUser \<Rightarrow> c \<in> set ''@/?:''
         | EncQuery \<Rightarrow> True
         | EncFragment \<Rightarrow> False
         | _ \<Rightarrow> True)
      else if m = EncFragment \<and> c \<in> set ''!()*'' then False
      else True)"

text \<open>\<open>unescape\<close>: None is an escape error or a byte the mode does not admit.\<close>

fun unescape :: "enc_mode \<Rightarrow> string \<Rightarrow> string option" where
  "unescape m [] = Some []"
| "unescape m (c # s) =
     (if c = CHR ''%'' then
        (case s of
           h # l # t \<Rightarrow>
             (case (hex_val h, hex_val l) of
                (Some a, Some b) \<Rightarrow>
                  if m = EncHost \<and> a < 8 \<and> \<not> (a = 2 \<and> b = 5) then None
                  else if m = EncZone \<and> \<not> (a = 2 \<and> b = 5) \<and> 16 * a + b \<noteq> 32
                          \<and> should_escape EncHost (char_of (16 * a + b)) then None
                  else map_option ((#) (char_of (16 * a + b))) (unescape m t)
              | _ \<Rightarrow> None)
         | _ \<Rightarrow> None)
      else if c = CHR ''+'' then
        map_option ((#) (if m = EncQuery then CHR '' '' else c)) (unescape m s)
      else if m \<in> {EncHost, EncZone} \<and> of_char c < (128::nat) \<and> should_escape m c then None
      else map_option ((#) c) (unescape m s))"

definition upper_hex :: "nat \<Rightarrow> char" where
  "upper_hex n = (if n < 10 then char_of (48 + n) else char_of (55 + n))"

definition escape_char :: "enc_mode \<Rightarrow> char \<Rightarrow> string" where
  "escape_char m c =
     (if \<not> should_escape m c then [c]
      else if c = CHR '' '' \<and> m = EncQuery then ''+''
      else [CHR ''%'', upper_hex (of_char c div 16), upper_hex (of_char c mod 16)])"

definition escape :: "enc_mode \<Rightarrow> string \<Rightarrow> string" where
  "escape m s = concat (map (escape_char m) s)"

text \<open>\<open>url.QueryEscape\<close> and \<open>url.QueryUnescape\<close>.\<close>

definition query_escape :: "string \<Rightarrow> string" where
  "query_escape = escape EncQuery"

definition query_unescape :: "string \<Rightarrow> string option" where
  "query_unescape = unescape EncQuery"

section \<open>URLs\<close>

record url =
  u_scheme :: string
  u_opaque :: string
  u_user :: "string option"
  u_host :: string
  u_path :: string
  u_force_query :: bool
  u_raw_query :: string
  u_fragment :: string

definition empty_url :: url where
  "empty_url = \<lparr>u_scheme = [], u_opaque = [], u_user = None, u_host = [], u_path = [],
     u_force_query = False, u_raw_query = [], u_fragment = []\<rparr>"

definition valid_encoded_path :: "string \<Rightarrow> bool" where
  "valid_encoded_path p =
     list_all (\<lambda>c. c \<in> set ''!$&()*+,;=:@[]%'' \<or> of_char c = (39::nat) \<or> \<not> should_escape EncPath c) p"

text \<open>\<open>setPath\<close>: the escaped path the URL then has, or None for a bad escape.\<close>

definition escaped_path :: "string \<Rightarrow> string option" where
  "escaped_path p =
     (case unescape EncPath p of
        None \<Rightarrow> None
      | Some path \<Rightarrow>
          Some (if path = ''*'' then ''*''
                else if valid_encoded_path p then p else escape EncPath path))"

definition valid_optional_port :: "string \<Rightarrow> bool" where
  "valid_optional_port p =
     (case p of [] \<Rightarrow> True | c # ds \<Rightarrow> c = CHR '':'' \<and> list_all is_digit ds)"

text \<open>\<open>Hostname\<close> and \<open>Port\<close>.\<close>

definition split_host_port :: "string \<Rightarrow> string \<times> string" where
  "split_host_port hp =
     (case cut_last CHR '':'' hp of
        Some (h, p) \<Rightarrow> if list_all is_digit p then (h, p) else (hp, [])
      | None \<Rightarrow> (hp, []))"

definition strip_brackets :: "string \<Rightarrow> string" where
  "strip_brackets h =
     (if has_prefix h ''['' \<and> has_suffix h '']'' then butlast (tl h) else h)"

definition hostname :: "url \<Rightarrow> string" where
  "hostname u = strip_brackets (fst (split_host_port (u_host u)))"

definition port :: "url \<Rightarrow> string" where
  "port u = snd (split_host_port (u_host u))"

section \<open>Parsing\<close>

text \<open>\<open>getScheme\<close>: None for a missing scheme before a colon.\<close>

definition scheme_char :: "char \<Rightarrow> bool" where
  "scheme_char c \<longleftrightarrow> is_alnum c \<or> c \<in> set ''+-.''"

definition get_scheme :: "string \<Rightarrow> (string \<times> string) option" where
  "get_scheme s =
     (let a = takeWhile scheme_char s; r = dropWhile scheme_char s in
      if a \<noteq> [] \<and> \<not> (is_lower (hd a) \<or> is_upper (hd a)) then Some ([], s)
      else case r of
             c # t \<Rightarrow>
               if c = CHR '':'' then (if a = [] then None else Some (a, t)) else Some ([], s)
           | [] \<Rightarrow> Some ([], s))"

text \<open>The position of a substring, as what precedes it and what starts with it.\<close>

fun split_at_sub :: "string \<Rightarrow> string \<Rightarrow> (string \<times> string) option" where
  "split_at_sub p [] = (if p = [] then Some ([], []) else None)"
| "split_at_sub p (c # s) =
     (if has_prefix (c # s) p then Some ([], c # s)
      else map_option (\<lambda>(a, b). (c # a, b)) (split_at_sub p s))"

definition parse_bracketed :: "string \<Rightarrow> string \<Rightarrow> string option" where
  "parse_bracketed lit colon_port =
     (if \<not> valid_optional_port colon_port then None
      else
        case (case split_at_sub ''%25'' lit of
                Some (h, z) \<Rightarrow>
                  (case (unescape EncHost h, unescape EncZone z) of
                     (Some a, Some b) \<Rightarrow> Some (a @ b) | _ \<Rightarrow> None)
              | None \<Rightarrow> unescape EncHost lit) of
          None \<Rightarrow> None
        | Some h \<Rightarrow>
            (case parse_addr h of
               Some a \<Rightarrow> if is_v4 a then None else Some (''['' @ h @ '']'' @ colon_port)
             | None \<Rightarrow> None))"

text \<open>
  \<open>parseHost\<close>, with the strict treatment of colons of Go 1.26: outside brackets the first
  colon starts the port.
\<close>

definition parse_host :: "string \<Rightarrow> string option" where
  "parse_host h =
     (case cut_last CHR ''['' h of
        Some (pre, after) \<Rightarrow>
          if pre \<noteq> [] then None
          else (case cut_last CHR '']'' after of
                  None \<Rightarrow> None
                | Some (lit, colon_port) \<Rightarrow> parse_bracketed lit colon_port)
      | None \<Rightarrow>
          if list_ex (\<lambda>c. c = CHR '':'') h \<and>
             \<not> valid_optional_port (dropWhile (\<lambda>c. c \<noteq> CHR '':'') h) then None
          else unescape EncHost h)"

definition valid_userinfo :: "string \<Rightarrow> bool" where
  "valid_userinfo s =
     list_all (\<lambda>c. is_alnum c \<or> c \<in> set ''-._:~!$&()*+,;=%@'' \<or> of_char c = (39::nat)) s"

text \<open>\<open>parseAuthority\<close>: the user information, if any, and the host.\<close>

definition parse_authority :: "string \<Rightarrow> (string option \<times> string) option" where
  "parse_authority a =
     (case cut_last CHR ''@'' a of
        None \<Rightarrow> map_option (\<lambda>h. (None, h)) (parse_host a)
      | Some (info, h) \<Rightarrow>
          (case parse_host h of
             None \<Rightarrow> None
           | Some h' \<Rightarrow>
               if valid_userinfo info \<and> unescape EncUser info \<noteq> None then Some (Some info, h')
               else None))"

definition has_ctl :: "string \<Rightarrow> bool" where
  "has_ctl s = list_ex (\<lambda>c. of_char c < (32::nat) \<or> of_char c = (127::nat)) s"

text \<open>The split of the query: \<open>ForceQuery\<close> marks a lone trailing question mark.\<close>

definition cut_query :: "string \<Rightarrow> string \<times> bool \<times> string" where
  "cut_query s =
     (case str_cut CHR ''?'' s of (rest, q, found) \<Rightarrow> (rest, found \<and> q = [], q))"

definition parse_after_query :: "string \<Rightarrow> bool \<Rightarrow> string \<Rightarrow> string \<Rightarrow> url option" where
  "parse_after_query scheme force q rest =
     (let u = empty_url\<lparr>u_scheme := scheme, u_force_query := force, u_raw_query := q\<rparr> in
      if \<not> has_prefix rest ''/'' \<and> scheme \<noteq> [] then Some (u\<lparr>u_opaque := rest\<rparr>)
      else if \<not> has_prefix rest ''/'' \<and> CHR '':'' \<in> set (fst (str_cut CHR ''/'' rest)) then None
      else if has_prefix rest ''//'' \<and> (scheme \<noteq> [] \<or> \<not> has_prefix rest ''///'') then
        let au = takeWhile (\<lambda>c. c \<noteq> CHR ''/'') (drop 2 rest);
            p = dropWhile (\<lambda>c. c \<noteq> CHR ''/'') (drop 2 rest)
        in case parse_authority au of
             None \<Rightarrow> None
           | Some (user, host) \<Rightarrow>
               map_option (\<lambda>ep. u\<lparr>u_user := user, u_host := host, u_path := ep\<rparr>) (escaped_path p)
      else map_option (\<lambda>ep. u\<lparr>u_path := ep\<rparr>) (escaped_path rest))"

definition parse_no_fragment :: "string \<Rightarrow> url option" where
  "parse_no_fragment s =
     (if has_ctl s then None
      else if s = ''*'' then Some (empty_url\<lparr>u_path := ''*''\<rparr>)
      else case get_scheme s of
             None \<Rightarrow> None
           | Some (scheme, r) \<Rightarrow>
               (case cut_query r of (rest, force, q) \<Rightarrow>
                  parse_after_query (to_lower scheme) force q rest))"

text \<open>\<open>url.Parse\<close>.\<close>

definition url_parse :: "string \<Rightarrow> url option" where
  "url_parse s =
     (case str_cut CHR ''#'' s of (u, frag, _) \<Rightarrow>
       (case parse_no_fragment u of
          None \<Rightarrow> None
        | Some r \<Rightarrow>
            if frag = [] then Some r
            else if unescape EncFragment frag = None then None
            else Some (r\<lparr>u_fragment := frag\<rparr>)))"

section \<open>Resolving references\<close>

text \<open>
  The segment loop of \<open>resolvePath\<close>: \<open>dst\<close> is what was written after the leading slash,
  \<open>first\<close> that no separator is due.
\<close>

fun resolve_segments :: "string list \<Rightarrow> string \<Rightarrow> bool \<Rightarrow> string" where
  "resolve_segments [] dst first = dst"
| "resolve_segments (e # es) dst first =
     (if e = ''.'' then resolve_segments es dst False
      else if e = ''..'' then
        (case cut_last CHR ''/'' dst of
           None \<Rightarrow> resolve_segments es [] True
         | Some (pre, _) \<Rightarrow> resolve_segments es pre False)
      else resolve_segments es (dst @ (if first then [] else ''/'') @ e) False)"

definition resolve_path :: "string \<Rightarrow> string \<Rightarrow> string" where
  "resolve_path base ref =
     (let full =
        (if ref = [] then base
         else if hd ref \<noteq> CHR ''/'' then
           (case cut_last CHR ''/'' base of None \<Rightarrow> ref | Some (pre, _) \<Rightarrow> pre @ ''/'' @ ref)
         else ref)
      in if full = [] then []
         else
           let es = str_split CHR ''/'' full;
               r = CHR ''/'' # resolve_segments es [] True
                     @ (if last es = ''.'' \<or> last es = ''..'' then ''/'' else [])
           in if has_prefix r ''//'' then tl r else r)"

definition set_path :: "string \<Rightarrow> url \<Rightarrow> url" where
  "set_path p u = (case escaped_path p of None \<Rightarrow> u | Some ep \<Rightarrow> u\<lparr>u_path := ep\<rparr>)"

definition resolve_reference :: "url \<Rightarrow> url \<Rightarrow> url" where
  "resolve_reference base ref =
     (let u = (if u_scheme ref = [] then ref\<lparr>u_scheme := u_scheme base\<rparr> else ref) in
      if u_scheme ref \<noteq> [] \<or> u_host ref \<noteq> [] \<or> u_user ref \<noteq> None then
        set_path (resolve_path (u_path ref) []) u
      else if u_opaque ref \<noteq> [] then u\<lparr>u_user := None, u_host := [], u_path := []\<rparr>
      else
        let u1 =
          (if u_path ref = [] \<and> \<not> u_force_query ref \<and> u_raw_query ref = [] then
             u\<lparr>u_raw_query := u_raw_query base,
               u_fragment := (if u_fragment ref = [] then u_fragment base else u_fragment u)\<rparr>
           else u)
        in if u_path ref = [] \<and> u_opaque base \<noteq> [] then
             u1\<lparr>u_opaque := u_opaque base, u_user := None, u_host := [], u_path := []\<rparr>
           else
             set_path (resolve_path (u_path base) (u_path ref))
               (u1\<lparr>u_host := u_host base, u_user := u_user base\<rparr>))"

section \<open>Rendering\<close>

text \<open>\<open>URL.String\<close>, and \<open>URL.Parse\<close> of a reference against a base.\<close>

definition url_string :: "url \<Rightarrow> string" where
  "url_string u =
     (if u_scheme u = [] then [] else u_scheme u @ '':'')
     @ (if u_opaque u \<noteq> [] then u_opaque u
        else
          (if u_scheme u \<noteq> [] \<or> u_host u \<noteq> [] \<or> u_user u \<noteq> None then
             (if u_host u \<noteq> [] \<or> u_path u \<noteq> [] \<or> u_user u \<noteq> None then ''//'' else [])
             @ (case u_user u of None \<Rightarrow> [] | Some info \<Rightarrow> info @ ''@'')
             @ escape EncHost (u_host u)
           else [])
          @ (if u_path u \<noteq> [] \<and> hd (u_path u) \<noteq> CHR ''/'' \<and> u_host u \<noteq> [] then ''/'' else [])
          @ u_path u)
     @ (if u_force_query u \<or> u_raw_query u \<noteq> [] then CHR ''?'' # u_raw_query u else [])
     @ (if u_fragment u \<noteq> [] then CHR ''#'' # u_fragment u else [])"

definition url_parse_ref :: "url \<Rightarrow> string \<Rightarrow> url option" where
  "url_parse_ref base txt = map_option (resolve_reference base) (url_parse txt)"

section \<open>Facts\<close>

lemma set_path_keeps [simp]:
  "u_scheme (set_path p u) = u_scheme u" "u_host (set_path p u) = u_host u"
  "u_user (set_path p u) = u_user u" "u_opaque (set_path p u) = u_opaque u"
  "u_raw_query (set_path p u) = u_raw_query u" "u_fragment (set_path p u) = u_fragment u"
  by (simp_all add: set_path_def split: option.split)

text \<open>Where the scheme and the host of a resolved reference come from.\<close>

lemma resolve_reference_scheme:
  "u_scheme (resolve_reference base ref) =
     (if u_scheme ref = [] then u_scheme base else u_scheme ref)"
  by (simp add: resolve_reference_def Let_def)

lemma hostname_nonempty: "hostname u \<noteq> [] \<Longrightarrow> u_host u \<noteq> []"
  by (auto simp: hostname_def split_host_port_def strip_brackets_def cut_last_def has_prefix_def)

end
