(* ===== verification/Errors.thy ===== *)
theory Errors
  imports GoStrings
begin

text \<open>
  Error values of the package and how they are inspected: the sentinels of errors.go and of
  the standard library, the package's own error types (retryable.go, wire.go, transport.go)
  and the chain walk behind \<open>errors.Is\<close> and \<open>errors.As\<close>. A nil error is \<open>None\<close>.
\<close>

section \<open>Error values\<close>

datatype sentinel =
    ErrNotFound | ErrUnauthorized | ErrTooLarge | ErrDigestMismatch

text \<open>
  The unexported sentinels, and those of \<open>io\<close>, \<open>context\<close> and \<open>net/http\<close>. \<open>NilDereference\<close> is the
  run-time panic of a method call on a nil interface, which no code of the package recovers.
\<close>

datatype internal_sentinel =
    ErrMethodChangingRedirect | ErrWriteRedirectRejected | ErrInvalidRedirectTarget
  | ErrTooManyRedirects | ErrInvalidLocation | ErrParallelPullClosed
  | IoEOF | IoUnexpectedEOF | IoNoProgress | IoClosedPipe
  | CtxCanceled | CtxDeadlineExceeded | HttpBodyReadAfterClose | NilDereference

datatype response_origin = OriginRegistry | OriginStorage

text \<open>
  \<open>Wrapf msg es\<close> is the value of \<open>fmt.Errorf\<close> with a \<open>%w\<close> verb per element of \<open>es\<close> and
  \<open>Text msg\<close> the one without; \<open>UrlErr\<close> is the \<open>*url.Error\<close> of net/http and \<open>Opaque n\<close> an
  error of a transport or a reader of which nothing else is known.
\<close>

datatype goerr =
    Sentinel sentinel
  | Internal internal_sentinel
  | Text string
  | Opaque nat
  | Wrapf string "goerr list"
  | RetryableErr goerr int
  | TerminalErr goerr
  | RegistryErr int int response_origin
  | RequestErr string goerr
  | UrlErr string string goerr

section \<open>Rendering\<close>

text \<open>\<open>http.StatusText\<close>.\<close>

definition status_table :: "(int \<times> string) list" where
  "status_table =
     [(100, ''Continue''), (101, ''Switching Protocols''), (102, ''Processing''),
      (103, ''Early Hints''), (200, ''OK''), (201, ''Created''), (202, ''Accepted''),
      (203, ''Non-Authoritative Information''), (204, ''No Content''), (205, ''Reset Content''),
      (206, ''Partial Content''), (207, ''Multi-Status''), (208, ''Already Reported''),
      (226, ''IM Used''), (300, ''Multiple Choices''), (301, ''Moved Permanently''),
      (302, ''Found''), (303, ''See Other''), (304, ''Not Modified''), (305, ''Use Proxy''),
      (307, ''Temporary Redirect''), (308, ''Permanent Redirect''), (400, ''Bad Request''),
      (401, ''Unauthorized''), (402, ''Payment Required''), (403, ''Forbidden''),
      (404, ''Not Found''), (405, ''Method Not Allowed''), (406, ''Not Acceptable''),
      (407, ''Proxy Authentication Required''), (408, ''Request Timeout''), (409, ''Conflict''),
      (410, ''Gone''), (411, ''Length Required''), (412, ''Precondition Failed''),
      (413, ''Request Entity Too Large''), (414, ''Request URI Too Long''),
      (415, ''Unsupported Media Type''), (416, ''Requested Range Not Satisfiable''),
      (417, ''Expectation Failed''), (418, ''I'' @ [char_of (39::nat)] @ ''m a teapot''),
      (421, ''Misdirected Request''), (422, ''Unprocessable Entity''), (423, ''Locked''),
      (424, ''Failed Dependency''), (425, ''Too Early''), (426, ''Upgrade Required''),
      (428, ''Precondition Required''), (429, ''Too Many Requests''),
      (431, ''Request Header Fields Too Large''), (451, ''Unavailable For Legal Reasons''),
      (500, ''Internal Server Error''), (501, ''Not Implemented''), (502, ''Bad Gateway''),
      (503, ''Service Unavailable''), (504, ''Gateway Timeout''),
      (505, ''HTTP Version Not Supported''), (506, ''Variant Also Negotiates''),
      (507, ''Insufficient Storage''), (508, ''Loop Detected''), (510, ''Not Extended''),
      (511, ''Network Authentication Required'')]"

definition status_text :: "int \<Rightarrow> string" where
  "status_text code = (case map_of status_table code of Some t \<Rightarrow> t | None \<Rightarrow> [])"

fun internal_text :: "internal_sentinel \<Rightarrow> string" where
  "internal_text ErrMethodChangingRedirect = ''registry redirect changes the request method''"
| "internal_text ErrWriteRedirectRejected = ''registry write redirect rejected''"
| "internal_text ErrInvalidRedirectTarget = ''registry redirect has an invalid target''"
| "internal_text ErrTooManyRedirects = ''registry request exceeded the redirect limit''"
| "internal_text ErrInvalidLocation = ''invalid registry Location''"
| "internal_text ErrParallelPullClosed = ''blob: parallel pull closed''"
| "internal_text IoEOF = ''EOF''"
| "internal_text IoUnexpectedEOF = ''unexpected EOF''"
| "internal_text IoNoProgress = ''multiple Read calls return no data or error''"
| "internal_text IoClosedPipe = ''io: read/write on closed pipe''"
| "internal_text CtxCanceled = ''context canceled''"
| "internal_text CtxDeadlineExceeded = ''context deadline exceeded''"
| "internal_text HttpBodyReadAfterClose = ''http: invalid Read on closed Body''"
| "internal_text NilDereference =
     ''runtime error: invalid memory address or nil pointer dereference''"

fun sentinel_text :: "sentinel \<Rightarrow> string" where
  "sentinel_text ErrNotFound = ''blob not found''"
| "sentinel_text ErrUnauthorized = ''unauthorized''"
| "sentinel_text ErrTooLarge = ''blob too large''"
| "sentinel_text ErrDigestMismatch = ''digest mismatch''"

fun err_text :: "goerr \<Rightarrow> string" where
  "err_text (Sentinel s) = sentinel_text s"
| "err_text (Internal s) = internal_text s"
| "err_text (Text t) = t"
| "err_text (Opaque n) = ''error ''"
| "err_text (Wrapf t es) = t"
| "err_text (RetryableErr e d) = err_text e"
| "err_text (TerminalErr e) = err_text e"
| "err_text (RegistryErr status after origin) =
     ''registry returned '' @ fmt_d status @ '' '' @ status_text status"
| "err_text (RequestErr op e) = op @ '' failed''"
| "err_text (UrlErr op u e) = op @ '' '' @ u @ '': '' @ err_text e"

text \<open>\<open>fmt.Errorf ("msg: %w", e)\<close>, the form nearly every caller uses.\<close>

definition wrapf :: "string \<Rightarrow> goerr \<Rightarrow> goerr" where
  "wrapf msg e = Wrapf (msg @ '': '' @ err_text e) [e]"

section \<open>The chain\<close>

text \<open>\<open>(*registryError).Unwrap\<close>: only a registry-origin status maps onto a sentinel.\<close>

definition registry_unwrap :: "int \<Rightarrow> response_origin \<Rightarrow> goerr option" where
  "registry_unwrap status origin =
     (if origin \<noteq> OriginRegistry then None
      else if status = 401 \<or> status = 403 then Some (Sentinel ErrUnauthorized)
      else if status = 404 then Some (Sentinel ErrNotFound)
      else if status = 413 then Some (Sentinel ErrTooLarge)
      else None)"

text \<open>
  The depth-first, left-to-right sequence of errors that \<open>errors.Is\<close> and \<open>errors.As\<close> visit.
\<close>

fun err_chain :: "goerr \<Rightarrow> goerr list" where
  "err_chain (Sentinel s) = [Sentinel s]"
| "err_chain (Internal s) = [Internal s]"
| "err_chain (Text t) = [Text t]"
| "err_chain (Opaque n) = [Opaque n]"
| "err_chain (Wrapf t es) = Wrapf t es # concat (map err_chain es)"
| "err_chain (RetryableErr e d) = RetryableErr e d # err_chain e"
| "err_chain (TerminalErr e) = TerminalErr e # err_chain e"
| "err_chain (RegistryErr status after origin) =
     RegistryErr status after origin #
       (case registry_unwrap status origin of None \<Rightarrow> [] | Some s \<Rightarrow> [s])"
| "err_chain (RequestErr op e) = RequestErr op e # err_chain e"
| "err_chain (UrlErr op u e) = UrlErr op u e # err_chain e"

definition errors_is :: "goerr \<Rightarrow> goerr \<Rightarrow> bool" where
  "errors_is e target \<longleftrightarrow> target \<in> set (err_chain e)"

definition errors_as :: "(goerr \<Rightarrow> bool) \<Rightarrow> goerr \<Rightarrow> goerr option" where
  "errors_as kind e = find kind (err_chain e)"

definition is_terminal :: "goerr \<Rightarrow> bool" where
  "is_terminal e \<longleftrightarrow> (case e of TerminalErr _ \<Rightarrow> True | _ \<Rightarrow> False)"

definition is_marked :: "goerr \<Rightarrow> bool" where
  "is_marked e \<longleftrightarrow> (case e of RetryableErr _ _ \<Rightarrow> True | _ \<Rightarrow> False)"

definition is_registry :: "goerr \<Rightarrow> bool" where
  "is_registry e \<longleftrightarrow> (case e of RegistryErr _ _ _ \<Rightarrow> True | _ \<Rightarrow> False)"

definition is_url_err :: "goerr \<Rightarrow> bool" where
  "is_url_err e \<longleftrightarrow> (case e of UrlErr _ _ _ \<Rightarrow> True | _ \<Rightarrow> False)"

section \<open>Retry classification\<close>

definition mark_retryable :: "goerr option \<Rightarrow> int \<Rightarrow> goerr option" where
  "mark_retryable e d = map_option (\<lambda>x. RetryableErr x d) e"

definition mark_terminal :: "goerr option \<Rightarrow> goerr option" where
  "mark_terminal e = map_option TerminalErr e"

definition retryable_status :: "int \<Rightarrow> bool" where
  "retryable_status code \<longleftrightarrow> code = 429 \<or> (code \<ge> 500 \<and> code \<le> 599)"

definition retryable_response :: "response_origin \<Rightarrow> int \<Rightarrow> bool" where
  "retryable_response origin status =
     (if retryable_status status then True
      else if origin \<noteq> OriginStorage then False
      else status = 401 \<or> status = 403 \<or> status = 404 \<or> status = 410)"

definition retryable :: "goerr option \<Rightarrow> int \<times> bool" where
  "retryable err =
     (case err of
        None \<Rightarrow> (0, False)
      | Some e \<Rightarrow>
          if errors_as is_terminal e \<noteq> None then (0, False)
          else (case errors_as is_marked e of
                  Some (RetryableErr _ after) \<Rightarrow> (after, True)
                | _ \<Rightarrow>
                  (case errors_as is_registry e of
                     Some (RegistryErr status after origin) \<Rightarrow>
                       if retryable_response origin status then (after, True) else (0, False)
                   | _ \<Rightarrow> (0, False))))"

definition status_code :: "goerr option \<Rightarrow> int \<times> bool" where
  "status_code err =
     (case err of
        None \<Rightarrow> (0, False)
      | Some e \<Rightarrow> (case errors_as is_registry e of
                     Some (RegistryErr status _ _) \<Rightarrow> (status, True)
                   | _ \<Rightarrow> (0, False)))"

text \<open>\<open>retryableRegistryStatus\<close>, \<open>retryAfterOf\<close> and \<open>terminalPushError\<close> of push.go.\<close>

definition retryable_registry_status :: "goerr \<Rightarrow> bool" where
  "retryable_registry_status e =
     (case errors_as is_registry e of
        Some (RegistryErr status _ _) \<Rightarrow> retryable_status status
      | _ \<Rightarrow> False)"

definition retry_after_of :: "goerr \<Rightarrow> int" where
  "retry_after_of e =
     (case errors_as is_registry e of Some (RegistryErr _ after _) \<Rightarrow> after | _ \<Rightarrow> 0)"

definition terminal_push_error :: "goerr \<Rightarrow> bool \<Rightarrow> goerr" where
  "terminal_push_error e can_retry =
     (if \<not> can_retry then e else RetryableErr e (retry_after_of e))"

text \<open>
  \<open>retryableRequestError\<close> of transport.go, with the parse failure that net/http reports
  before the redirect policy runs.
\<close>

definition malformed_redirect_error :: "goerr \<Rightarrow> bool" where
  "malformed_redirect_error e =
     (case errors_as is_url_err e of
        Some (UrlErr _ _ inner) \<Rightarrow> has_prefix (err_text inner) ''failed to parse Location header ''
      | _ \<Rightarrow> False)"

definition retryable_request_error :: "goerr \<Rightarrow> bool" where
  "retryable_request_error e \<longleftrightarrow>
     \<not> errors_is e (Internal ErrMethodChangingRedirect) \<and>
     \<not> errors_is e (Internal ErrWriteRedirectRejected) \<and>
     \<not> errors_is e (Internal ErrInvalidRedirectTarget) \<and>
     \<not> errors_is e (Internal ErrTooManyRedirects) \<and>
     \<not> malformed_redirect_error e"

section \<open>Facts on the chain\<close>

lemma err_chain_self [err_simps]: "e \<in> set (err_chain e)"
  by (cases e) auto

lemma err_chain_nonempty [simp]: "err_chain e \<noteq> []"
  by (cases e) auto

lemmas err_kinds [err_simps] =
  is_terminal_def is_marked_def is_registry_def is_url_err_def

lemma errors_is_Wrapf [err_simps]:
  "errors_is (Wrapf t es) x \<longleftrightarrow> x = Wrapf t es \<or> (\<exists>e \<in> set es. errors_is e x)"
  by (auto simp: errors_is_def)

lemma errors_is_wrapf: "errors_is e x \<Longrightarrow> errors_is (wrapf m e) x"
  by (simp add: wrapf_def err_simps)

lemma errors_as_wrapf [err_simps]:
  "(\<And>t es. \<not> kind (Wrapf t es)) \<Longrightarrow> errors_as kind (wrapf m e) = errors_as kind e"
  by (simp add: errors_as_def wrapf_def)

lemma errors_as_Terminal [err_simps]: "errors_as is_terminal (TerminalErr e) = Some (TerminalErr e)"
  by (simp add: errors_as_def err_kinds)

lemma errors_as_kind: "errors_as kind e = Some x \<Longrightarrow> kind x"
  by (auto simp: errors_as_def dest: find_SomeD)

lemma retryable_wrapf [err_simps]: "retryable (Some (wrapf m e)) = retryable (Some e)"
proof -
  have "errors_as is_registry (wrapf m e) = errors_as is_registry e"
    by (simp add: err_simps)
  then show ?thesis by (simp only: retryable_def option.case) (simp add: err_simps)
qed

lemma status_code_wrapf [err_simps]: "status_code (Some (wrapf m e)) = status_code (Some e)"
  by (simp add: status_code_def err_simps)

lemma retryable_terminal:
  "TerminalErr x \<in> set (err_chain e) \<Longrightarrow> retryable (Some e) = (0, False)"
  by (auto simp: retryable_def errors_as_def find_None_all is_terminal_def)

lemma retryable_Terminal [err_simps]: "retryable (Some (TerminalErr e)) = (0, False)"
  by (rule retryable_terminal [of e]) simp

end
