(* ===== verification/Repo.thy ===== *)
theory Repo
  imports GoUrl Errors
begin

text \<open>
  repo.go: the address of a blob store. The two validators (host and name), the parse of a
  host into hostname and port, and the canonical form \<open>Mount\<close> compares registries by. The
  scan of a name component is proved equal to the grammar its comment quotes.
\<close>

section \<open>Names\<close>

record repository =
  repo_host :: string
  repo_name :: string

definition registry_scheme_https :: string where
  "registry_scheme_https = ''https''"

definition registry_scheme_http :: string where
  "registry_scheme_http = ''http''"

definition is_lower_alnum :: "char \<Rightarrow> bool" where
  "is_lower_alnum c \<longleftrightarrow> is_lower c \<or> is_digit c"

text \<open>
  \<open>validNameComponent\<close>. The argument is the part of the component from the scan's index
  on; \<open>skip_separator\<close> is the switch that moves the index past a separator, None where it
  returns false.
\<close>

definition skip_separator :: "string \<Rightarrow> string option" where
  "skip_separator r =
     (case r of
        [] \<Rightarrow> None
      | c # t \<Rightarrow>
          if c = CHR ''.'' then Some t
          else if c = CHR ''_'' then Some (if t \<noteq> [] \<and> hd t = CHR ''_'' then tl t else t)
          else if c = CHR ''-'' then Some (dropWhile (\<lambda>d. d = CHR ''-'') r)
          else None)"

lemma skip_separator_shrinks: "skip_separator r = Some t \<Longrightarrow> length t \<le> length r"
  using length_dropWhile_le [of "\<lambda>d. d = CHR ''-''" r]
  by (auto simp: skip_separator_def split: list.splits if_splits)

lemma run_shrinks: "takeWhile P s \<noteq> [] \<Longrightarrow> length (dropWhile P s) < length s"
  by (cases s) (auto simp: less_Suc_eq_le length_dropWhile_le split: if_splits)

function valid_name_component :: "string \<Rightarrow> bool" where
  "valid_name_component s =
     (if takeWhile is_lower_alnum s = [] then False
      else if dropWhile is_lower_alnum s = [] then True
      else case skip_separator (dropWhile is_lower_alnum s) of
             None \<Rightarrow> False
           | Some t \<Rightarrow> valid_name_component t)"
  by pat_completeness auto

termination
  by (relation "measure length")
    (auto dest!: skip_separator_shrinks run_shrinks)

declare valid_name_component.simps [simp del]

definition valid_name :: "string \<Rightarrow> bool" where
  "valid_name name =
     (if name = [] then False else list_all valid_name_component (str_split CHR ''/'' name))"

section \<open>Hosts\<close>

record registry_authority =
  auth_host :: string
  auth_port :: string

definition parse_registry_authority :: "string \<Rightarrow> goerr + registry_authority" where
  "parse_registry_authority host =
     (case url_parse (''https://'' @ host) of
        None \<Rightarrow> Inl (wrapf ''host and port are malformed'' (UrlErr ''parse'' (''https://'' @ host) (Text [])))
      | Some parsed \<Rightarrow>
          if u_user parsed \<noteq> None then Inl (Text ''host must not include user information'')
          else if u_path parsed \<noteq> [] \<or> u_raw_query parsed \<noteq> [] \<or> u_fragment parsed \<noteq> [] then
            Inl (Text ''host must not include a path, query, or fragment'')
          else if hostname parsed = [] then Inl (Text ''hostname is empty'')
          else if has_suffix host '':'' then Inl (Text ''port is empty'')
          else Inr \<lparr>auth_host = hostname parsed, auth_port = port parsed\<rparr>)"

definition bad_port :: "string \<Rightarrow> goerr" where
  "bad_port p = Text (''port '' @ p @ '' must be a number from 1 to 65535'')"

text \<open>\<open>strconv.ParseUint (p, 10, 16)\<close> followed by the test against zero.\<close>

definition parse_port :: "string \<Rightarrow> goerr + int" where
  "parse_port p =
     (case parse_uint 16 p of
        (v, None) \<Rightarrow> if v = 0 then Inl (bad_port p) else Inr v
      | (_, Some _) \<Rightarrow> Inl (bad_port p))"

definition validate_host :: "string \<Rightarrow> goerr option" where
  "validate_host host =
     (if host = [] then Some (Text ''host is empty'')
      else if str_contains host ''://'' then Some (Text ''host must not include a scheme'')
      else if str_contains host ''/'' then Some (Text ''host must not include a path'')
      else if contains_any host [CHR '' '', char_of (9::nat)] then
        Some (Text ''host must not contain whitespace'')
      else case parse_registry_authority host of
             Inl e \<Rightarrow> Some e
           | Inr a \<Rightarrow>
               if auth_port a \<noteq> [] then
                 (case parse_port (auth_port a) of Inl e \<Rightarrow> Some e | Inr _ \<Rightarrow> None)
               else None)"

definition validate :: "repository \<Rightarrow> goerr option" where
  "validate r =
     (case validate_host (repo_host r) of
        Some e \<Rightarrow> Some (wrapf (''invalid repository host '' @ repo_host r) e)
      | None \<Rightarrow>
          if \<not> valid_name (repo_name r) then
            Some (Text (''invalid repository name '' @ repo_name r))
          else None)"

text \<open>
  Digests come from the go-digest package, which is not part of the repository:
  \<open>digest_check\<close> stands for \<open>Digest.Validate\<close>.
\<close>

type_synonym digest = string

definition validate_target ::
    "(digest \<Rightarrow> goerr option) \<Rightarrow> repository \<Rightarrow> digest \<Rightarrow> goerr option" where
  "validate_target digest_check repo dgst =
     (case validate repo of
        Some e \<Rightarrow> Some e
      | None \<Rightarrow> (case digest_check dgst of
                   Some e \<Rightarrow> Some (wrapf (''invalid digest '' @ dgst) e)
                 | None \<Rightarrow> None))"

definition canonical_host :: "string \<Rightarrow> string" where
  "canonical_host h =
     (case parse_addr h of
        Some a \<Rightarrow> addr_string a
      | None \<Rightarrow> trim_suffix (to_lower h) ''.'')"

definition drop_default_port :: "string \<Rightarrow> string \<Rightarrow> string" where
  "drop_default_port scheme p =
     (if (scheme = registry_scheme_https \<and> p = ''443'') \<or>
         (scheme = registry_scheme_http \<and> p = ''80'') then [] else p)"

definition canonical_registry_authority ::
    "string \<Rightarrow> string \<Rightarrow> goerr + registry_authority" where
  "canonical_registry_authority host scheme =
     (case parse_registry_authority host of
        Inl e \<Rightarrow> Inl e
      | Inr a \<Rightarrow>
          let h = canonical_host (auth_host a) in
          if auth_port a = [] then Inr \<lparr>auth_host = h, auth_port = []\<rparr>
          else (case parse_port (auth_port a) of
                  Inl e \<Rightarrow> Inl e
                | Inr v \<Rightarrow>
                    Inr \<lparr>auth_host = h, auth_port = drop_default_port scheme (nat_digits (nat v))\<rparr>))"

section \<open>The grammar of names\<close>

text \<open>
  The specification: [a-z0-9]+((\.|_|__|-+)[a-z0-9]+)* for a component, and components
  separated by slashes for a name.
\<close>

definition alnum_run :: "string \<Rightarrow> bool" where
  "alnum_run w \<longleftrightarrow> w \<noteq> [] \<and> list_all is_lower_alnum w"

definition separator :: "string \<Rightarrow> bool" where
  "separator s \<longleftrightarrow> s = ''.'' \<or> s = ''_'' \<or> s = ''__'' \<or> (s \<noteq> [] \<and> list_all (\<lambda>c. c = CHR ''-'') s)"

inductive component :: "string \<Rightarrow> bool" where
  component_run: "alnum_run w \<Longrightarrow> component w"
| component_sep: "alnum_run w \<Longrightarrow> separator s \<Longrightarrow> component c \<Longrightarrow> component (w @ s @ c)"

definition grammar_name :: "string \<Rightarrow> bool" where
  "grammar_name name \<longleftrightarrow>
     (\<exists>cs. cs \<noteq> [] \<and> (\<forall>c \<in> set cs. component c) \<and> name = str_join CHR ''/'' cs)"

lemma component_head: "component c \<Longrightarrow> c \<noteq> [] \<and> is_lower_alnum (hd c)"
  by (induction rule: component.induct) (auto simp: alnum_run_def neq_Nil_conv)

lemma separator_head: "separator s \<Longrightarrow> s \<noteq> [] \<and> \<not> is_lower_alnum (hd s)"
  by (cases s) (auto simp: separator_def is_lower_alnum_def is_lower_def is_digit_def)

lemma scan_run:
  assumes "alnum_run w" and "r = [] \<or> \<not> is_lower_alnum (hd r)"
  shows "takeWhile is_lower_alnum (w @ r) = w" and "dropWhile is_lower_alnum (w @ r) = r"
proof -
  have w: "\<forall>x \<in> set w. is_lower_alnum x" using assms(1) by (simp add: alnum_run_def list_all_iff)
  have r: "takeWhile is_lower_alnum r = []" "dropWhile is_lower_alnum r = r"
    using assms(2) by (cases r; auto)+
  show "takeWhile is_lower_alnum (w @ r) = w" using w r by (simp add: takeWhile_append2)
  show "dropWhile is_lower_alnum (w @ r) = r" using w r by (simp add: dropWhile_append2)
qed

lemma drop_dashes:
  "list_all (\<lambda>c. c = CHR ''-'') s \<Longrightarrow> r = [] \<or> hd r \<noteq> CHR ''-'' \<Longrightarrow>
   dropWhile (\<lambda>d. d = CHR ''-'') (s @ r) = r"
  by (induction s) (cases r; auto)+

lemma alnum_not_punct: "is_lower_alnum x \<Longrightarrow> x \<noteq> CHR ''_'' \<and> x \<noteq> CHR ''-'' \<and> x \<noteq> CHR ''.'' \<and> x \<noteq> CHR ''/''"
  by (auto simp: is_lower_alnum_def is_lower_def is_digit_def)

lemma skip_separator_sep:
  assumes sep: "separator s" and c: "component c"
  shows "skip_separator (s @ c) = Some c"
proof -
  have c: "c \<noteq> []" "hd c \<noteq> CHR ''_''" "hd c \<noteq> CHR ''-''"
    using component_head [OF c] alnum_not_punct [of "hd c"] by auto
  consider "s = ''.''" | "s = ''_''" | "s = ''__''"
    | "s \<noteq> []" "list_all (\<lambda>c. c = CHR ''-'') s"
    using sep by (auto simp: separator_def)
  then show ?thesis
  proof cases
    case 4
    then obtain t where "s = CHR ''-'' # t" by (cases s) auto
    with 4 c show ?thesis using drop_dashes [of s c] by (simp add: skip_separator_def)
  qed (use c in \<open>simp_all add: skip_separator_def\<close>)
qed

lemma skip_separator_Some:
  assumes "skip_separator r = Some t"
  shows "\<exists>s. separator s \<and> r = s @ t"
proof -
  obtain c u where r: "r = c # u" using assms by (cases r) (simp_all add: skip_separator_def)
  let ?d = "\<lambda>d. d = CHR ''-''"
  have step: "(if c = CHR ''.'' then Some u
      else if c = CHR ''_'' then Some (if u \<noteq> [] \<and> hd u = CHR ''_'' then tl u else u)
      else if ?d c then Some (dropWhile ?d r) else None) = Some t"
    using assms unfolding r skip_separator_def list.case .
  show ?thesis
  proof (cases "c = CHR ''.''")
    case True
    with step r have "separator ''.'' \<and> r = ''.'' @ t" by (simp add: separator_def)
    then show ?thesis ..
  next
    case no_dot: False
    show ?thesis
    proof (cases "c = CHR ''_''")
      case True
      show ?thesis
      proof (cases "u \<noteq> [] \<and> hd u = CHR ''_''")
        case two: True
        with step no_dot True r have "separator ''__'' \<and> r = ''__'' @ t"
          by (cases u) (simp_all add: separator_def)
        then show ?thesis ..
      next
        case False
        with step no_dot True have "t = u" by (simp only: if_False if_True option.inject simp_thms)
        with True r have "separator ''_'' \<and> r = ''_'' @ t" by (simp add: separator_def)
        then show ?thesis ..
      qed
    next
      case False
      have c: "?d c"
      proof (rule ccontr)
        assume "\<not> ?d c"
        then show False using step unfolding if_not_P [OF no_dot] if_not_P [OF False] by simp
      qed
      have t: "t = dropWhile ?d r"
        using step unfolding if_not_P [OF no_dot] if_not_P [OF False] if_P [OF c]
        by (simp only: option.inject)
      have "takeWhile ?d r \<noteq> []" using c r by simp
      moreover have "list_all ?d (takeWhile ?d r)"
        by (auto simp: list_all_iff dest: set_takeWhileD)
      ultimately have "separator (takeWhile ?d r) \<and> r = takeWhile ?d r @ t"
        by (simp add: separator_def t)
      then show ?thesis ..
    qed
  qed
qed

text \<open>The scan accepts every string of the grammar, and nothing else.\<close>

lemma component_accepted: "component c \<Longrightarrow> valid_name_component c"
proof (induction rule: component.induct)
  case (component_run w)
  then have "takeWhile is_lower_alnum w = w" "dropWhile is_lower_alnum w = []" "w \<noteq> []"
    using scan_run [of w "[]"] by (simp_all add: alnum_run_def)
  then show ?case by (simp only: valid_name_component.simps [of w]) simp
next
  case (component_sep w s c)
  have sc: "s @ c \<noteq> []" "\<not> is_lower_alnum (hd (s @ c))"
    using separator_head [OF component_sep.hyps(2)] by simp_all
  show ?case
    using scan_run [of w "s @ c"] component_sep sc skip_separator_sep [of s c]
    by (simp only: valid_name_component.simps [of "w @ s @ c"] alnum_run_def) simp
qed

lemma accepted_component: "valid_name_component s \<Longrightarrow> component s"
proof (induction s rule: valid_name_component.induct)
  case (1 s)
  let ?w = "takeWhile is_lower_alnum s" and ?r = "dropWhile is_lower_alnum s"
  have ne: "?w \<noteq> []" using "1.prems" by (auto simp: valid_name_component.simps [of s])
  then have w: "alnum_run ?w"
    by (auto simp: alnum_run_def list_all_iff dest: set_takeWhileD)
  have s: "s = ?w @ ?r" by simp
  show ?case
  proof (cases "?r = []")
    case True
    with s have "s = ?w" by (metis append_Nil2)
    with w show ?thesis by (metis component_run)
  next
    case False
    have unfold: "valid_name_component s =
        (case skip_separator ?r of None \<Rightarrow> False | Some t \<Rightarrow> valid_name_component t)"
      using ne False by (simp only: valid_name_component.simps [of s] if_False)
    with "1.prems" obtain t where t: "skip_separator ?r = Some t" "valid_name_component t"
      by (cases "skip_separator ?r") simp_all
    from "1.IH" [OF ne False t] have "component t" .
    moreover from t obtain sep where "separator sep" "?r = sep @ t"
      using skip_separator_Some by blast
    ultimately show ?thesis using component_sep [OF w] s by metis
  qed
qed

lemma component_iff: "valid_name_component s \<longleftrightarrow> component s"
  using component_accepted accepted_component by blast

lemma run_no_slash: "alnum_run w \<Longrightarrow> CHR ''/'' \<notin> set w"
  using alnum_not_punct by (fastforce simp: alnum_run_def list_all_iff)

lemma separator_no_slash: "separator s \<Longrightarrow> CHR ''/'' \<notin> set s"
  by (auto simp: separator_def list_all_iff)

lemma component_no_slash: "component c \<Longrightarrow> CHR ''/'' \<notin> set c"
  by (induction rule: component.induct) (simp_all add: run_no_slash separator_no_slash)

text \<open>
  C19. \<open>Repository\<close> names are accepted exactly when they are non-empty sequences of grammar
  components joined by slashes: the allocation-free scan of \<open>validNameComponent\<close> and the
  split of \<open>validName\<close> implement the regular expression quoted in the comment.
\<close>

theorem valid_name_grammar: "valid_name name \<longleftrightarrow> grammar_name name"
proof
  assume "valid_name name"
  then have "\<forall>c \<in> set (str_split CHR ''/'' name). component c"
    by (auto simp: valid_name_def list_all_iff component_iff split: if_splits)
  then show "grammar_name name"
    unfolding grammar_name_def using str_join_split [of "CHR ''/''" name]
    by (metis str_split_nonempty)
next
  assume "grammar_name name"
  then obtain cs where cs: "cs \<noteq> []" "\<forall>c \<in> set cs. component c" "name = str_join CHR ''/'' cs"
    by (auto simp: grammar_name_def)
  then have split: "str_split CHR ''/'' name = cs"
    using str_split_join component_no_slash by metis
  moreover have "name \<noteq> []"
  proof
    assume "name = []"
    with split have "cs = [[]]" by simp
    with cs(2) show False using component_head by fastforce
  qed
  ultimately show "valid_name name"
    using cs(2) by (simp add: valid_name_def list_all_iff component_iff)
qed

section \<open>What an accepted host is\<close>

lemma str_contains_char: "str_contains s [c] \<longleftrightarrow> c \<in> set s"
  by (induction s) (auto simp: has_prefix_def)

lemma has_prefix_mem: "has_prefix s p \<Longrightarrow> x \<in> set p \<Longrightarrow> x \<in> set s"
  unfolding has_prefix_def by (metis in_set_takeD)

lemma contains_slash: "str_contains s ''://'' \<Longrightarrow> CHR ''/'' \<in> set s"
proof (induction s)
  case (Cons c s)
  then show ?case using has_prefix_mem [of "c # s" "''://''" "CHR ''/''"] by auto
qed simp

lemma parse_port_value:
  "parse_port p = Inr v \<Longrightarrow> list_all is_digit p \<and> v = digits_val p \<and> 1 \<le> v \<and> v \<le> 65535"
  using digits_val_nonneg [of p]
  by (auto simp: parse_port_def parse_uint_def split: if_splits prod.splits)

section \<open>Equivalent spellings of a host\<close>

text \<open>Host names made of letters, digits, dots and dashes.\<close>

definition host_char :: "char \<Rightarrow> bool" where
  "host_char c \<longleftrightarrow> is_alnum c \<or> c = CHR ''.'' \<or> c = CHR ''-''"

definition plain_host :: "string \<Rightarrow> bool" where
  "plain_host h \<longleftrightarrow> h \<noteq> [] \<and> list_all host_char h"

text \<open>An authority: a plain host and a port, empty or with its colon.\<close>

definition plain_authority :: "string \<Rightarrow> bool" where
  "plain_authority a \<longleftrightarrow>
     a \<noteq> [] \<and> list_all (\<lambda>c. host_char c \<or> c = CHR '':'') a"

lemma host_char_code:
  "host_char c \<Longrightarrow>
   (let n = (of_char c :: nat) in n = 45 \<or> n = 46 \<or> (48 \<le> n \<and> n \<le> 57) \<or> (65 \<le> n \<and> n \<le> 90) \<or>
      (97 \<le> n \<and> n \<le> 122))"
  by (auto simp: host_char_def is_alnum_def is_lower_def is_upper_def is_digit_def Let_def)

lemma host_char_not:
  assumes "host_char c" shows "c \<notin> set ''/?#@[]%+ *''" and "c \<noteq> CHR '':''"
proof -
  have "\<not> host_char CHR '':''"
    by (simp add: host_char_def is_alnum_def is_lower_def is_upper_def is_digit_def)
  moreover have "list_all (\<lambda>x. \<not> host_char x) ''/?#@[]%+ *''"
    by (simp add: host_char_def is_alnum_def is_lower_def is_upper_def is_digit_def)
  ultimately show "c \<notin> set ''/?#@[]%+ *''" and "c \<noteq> CHR '':''"
    using assms unfolding list_all_iff by blast+
qed

lemma plain_authority_not:
  assumes "plain_authority a" and "x \<in> set ''/?#@[]%+ *''"
  shows "x \<notin> set a"
proof
  assume "x \<in> set a"
  with assms(1) have "host_char x \<or> x = CHR '':''" by (auto simp: plain_authority_def list_all_iff)
  moreover have "x \<noteq> CHR '':''"
  proof
    assume "x = CHR '':''"
    with assms(2) show False by simp
  qed
  ultimately show False using assms(2) host_char_not(1) [of x] by blast
qed

lemma plain_authority_ctl: "plain_authority a \<Longrightarrow> \<not> has_ctl a"
  using host_char_code by (fastforce simp: plain_authority_def has_ctl_def list_all_iff list_ex_iff Let_def)

lemma unescape_plain:
  "list_all (\<lambda>c. host_char c \<or> c = CHR '':'') h \<Longrightarrow> unescape EncHost h = Some h"
proof (induction h)
  case (Cons c h)
  then have "\<not> should_escape EncHost c"
    by (auto simp: should_escape_def host_char_def)
  moreover have "c \<noteq> CHR ''%''" "c \<noteq> CHR ''+''"
    using Cons.prems host_char_not(1) [of c] by auto
  ultimately show ?case using Cons by (simp split: list.splits)
qed simp

lemma takeWhile_prefix:
  "list_all P a \<Longrightarrow> \<not> P x \<Longrightarrow> takeWhile P (a @ x # r) = a \<and> dropWhile P (a @ x # r) = x # r"
  by (induction a) auto

lemma get_scheme_https: "get_scheme (''https:'' @ r) = Some (''https'', r)"
proof -
  have "scheme_char CHR ''h''" "scheme_char CHR ''t''" "scheme_char CHR ''p''"
      "scheme_char CHR ''s''" "\<not> scheme_char CHR '':''" "is_lower CHR ''h''"
    by (simp_all add: scheme_char_def is_alnum_def is_lower_def is_upper_def is_digit_def)
  then show ?thesis by (simp add: get_scheme_def)
qed

lemma parse_plain_rest:
  assumes a: "plain_authority a" and h: "parse_host a = Some h"
  shows "parse_after_query ''https'' f q (''//'' @ a) =
    Some \<lparr>u_scheme = ''https'', u_opaque = [], u_user = None, u_host = h, u_path = [],
          u_force_query = f, u_raw_query = q, u_fragment = []\<rparr>"
proof -
  have no: "CHR ''/'' \<notin> set a" "CHR ''@'' \<notin> set a"
    using plain_authority_not [OF a] by auto
  then have tw: "takeWhile (\<lambda>c. c \<noteq> CHR ''/'') a = a" "dropWhile (\<lambda>c. c \<noteq> CHR ''/'') a = []"
    by (auto simp: takeWhile_eq_all_conv)
  have slashes: "has_prefix (''//'' @ a) ''/''" "has_prefix (''//'' @ a) ''//''"
    by (simp_all add: has_prefix_def)
  have "cut_last CHR ''@'' a = None" using no by (simp add: cut_last_None)
  with h have "parse_authority a = Some (None, h)" by (simp add: parse_authority_def)
  moreover have "drop 2 (''//'' @ a) = a" by simp
  moreover have "escaped_path [] = Some []"
    by (simp add: escaped_path_def valid_encoded_path_def)
  ultimately show ?thesis
    by (simp only: parse_after_query_def slashes Let_def tw if_True if_False simp_thms option.case
        prod.case list.distinct) (simp add: empty_url_def)
qed

lemma url_parse_plain:
  assumes a: "plain_authority a" and h: "parse_host a = Some h"
  shows "url_parse (''https://'' @ a) =
    Some \<lparr>u_scheme = ''https'', u_opaque = [], u_user = None, u_host = h, u_path = [],
          u_force_query = False, u_raw_query = [], u_fragment = []\<rparr>"
    and "url_parse (''https://'' @ a @ ''?'') =
    Some \<lparr>u_scheme = ''https'', u_opaque = [], u_user = None, u_host = h, u_path = [],
          u_force_query = True, u_raw_query = [], u_fragment = []\<rparr>"
proof -
  have no: "CHR ''#'' \<notin> set a" "CHR ''?'' \<notin> set a" using plain_authority_not [OF a] by auto
  have ctl: "\<not> has_ctl (''https://'' @ a)" "\<not> has_ctl (''https://'' @ a @ ''?'')"
    using plain_authority_ctl [OF a] by (auto simp: has_ctl_def)
  have low: "to_lower ''https'' = ''https''" by (simp add: to_lower_def lower_char_def is_upper_def)
  have cut: "cut_query (''//'' @ a) = (''//'' @ a, False, [])"
    "cut_query (''//'' @ a @ ''?'') = (''//'' @ a, True, [])"
    using no str_cut_append [of "CHR ''?''" "''//'' @ a" "[]"]
    by (auto simp: cut_query_def str_simps)
  have frag: "str_cut CHR ''#'' (''https://'' @ a) = (''https://'' @ a, [], False)"
    "str_cut CHR ''#'' (''https://'' @ a @ ''?'') = (''https://'' @ a @ ''?'', [], False)"
    using no by (simp_all add: str_cut_absent)
  note rest = parse_plain_rest [OF a h]
  show "url_parse (''https://'' @ a) =
    Some \<lparr>u_scheme = ''https'', u_opaque = [], u_user = None, u_host = h, u_path = [],
          u_force_query = False, u_raw_query = [], u_fragment = []\<rparr>"
    using get_scheme_https [of "''//'' @ a"] ctl frag cut low rest
    by (simp add: url_parse_def parse_no_fragment_def)
  show "url_parse (''https://'' @ a @ ''?'') =
    Some \<lparr>u_scheme = ''https'', u_opaque = [], u_user = None, u_host = h, u_path = [],
          u_force_query = True, u_raw_query = [], u_fragment = []\<rparr>"
    using get_scheme_https [of "''//'' @ a @ ''?''"] ctl frag cut low rest
    by (simp add: url_parse_def parse_no_fragment_def)
qed

lemma plain_host_authority: "plain_host h \<Longrightarrow> plain_authority h"
  by (auto simp: plain_host_def plain_authority_def list_all_iff)

lemma digit_host_char: "is_digit c \<Longrightarrow> host_char c"
  by (simp add: host_char_def is_alnum_def)

lemma plain_host_no_colon: "plain_host h \<Longrightarrow> CHR '':'' \<notin> set h"
  using host_char_not(2) by (auto simp: plain_host_def list_all_iff)

lemma plain_host_port_authority:
  "plain_host h \<Longrightarrow> list_all is_digit p \<Longrightarrow> plain_authority (h @ CHR '':'' # p)"
  by (auto simp: plain_host_def plain_authority_def list_all_iff digit_host_char)

lemma digits_no_colon: "list_all is_digit p \<Longrightarrow> CHR '':'' \<notin> set p"
  using digit_host_char host_char_not(2) by (auto simp: list_all_iff)

lemma parse_host_plain:
  assumes h: "plain_host h"
  shows "parse_host h = Some h"
    and "list_all is_digit p \<Longrightarrow> parse_host (h @ CHR '':'' # p) = Some (h @ CHR '':'' # p)"
proof -
  have no: "cut_last CHR ''['' h = None"
    using plain_authority_not [OF plain_host_authority [OF h]] by (simp add: cut_last_None)
  have u: "unescape EncHost h = Some h"
    using plain_host_authority [OF h] by (simp add: unescape_plain plain_authority_def)
  show "parse_host h = Some h"
    using no u plain_host_no_colon [OF h] by (auto simp: parse_host_def list_ex_iff)
  assume p: "list_all is_digit p"
  note au = plain_host_port_authority [OF h p]
  have "cut_last CHR ''['' (h @ CHR '':'' # p) = None"
    using plain_authority_not [OF au, of "CHR ''[''"] by (simp add: cut_last_None)
  moreover have "unescape EncHost (h @ CHR '':'' # p) = Some (h @ CHR '':'' # p)"
    using au by (intro unescape_plain) (simp add: plain_authority_def)
  moreover have "dropWhile (\<lambda>c. c \<noteq> CHR '':'') (h @ CHR '':'' # p) = CHR '':'' # p"
    using plain_host_no_colon [OF h] by (subst dropWhile_append2) auto
  ultimately show "parse_host (h @ CHR '':'' # p) = Some (h @ CHR '':'' # p)"
    using p by (simp add: parse_host_def valid_optional_port_def)
qed

lemma strip_plain: "plain_host h \<Longrightarrow> strip_brackets h = h"
  using plain_authority_not [OF plain_host_authority, of h "CHR ''[''"]
  by (cases h) (auto simp: strip_brackets_def has_prefix_def)

lemma split_plain:
  assumes h: "plain_host h"
  shows "split_host_port h = (h, [])"
    and "list_all is_digit p \<Longrightarrow> split_host_port (h @ CHR '':'' # p) = (h, p)"
proof -
  show "split_host_port h = (h, [])"
    using plain_host_no_colon [OF h] cut_last_None [of "CHR '':''" h]
    by (simp add: split_host_port_def)
  assume p: "list_all is_digit p"
  then have "cut_last CHR '':'' (h @ CHR '':'' # p) = Some (h, p)"
    by (simp add: cut_last_Some digits_no_colon)
  with p show "split_host_port (h @ CHR '':'' # p) = (h, p)" by (simp add: split_host_port_def)
qed

lemma last_not_colon: "s \<noteq> [] \<Longrightarrow> last s \<noteq> CHR '':'' \<Longrightarrow> \<not> has_suffix s '':''"
  by (cases s rule: rev_cases) (auto simp: has_suffix_def has_prefix_def)

lemma plain_last: "plain_host h \<Longrightarrow> last h \<noteq> CHR '':''"
  by (metis last_in_set plain_host_def plain_host_no_colon)

lemma parse_plain_host:
  assumes h: "plain_host h"
  shows "parse_registry_authority h = Inr \<lparr>auth_host = h, auth_port = []\<rparr>"
  using url_parse_plain(1) [OF plain_host_authority [OF h] parse_host_plain(1) [OF h]] h
    split_plain(1) [OF h] strip_plain [OF h] plain_last [OF h] last_not_colon [of h]
  by (simp add: parse_registry_authority_def hostname_def port_def plain_host_def)

lemma parse_plain_host_port:
  assumes h: "plain_host h" and p: "list_all is_digit p" "p \<noteq> []"
  shows "parse_registry_authority (h @ CHR '':'' # p) = Inr \<lparr>auth_host = h, auth_port = p\<rparr>"
proof -
  have "last p \<noteq> CHR '':''" using digits_no_colon [OF p(1)] last_in_set [OF p(2)] by auto
  then have "\<not> has_suffix (h @ CHR '':'' # p) '':''"
    using p(2) by (intro last_not_colon) simp_all
  then show ?thesis
    using url_parse_plain(1) [OF plain_host_port_authority [OF h p(1)] parse_host_plain(2) [OF h p(1)]]
      split_plain(2) [OF h p(1)] strip_plain [OF h] h
    by (simp add: parse_registry_authority_def hostname_def port_def plain_host_def)
qed

section \<open>The parts of an accepted host\<close>

lemma hex_octet_colon:
  assumes "hex_val h = Some a" and "hex_val l = Some b" and "a < 8 \<longrightarrow> a = 2 \<and> b = 5"
  shows "char_of (16 * a + b) \<noteq> CHR '':''"
proof
  assume e: "char_of (16 * a + b) = CHR '':''"
  have "a < 16" "b < 16" using assms(1,2) by (auto simp: hex_val_def Let_def split: if_splits)
  then have "(of_char (char_of (16 * a + b) :: char) :: nat) = 16 * a + b" by simp
  with e have "16 * a + b = 58" by simp
  with assms(3) \<open>b < 16\<close> show False by presburger
qed

lemma unescape_octet: "unescape EncHost (CHR ''%'' # h # l # t) =
  (case (hex_val h, hex_val l) of
     (Some a, Some b) \<Rightarrow>
       if a < 8 \<and> \<not> (a = 2 \<and> b = 5) then None
       else map_option ((#) (char_of (16 * a + b))) (unescape EncHost t)
   | _ \<Rightarrow> None)"
  by (subst unescape.simps(2)) (simp only: list.case refl if_True if_False enc_mode.distinct simp_thms)

text \<open>The first character of a host is copied, or starts an octet that is no colon.\<close>

lemma unescape_step:
  assumes "unescape EncHost (c # s) = Some r"
  obtains (plain) w where "c \<noteq> CHR ''%''" "unescape EncHost s = Some w" "r = c # w"
  | (octet) h l t x w where "c = CHR ''%''" "s = h # l # t" "hex_val h \<noteq> None" "hex_val l \<noteq> None"
      "unescape EncHost t = Some w" "r = x # w" "x \<noteq> CHR '':''"
proof (cases "c = CHR ''%''")
  case True
  obtain h l t where s: "s = h # l # t"
  proof (cases s)
    case Nil
    with assms True show thesis by simp
  next
    case (Cons h s')
    with assms True that show thesis by (cases s') simp_all
  qed
  note u = assms [unfolded True s unescape_octet]
  obtain a where a: "hex_val h = Some a" using u by (cases "hex_val h") simp_all
  obtain b where b: "hex_val l = Some b" using u a by (cases "hex_val l") simp_all
  note x = u [unfolded a b prod.case option.case]
  then have hi: "\<not> (a < 8 \<and> \<not> (a = 2 \<and> b = 5))" by (metis option.distinct(1))
  then obtain w where "unescape EncHost t = Some w" "r = char_of (16 * a + b) # w"
    using x by (auto simp only: if_False map_option_eq_Some)
  with True s a b hex_octet_colon [OF a b] hi show thesis by (intro octet) blast+
next
  case False
  with assms show thesis by (auto split: if_splits intro: plain)
qed

lemma unescape_colon: "unescape EncHost s = Some r \<Longrightarrow> CHR '':'' \<in> set r \<Longrightarrow> CHR '':'' \<in> set s"
proof (induction "length s" arbitrary: s r rule: less_induct)
  case less
  show ?case
  proof (cases s)
    case (Cons c s1)
    from less.prems(1) [unfolded Cons] show ?thesis
    proof (cases rule: unescape_step)
      case (plain w)
      with less.hyps [of s1 w] less.prems(2) Cons show ?thesis by auto
    next
      case (octet h l t x w)
      with less.hyps [of t w] less.prems(2) Cons show ?thesis by auto
    qed
  qed (use less.prems in simp)
qed

lemma unescape_port:
  "unescape EncHost (h @ CHR '':'' # p) = Some r \<Longrightarrow> list_all is_digit p \<Longrightarrow> \<exists>h'. r = h' @ CHR '':'' # p"
proof (induction "length h" arbitrary: h r rule: less_induct)
  case less
  show ?case
  proof (cases h)
    case Nil
    have "unescape EncHost (CHR '':'' # p) = Some (CHR '':'' # p)"
      using less.prems(2) digit_host_char by (intro unescape_plain) (auto simp: list_all_iff)
    with less.prems(1) Nil show ?thesis by simp
  next
    case (Cons c h1)
    have colon: "hex_val CHR '':'' = None" by code_simp
    from less.prems(1) [unfolded Cons append_Cons] show ?thesis
    proof (cases rule: unescape_step)
      case (plain w)
      with less.hyps [of h1 w] less.prems(2) Cons show ?thesis by (metis append_Cons length_Cons lessI)
    next
      case (octet a b t x w)
      from octet(2,3,4) colon obtain t' where h1: "h1 = a # b # t'" "t = t' @ CHR '':'' # p"
        by (cases h1; cases "tl h1") auto
      with less.hyps [of t' w] less.prems(2) octet(5,6) Cons show ?thesis by (metis append_Cons length_Cons lessI less_SucI)
    qed
  qed
qed

text \<open>The port of a parsed host is written at the end of the authority.\<close>

lemma bracketed_port:
  assumes "parse_bracketed lit cp = Some hst" and "split_host_port hst = (h, p)" and "p \<noteq> []"
  shows "cp = CHR '':'' # p"
proof -
  from assms(1) obtain x where hst: "hst = CHR ''['' # x @ CHR '']'' # cp" and v: "valid_optional_port cp"
    by (auto simp: parse_bracketed_def split: if_splits option.splits)
  from assms(2,3) have c: "cut_last CHR '':'' hst = Some (h, p)" and d: "list_all is_digit p"
    by (auto simp: split_host_port_def split: option.splits if_splits)
  show ?thesis
  proof (cases cp)
    case Nil
    have "last p = CHR '']''" using c hst Nil assms(3) by (auto simp: cut_last_Some dest!: arg_cong [of _ _ last])
    then have "CHR '']'' \<in> set p" using last_in_set [OF assms(3)] by simp
    moreover have "\<not> is_digit CHR '']''" by (simp add: is_digit_def)
    ultimately show ?thesis using d by (auto simp: list_all_iff)
  next
    case (Cons k ds)
    with v have ds: "k = CHR '':''" "list_all is_digit ds" by (simp_all add: valid_optional_port_def)
    have "cut_last CHR '':'' hst = Some (CHR ''['' # x @ '']'', ds)"
      using hst Cons ds digits_no_colon [OF ds(2)] by (simp add: cut_last_Some)
    with c Cons ds(1) show ?thesis by simp
  qed
qed

lemma parsed_port_written:
  assumes "parse_host au = Some hst" and "split_host_port hst = (h, p)" and "p \<noteq> []"
  shows "\<exists>pre. au = pre @ CHR '':'' # p"
proof (cases "cut_last CHR ''['' au")
  case (Some q)
  obtain pre rest where q: "q = (pre, rest)" by (metis surj_pair)
  with assms(1) Some obtain lit cp where "pre = []" "cut_last CHR '']'' rest = Some (lit, cp)"
    and b: "parse_bracketed lit cp = Some hst"
    by (auto simp: parse_host_def split: if_splits option.splits)
  then have "au = CHR ''['' # lit @ CHR '']'' # cp" using Some q by (simp add: cut_last_Some)
  with bracketed_port [OF b assms(2,3)] show ?thesis
    by (intro exI [of _ "CHR ''['' # lit @ '']''"]) simp
next
  case None
  have u: "unescape EncHost au = Some hst"
    and v: "list_ex (\<lambda>c. c = CHR '':'') au \<longrightarrow> valid_optional_port (dropWhile (\<lambda>c. c \<noteq> CHR '':'') au)"
    using assms(1) None by (auto simp: parse_host_def split: if_splits)
  from assms(2,3) have c: "cut_last CHR '':'' hst = Some (h, p)"
    by (auto simp: split_host_port_def split: option.splits if_splits)
  then have "CHR '':'' \<in> set au" using unescape_colon [OF u] by (auto simp: cut_last_Some)
  then obtain pre ds where au: "au = pre @ CHR '':'' # ds" "CHR '':'' \<notin> set pre" by (meson split_list_first)
  then have "dropWhile (\<lambda>c. c \<noteq> CHR '':'') au = CHR '':'' # ds" by (subst au, subst dropWhile_append2) auto
  with v au have ds: "list_all is_digit ds" by (auto simp: valid_optional_port_def)
  from unescape_port [OF u [unfolded au(1)] ds] obtain h' where "hst = h' @ CHR '':'' # ds" by blast
  with digits_no_colon [OF ds] have "cut_last CHR '':'' hst = Some (h', ds)" by (simp add: cut_last_Some)
  with c au(1) show ?thesis by auto
qed

text \<open>What \<open>url.Parse\<close> of an accepted host has gone through.\<close>

lemma parsed_authority:
  assumes "parse_registry_authority host = Inr a" and "CHR ''/'' \<notin> set host"
  obtains au delims hst h where "host = au @ delims" "delims \<in> {[], ''?'', ''#'', ''?#''}"
    "list_all (\<lambda>c. c \<notin> set ''/?#@'') au" "\<not> has_ctl au" "parse_host au = Some hst"
    "split_host_port hst = (h, auth_port a)" "auth_host a = strip_brackets h"
proof -
  obtain u where u: "url_parse (''https://'' @ host) = Some u" and none: "u_user u = None" "u_raw_query u = []" "u_fragment u = []"
    and a: "auth_host a = hostname u" "auth_port a = port u"
    using assms(1) by (auto simp: parse_registry_authority_def split: option.splits if_splits)
  obtain s frag found where fcut: "str_cut CHR ''#'' (''https://'' @ host) = (s, frag, found)" by (metis prod_cases3)
  have frag: "frag = []" and r: "parse_no_fragment s = Some u"
    using u none(3) unfolding url_parse_def fcut prod.case
    by (auto split: option.splits if_splits)
  obtain x where s: "s = ''https://'' @ x" and host: "host = x @ (if found then ''#'' else [])" and xf: "CHR ''#'' \<notin> set x"
  proof (cases found)
    case True
    have "str_cut CHR ''#'' (''https://'' @ host) = (s, [], True)" using fcut frag True by metis
    then have e: "''https://'' @ host = s @ ''#''" "CHR ''#'' \<notin> set s" by (simp_all only: str_cut_found simp_thms)
    then obtain x where x: "host = x @ ''#''" by (cases host rule: rev_cases) auto
    with e have "s = ''https://'' @ x" by simp
    with x e True that show thesis by simp
  next
    case False
    with fcut have "s = ''https://'' @ host" "CHR ''#'' \<notin> set (''https://'' @ host)"
      by (simp_all only: str_cut_not_found simp_thms)
    with False that show thesis by simp
  qed
  have ctl: "\<not> has_ctl s" using r by (auto simp: parse_no_fragment_def)
  have low: "to_lower ''https'' = ''https''" by (simp add: to_lower_def lower_char_def is_upper_def)
  obtain rest force q where qcut: "cut_query (''//'' @ x) = (rest, force, q)" by (metis prod_cases3)
  have after: "parse_after_query ''https'' force q rest = Some u"
    using r ctl get_scheme_https [of "''//'' @ x"] qcut low by (simp add: parse_no_fragment_def s split: if_splits)
  then have q: "q = []" using none(2)
    by (auto simp: parse_after_query_def Let_def empty_url_def split: if_splits option.splits)
  obtain qf where q0: "str_cut CHR ''?'' (''//'' @ x) = (rest, q, qf)"
    using qcut by (auto simp: cut_query_def split: prod.splits)
  obtain au where rest: "rest = ''//'' @ au" and x: "x = au @ (if qf then ''?'' else [])" and auq: "CHR ''?'' \<notin> set au"
  proof (cases qf)
    case True
    have "str_cut CHR ''?'' (''//'' @ x) = (rest, [], True)" using q0 q True by metis
    then have e: "''//'' @ x = rest @ ''?''" "CHR ''?'' \<notin> set rest" by (simp_all only: str_cut_found simp_thms)
    then obtain au where w: "x = au @ ''?''" by (cases x rule: rev_cases) auto
    with e have "rest = ''//'' @ au" by simp
    with w e True that show thesis by simp
  next
    case False
    with q0 have "rest = ''//'' @ x" "CHR ''?'' \<notin> set (''//'' @ x)" by (simp_all only: str_cut_not_found simp_thms)
    with False that show thesis by simp
  qed
  have sl: "CHR ''/'' \<notin> set au" using assms(2) host x by auto
  then have tw: "takeWhile (\<lambda>c. c \<noteq> CHR ''/'') au = au" "dropWhile (\<lambda>c. c \<noteq> CHR ''/'') au = []"
    by (auto simp: takeWhile_eq_all_conv)
  have slashes: "has_prefix (''//'' @ au) ''/''" "has_prefix (''//'' @ au) ''//''"
    by (simp_all add: has_prefix_def)
  have d2: "drop 2 (''//'' @ au) = au" by simp
  obtain user hst where pa: "parse_authority au = Some (user, hst)" and uu: "u_user u = user" "u_host u = hst"
    using after unfolding rest parse_after_query_def Let_def d2 tw
    by (auto simp: slashes simp del: append.simps split: option.splits if_splits)
  have at: "CHR ''@'' \<notin> set au" and ph: "parse_host au = Some hst"
    using pa none(1) uu(1) by (auto simp: parse_authority_def cut_last_None split: option.splits if_splits)
  show thesis
  proof (rule that [of au "(if qf then ''?'' else []) @ (if found then ''#'' else [])" hst "fst (split_host_port hst)"])
    show "host = au @ (if qf then ''?'' else []) @ (if found then ''#'' else [])" using host x by simp
    show "(if qf then ''?'' else []) @ (if found then ''#'' else []) \<in> {[], ''?'', ''#'', ''?#''}" by simp
    have "CHR ''#'' \<notin> set au" using xf x by simp
    with sl at auq show "list_all (\<lambda>c. c \<notin> set ''/?#@'') au" by (auto simp: list_all_iff)
    show "\<not> has_ctl au" using ctl s x by (auto simp: has_ctl_def)
    show "parse_host au = Some hst" by (rule ph)
    show "split_host_port hst = (fst (split_host_port hst), auth_port a)"
      using a(2) uu(2) by (simp add: port_def)
    show "auth_host a = strip_brackets (fst (split_host_port hst))" using a(1) uu(2) by (simp add: hostname_def)
  qed
qed

lemma accepted_host:
  assumes "validate_host host = None"
  obtains a where "parse_registry_authority host = Inr a" "CHR ''/'' \<notin> set host" "CHR '' '' \<notin> set host"
    "auth_host a \<noteq> []" "auth_port a = [] \<or> (\<exists>v. parse_port (auth_port a) = Inr v)"
proof -
  have slash: "CHR ''/'' \<notin> set host"
    using assms unfolding validate_host_def str_contains_char by (metis option.distinct(1))
  have "\<not> contains_any host [CHR '' '', char_of (9::nat)]"
    using assms unfolding validate_host_def by (metis option.distinct(1))
  then have blank: "CHR '' '' \<notin> set host" by (auto simp: contains_any_def list_ex_iff)
  have "(case parse_registry_authority host of
             Inl e \<Rightarrow> Some e
           | Inr a \<Rightarrow>
               if auth_port a \<noteq> [] then
                 (case parse_port (auth_port a) of Inl e \<Rightarrow> Some e | Inr _ \<Rightarrow> None)
               else None) = None"
    using assms unfolding validate_host_def by (metis option.distinct(1))
  then obtain a where a: "parse_registry_authority host = Inr a"
    and p: "auth_port a \<noteq> [] \<longrightarrow> (\<exists>v. parse_port (auth_port a) = Inr v)"
    by (auto split: if_splits sum.splits)
  from a have "auth_host a \<noteq> []"
    by (auto simp: parse_registry_authority_def split: option.splits if_splits)
  with that [OF a slash blank] p show thesis by blast
qed

text \<open>
  C20. What \<open>validateHost\<close> accepts: a host that is a URL authority and nothing behind it but,
  possibly, the delimiter of an empty query or an empty fragment. The authority has no user
  information, slash, space or control character and parses as a non-empty hostname with either
  no port or a decimal port from 1 to 65535, which is written at its end.
\<close>

theorem validate_host_sound:
  assumes "validate_host host = None"
  shows "\<exists>au delims a. host = au @ delims \<and> delims \<in> {[], ''?'', ''#'', ''?#''} \<and>
    list_all (\<lambda>c. c \<notin> set ''/?#@ '') au \<and> \<not> has_ctl au \<and>
    parse_registry_authority host = Inr a \<and>
    (\<exists>hst h. parse_host au = Some hst \<and> split_host_port hst = (h, auth_port a) \<and>
       auth_host a = strip_brackets h) \<and> auth_host a \<noteq> [] \<and>
    (auth_port a = [] \<or>
     (\<exists>pre. au = pre @ CHR '':'' # auth_port a \<and> list_all is_digit (auth_port a) \<and>
        1 \<le> digits_val (auth_port a) \<and> digits_val (auth_port a) \<le> 65535))"
proof -
  obtain a where a: "parse_registry_authority host = Inr a" "CHR ''/'' \<notin> set host" "CHR '' '' \<notin> set host"
      "auth_host a \<noteq> []" and port: "auth_port a = [] \<or> (\<exists>v. parse_port (auth_port a) = Inr v)"
    using accepted_host [OF assms] by blast
  obtain au delims hst h where au: "host = au @ delims" "delims \<in> {[], ''?'', ''#'', ''?#''}"
    "list_all (\<lambda>c. c \<notin> set ''/?#@'') au" "\<not> has_ctl au" "parse_host au = Some hst"
    "split_host_port hst = (h, auth_port a)" "auth_host a = strip_brackets h"
    by (rule parsed_authority [OF a(1,2)])
  have blank: "list_all (\<lambda>c. c \<notin> set ''/?#@ '') au" using au(1,3) a(3) by (auto simp: list_all_iff)
  have "auth_port a = [] \<or>
     (\<exists>pre. au = pre @ CHR '':'' # auth_port a \<and> list_all is_digit (auth_port a) \<and>
        1 \<le> digits_val (auth_port a) \<and> digits_val (auth_port a) \<le> 65535)"
    using port parsed_port_written [OF au(5,6)] by (auto dest!: parse_port_value)
  with a(1,4) au blank show ?thesis by blast
qed

theorem validate_host_sound_witness:
  "validate_host ''localhost:5000'' = None \<and>
   (\<exists>a. parse_registry_authority ''localhost:5000'' = Inr a \<and> auth_host a \<noteq> [])"
proof -
  have h: "validate_host ''localhost:5000'' = None" by code_simp
  show ?thesis using h validate_host_sound [OF h] by blast
qed

section \<open>Default ports\<close>

lemma nat_digits_inject: "nat_digits a = nat_digits b \<longleftrightarrow> a = b"
  by (metis digits_val_nat_digits of_nat_eq_iff)

lemma default_ports: "nat_digits 443 = ''443''" "nat_digits 80 = ''80''"
  by (simp_all add: nat_digits.simps [of 443] nat_digits.simps [of 44] nat_digits.simps [of 4]
      nat_digits.simps [of 80] nat_digits.simps [of 8] digit_char_def char_of_eq_iff)

lemma parse_port_digits:
  "list_all is_digit p \<Longrightarrow> p \<noteq> [] \<Longrightarrow> 1 \<le> digits_val p \<Longrightarrow> digits_val p \<le> 65535 \<Longrightarrow>
   parse_port p = Inr (digits_val p)"
  by (simp add: parse_port_def parse_uint_def)

text \<open>
  C21. Registries are compared up to the default port of the scheme, and only up to that: for a
  host name of letters, digits, dots and dashes and any decimal spelling of a port from 1 to
  65535, leading zeros included, the host with that port is the registry of the bare host exactly
  if the port is 443 and the scheme https, or the port is 80 and the scheme http.
\<close>

theorem canonical_default_port:
  assumes h: "plain_host h" and p: "list_all is_digit p" "1 \<le> digits_val p" "digits_val p \<le> 65535"
  shows "canonical_registry_authority (h @ CHR '':'' # p) scheme = canonical_registry_authority h scheme \<longleftrightarrow>
    (scheme = ''https'' \<and> digits_val p = 443) \<or> (scheme = ''http'' \<and> digits_val p = 80)"
proof -
  have ne: "p \<noteq> []" using p(2) by auto
  have "drop_default_port scheme (nat_digits (nat (digits_val p))) = [] \<longleftrightarrow>
      (scheme = ''https'' \<and> digits_val p = 443) \<or> (scheme = ''http'' \<and> digits_val p = 80)"
    using p(2) unfolding drop_default_port_def registry_scheme_https_def registry_scheme_http_def
      default_ports [symmetric] nat_digits_inject by auto
  then show ?thesis
    using parse_plain_host [OF h] parse_plain_host_port [OF h p(1) ne] parse_port_digits [OF p(1) ne p(2,3)] ne
    by (simp add: canonical_registry_authority_def Let_def)
qed

theorem canonical_default_port_witness:
  "canonical_registry_authority ''reg.io:080'' ''http'' = canonical_registry_authority ''reg.io'' ''http'' \<and>
   canonical_registry_authority ''reg.io:080'' ''https'' \<noteq> canonical_registry_authority ''reg.io'' ''https''"
proof -
  have h: "plain_host ''reg.io''"
    by (simp add: plain_host_def host_char_def is_alnum_def is_lower_def)
  have p: "list_all is_digit ''080''" "digits_val ''080'' = 80"
    by (simp_all add: is_digit_def digits_val_def digit_val_def)
  show ?thesis
    using canonical_default_port [OF h p(1), of "''http''"] canonical_default_port [OF h p(1), of "''https''"] p(2)
    by simp
qed

text \<open>
  The comment of \<open>validateHost\<close> promises that a host cannot smuggle URL parts beyond
  host and port. An empty query (a trailing question mark) gets past it: \<open>url.Parse\<close> reports
  it as \<open>ForceQuery\<close>, which the check does not read. Every plain host name with a trailing
  question mark is accepted, as the same registry as the name without it.
\<close>

theorem validate_host_accepts_empty_query:
  assumes h: "plain_host h"
  shows "validate_host (h @ ''?'') = None \<and>
         parse_registry_authority (h @ ''?'') = parse_registry_authority h"
proof -
  have "last (h @ ''?'') \<noteq> CHR '':''" by simp
  then have "\<not> has_suffix (h @ ''?'') '':''" by (intro last_not_colon) simp_all
  then have q: "parse_registry_authority (h @ ''?'') = Inr \<lparr>auth_host = h, auth_port = []\<rparr>"
    using url_parse_plain(2) [OF plain_host_authority [OF h] parse_host_plain(1) [OF h]] h
      split_plain(1) [OF h] strip_plain [OF h]
    by (simp add: parse_registry_authority_def hostname_def port_def plain_host_def)
  have no: "CHR ''/'' \<notin> set (h @ ''?'')" "CHR '' '' \<notin> set (h @ ''?'')"
    using plain_authority_not [OF plain_host_authority [OF h]] by auto
  have "\<not> host_char (char_of (9::nat))" using host_char_code [of "char_of (9::nat)"] by auto
  then have "char_of (9::nat) \<notin> set (h @ ''?'')"
    using h by (auto simp: plain_host_def list_all_iff char_of_eq_iff)
  with no have "\<not> contains_any (h @ ''?'') [CHR '' '', char_of (9::nat)]"
    unfolding contains_any_def list_ex_iff by force
  moreover have "\<not> str_contains (h @ ''?'') ''/''" using no(1) by (simp only: str_contains_char not_False_eq_True)
  moreover have "\<not> str_contains (h @ ''?'') ''://''"
    using no(1) contains_slash by blast
  ultimately show ?thesis using q parse_plain_host [OF h] by (simp add: validate_host_def)
qed

theorem validate_host_accepts_empty_query_witness:
  "validate_host ''reg.io?'' = None"
proof -
  have h: "plain_host ''reg.io''"
    by (simp add: plain_host_def host_char_def is_alnum_def is_lower_def)
  show ?thesis using validate_host_accepts_empty_query [OF h] by simp
qed

end
