(* ===== verification/World.thy ===== *)
theory World
  imports GoUrl Errors
begin

text \<open>
  The messages the client exchanges with net/http and the environment it runs in. Everything
  outside the package (registry, storage, caller's context, clock, jitter, response bodies)
  is an \<open>env\<close>: a record of functions of the history, the list of effects performed so far
  with the latest first. An environment may therefore answer every call as it likes,
  depending on all that happened before; a theorem over all environments is a theorem over
  all runs. Each effect appends an event, so a property of a run is a property of its history.
\<close>

section \<open>Messages\<close>

text \<open>The context value under \<open>registryOriginKey\<close> (transport.go).\<close>

record registry_origin =
  or_scheme :: string
  or_host :: string
  or_port :: string

type_synonym header = "(string \<times> string) list"

definition header_get :: "header \<Rightarrow> string \<Rightarrow> string" where
  "header_get hdr k = (case map_of hdr k of Some v \<Rightarrow> v | None \<Rightarrow> [])"

definition header_del :: "string \<Rightarrow> header \<Rightarrow> header" where
  "header_del k hdr = filter (\<lambda>(k', _). k' \<noteq> k) hdr"

definition header_set :: "string \<Rightarrow> string \<Rightarrow> header \<Rightarrow> header" where
  "header_set k v hdr = (k, v) # header_del k hdr"

lemma header_get_set [simp]: "header_get (header_set k v hdr) k = v"
  by (simp add: header_get_def header_set_def)

lemma header_del_absent: "k \<notin> fst ` set (header_del k hdr)"
  by (auto simp: header_del_def)

record request =
  rq_method :: string
  rq_url :: url
  rq_header :: header
  rq_origin :: "registry_origin option"
  rq_length :: int

text \<open>
  A response: its body is named by the position in the history at which it was received, and
  its request is the last one of the redirect chain (None for a response without metadata).
\<close>

record response =
  rs_status :: int
  rs_header :: header
  rs_length :: int
  rs_body :: nat
  rs_request :: "request option"

datatype round_trip = Reply int header int | Fail goerr

section \<open>Events and environments\<close>

datatype side = ToRegistry | ToStorage

datatype event =
    EvSend side request
  | EvRead nat nat
  | EvSkip nat int
  | EvClose nat
  | EvDrain nat
  | EvCtx
  | EvSleep int
  | EvNow
  | EvRand int
  | EvProgress int int
  | EvWire int
  | EvSourceRead nat
  | EvSourceSeek int
  | EvSourceTell
  | EvCancel
  | EvInterrupt

type_synonym history = "event list"

record env =
  en_trip :: "side \<Rightarrow> history \<Rightarrow> request \<Rightarrow> round_trip"
  en_read :: "history \<Rightarrow> nat \<Rightarrow> nat \<Rightarrow> byte list \<times> goerr option"
  en_ctx :: "history \<Rightarrow> goerr option"
  en_now :: "history \<Rightarrow> int"
  en_rand :: "history \<Rightarrow> nat"
  en_parse_time :: "string \<Rightarrow> int option"
  en_skip :: "history \<Rightarrow> nat \<Rightarrow> int \<Rightarrow> goerr option"
  en_interrupt :: "history \<Rightarrow> bool"

text \<open>
  An environment to start examples from: every request is answered by an empty 200, every
  body is at its end, the context never ends and nobody interferes.
\<close>

definition quiet_env :: env where
  "quiet_env =
     \<lparr>en_trip = (\<lambda>side h req. Reply 200 [] 0), en_read = (\<lambda>h b n. ([], Some (Internal IoEOF))),
      en_ctx = (\<lambda>h. None), en_now = (\<lambda>h. 0), en_rand = (\<lambda>h. 0), en_parse_time = (\<lambda>s. None),
      en_skip = (\<lambda>h b n. None), en_interrupt = (\<lambda>h. False)\<rparr>"

section \<open>Effects\<close>

text \<open>\<open>RoundTripper.RoundTrip\<close>.\<close>

definition round_trip :: "env \<Rightarrow> side \<Rightarrow> request \<Rightarrow> history \<Rightarrow> (goerr + response) \<times> history" where
  "round_trip E side req h =
     (case en_trip E side h req of
        Fail e \<Rightarrow> (Inl e, EvSend side req # h)
      | Reply status hdr len \<Rightarrow>
          (Inr \<lparr>rs_status = status, rs_header = hdr, rs_length = len, rs_body = length h,
                rs_request = Some req\<rparr>, EvSend side req # h))"

text \<open>
  \<open>Read\<close> of a response body into a buffer of \<open>n\<close> bytes: by the contract of \<open>io.Reader\<close> it
  yields at most \<open>n\<close> bytes.
\<close>

definition body_read :: "env \<Rightarrow> nat \<Rightarrow> nat \<Rightarrow> history \<Rightarrow> (byte list \<times> goerr option) \<times> history" where
  "body_read E b n h =
     (case en_read E h b n of (data, err) \<Rightarrow> ((take n data, err), EvRead b n # h))"

definition body_close :: "nat \<Rightarrow> history \<Rightarrow> history" where
  "body_close b h = EvClose b # h"

text \<open>\<open>io.Copy (io.Discard, io.LimitReader (body, maxErrorBodySize))\<close>: the bytes are dropped.\<close>

definition body_drain :: "nat \<Rightarrow> history \<Rightarrow> history" where
  "body_drain b h = EvDrain b # h"

text \<open>
  \<open>io.CopyN (io.Discard, body, n)\<close>: either exactly \<open>n\<close> bytes were read and dropped, or an
  error says that there were fewer.
\<close>

definition body_skip :: "env \<Rightarrow> nat \<Rightarrow> int \<Rightarrow> history \<Rightarrow> goerr option \<times> history" where
  "body_skip E b n h = (if n \<le> 0 then (None, h) else (en_skip E h b n, EvSkip b n # h))"

text \<open>\<open>drainAndClose\<close> of retry.go.\<close>

definition drain_and_close :: "nat \<Rightarrow> history \<Rightarrow> history" where
  "drain_and_close b h = body_close b (body_drain b h)"

definition ctx_err :: "env \<Rightarrow> history \<Rightarrow> goerr option \<times> history" where
  "ctx_err E h = (en_ctx E h, EvCtx # h)"

definition now :: "env \<Rightarrow> history \<Rightarrow> int \<times> history" where
  "now E h = (en_now E h, EvNow # h)"

text \<open>\<open>rand.N (n)\<close>: some number in the half-open interval from 0 to n.\<close>

definition rand_n :: "env \<Rightarrow> int \<Rightarrow> history \<Rightarrow> int \<times> history" where
  "rand_n E n h = (int (en_rand E h) mod n, EvRand n # h)"

text \<open>
  \<open>sleepContext\<close> of retry.go. The timer and the context race: the environment decides, by
  its context after the wait, which of the two fired.
\<close>

definition sleep_context :: "env \<Rightarrow> int \<Rightarrow> history \<Rightarrow> goerr option \<times> history" where
  "sleep_context E d h =
     (if d \<le> 0 then ctx_err E h else (en_ctx E (EvSleep d # h), EvSleep d # h))"

lemma rand_n_bounds: "0 < n \<Longrightarrow> rand_n E n h = (r, h') \<Longrightarrow> 0 \<le> r \<and> r < n"
  by (auto simp: rand_n_def)

section \<open>Reading a history\<close>

text \<open>The requests sent in a history, latest first, and the events that extended one.\<close>

fun sent :: "history \<Rightarrow> (side \<times> request) list" where
  "sent [] = []"
| "sent (e # h) = (case e of EvSend s r \<Rightarrow> (s, r) # sent h | _ \<Rightarrow> sent h)"

definition since :: "history \<Rightarrow> history \<Rightarrow> event list" where
  "since h h' = take (length h' - length h) h'"

definition extends :: "history \<Rightarrow> history \<Rightarrow> bool" where
  "extends h h' \<longleftrightarrow> (\<exists>es. h' = es @ h)"

lemma extends_refl [simp, intro]: "extends h h"
  by (simp add: extends_def)

lemma extends_Cons [simp, intro]: "extends h h' \<Longrightarrow> extends h (e # h')"
  by (auto simp: extends_def)

lemma extends_strict: "extends h0 (e # h) \<Longrightarrow> h0 \<noteq> e # h \<Longrightarrow> extends h0 h"
  by (auto simp: extends_def Cons_eq_append_conv)

lemma extends_trans [trans]: "extends h h' \<Longrightarrow> extends h' h'' \<Longrightarrow> extends h h''"
  by (auto simp: extends_def)

lemma since_append [simp]: "since h (es @ h) = es"
  by (simp add: since_def)

lemma extends_since: "extends h h' \<Longrightarrow> h' = since h h' @ h"
  by (auto simp: extends_def)

lemma sent_append [simp]: "sent (es @ h) = sent es @ sent h"
  by (induction es) (auto split: event.split)

lemmas effect_defs [env_simps] =
  round_trip_def body_read_def body_close_def body_drain_def body_skip_def drain_and_close_def ctx_err_def
  now_def rand_n_def sleep_context_def

lemma round_trip_sent: "round_trip E s req h = (out, h') \<Longrightarrow> h' = EvSend s req # h"
  by (auto simp: round_trip_def split: round_trip.splits)

lemma round_trip_reply:
  "round_trip E s req h = (Inr resp, h') \<Longrightarrow> rs_request resp = Some req \<and> rs_body resp = length h"
  by (auto simp: round_trip_def split: round_trip.splits)

lemma ctx_err_sent [simp]: "sent (snd (ctx_err E h)) = sent h"
  by (simp add: env_simps)

lemma sleep_context_sent: "sleep_context E d h = (r, h') \<Longrightarrow> sent h' = sent h"
  by (auto simp: env_simps split: if_splits)

section \<open>Response bodies\<close>

text \<open>The bodies received in a history, latest first.\<close>

fun opened :: "env \<Rightarrow> history \<Rightarrow> nat list" where
  "opened E [] = []"
| "opened E (e # h) =
     (case e of
        EvSend s r \<Rightarrow> (case en_trip E s h r of Reply _ _ _ \<Rightarrow> length h # opened E h | Fail _ \<Rightarrow> opened E h)
      | _ \<Rightarrow> opened E h)"

section \<open>The caller's context\<close>

text \<open>
  The contract of \<open>context.Context\<close>: \<open>Err\<close> is nil, \<open>Canceled\<close> or \<open>DeadlineExceeded\<close>, and once
  it is not nil it stays as it is.
\<close>

definition ctx_contract :: "env \<Rightarrow> bool" where
  "ctx_contract E \<longleftrightarrow>
     (\<forall>h e. en_ctx E h = Some e \<longrightarrow>
        (e = Internal CtxCanceled \<or> e = Internal CtxDeadlineExceeded) \<and>
        (\<forall>h'. extends h h' \<longrightarrow> en_ctx E h' = Some e))"

lemma ctx_contract_stays: "ctx_contract E \<Longrightarrow> en_ctx E h = Some e \<Longrightarrow> extends h h' \<Longrightarrow> en_ctx E h' = Some e"
  unfolding ctx_contract_def by blast

lemma ctx_contract_kind:
  "ctx_contract E \<Longrightarrow> en_ctx E h = Some e \<Longrightarrow> e = Internal CtxCanceled \<or> e = Internal CtxDeadlineExceeded"
  unfolding ctx_contract_def by blast

lemma ctx_not_retryable: "ctx_contract E \<Longrightarrow> en_ctx E h = Some e \<Longrightarrow> retryable (Some e) = (0, False)"
  using ctx_contract_kind [of E h e]
  by (auto simp: retryable_def errors_as_def err_kinds)

lemma extends_events: "extends h h' \<Longrightarrow> set h \<subseteq> set h'"
  by (auto simp: extends_def)

end
