(* ===== verification/Transport.thy ===== *)
theory Transport
  imports Repo World
begin

text \<open>
  transport.go: which of the two transports may carry a request, which redirects are
  followed, and how a response is attributed to an origin; with the redirect loop of
  \<open>http.Client.Do\<close> that drives them.
\<close>

section \<open>Origins\<close>

definition normalize_origin :: "url option \<Rightarrow> registry_origin option" where
  "normalize_origin u =
     (case u of
        None \<Rightarrow> None
      | Some v \<Rightarrow>
          let scheme = to_lower (u_scheme v); host = to_lower (hostname v) in
          if host = [] \<or> (scheme \<noteq> registry_scheme_http \<and> scheme \<noteq> registry_scheme_https) then None
          else
            let p = (if port v = [] then
                       (if scheme = registry_scheme_http then ''80'' else ''443'')
                     else port v)
            in Some \<lparr>or_scheme = scheme, or_host = host, or_port = p\<rparr>)"

definition with_registry_origin :: "request \<Rightarrow> url option \<Rightarrow> request" where
  "with_registry_origin req u =
     (case normalize_origin u of None \<Rightarrow> req | Some o' \<Rightarrow> req\<lparr>rq_origin := Some o'\<rparr>)"

text \<open>\<open>originOfResponse\<close>: a response without request metadata counts as the registry's.\<close>

definition origin_of_response :: "response \<Rightarrow> response_origin" where
  "origin_of_response resp =
     (case rs_request resp of
        None \<Rightarrow> OriginRegistry
      | Some req \<Rightarrow>
          (case (rq_origin req, normalize_origin (Some (rq_url req))) of
             (Some origin, Some target) \<Rightarrow>
               if target \<noteq> origin then OriginStorage else OriginRegistry
           | _ \<Rightarrow> OriginRegistry))"

section \<open>The scoped transport\<close>

definition to_registry :: "request \<Rightarrow> bool" where
  "to_registry req \<longleftrightarrow>
     (case (rq_origin req, normalize_origin (Some (rq_url req))) of
        (Some origin, Some target) \<Rightarrow> target = origin
      | _ \<Rightarrow> False)"

definition credential_headers :: "string list" where
  "credential_headers =
     [''Authorization'', ''Proxy-Authorization'', ''Cookie'', ''Cookie2'', ''Referer'']"

definition storage_request :: "request \<Rightarrow> request" where
  "storage_request req = req\<lparr>rq_header := fold header_del credential_headers (rq_header req)\<rparr>"

definition scoped_round_trip ::
    "env \<Rightarrow> request \<Rightarrow> history \<Rightarrow> (goerr + response) \<times> history" where
  "scoped_round_trip E req h =
     (if to_registry req then round_trip E ToRegistry req h
      else round_trip E ToStorage (storage_request req) h)"

section \<open>Redirect policy\<close>

definition max_redirects :: nat where
  "max_redirects = 10"

definition is_write_method :: "string \<Rightarrow> bool" where
  "is_write_method m \<longleftrightarrow> m \<in> {''POST'', ''PUT'', ''PATCH'', ''DELETE''}"

text \<open>\<open>checkRedirect\<close>; \<open>via\<close> are the requests already sent, oldest first.\<close>

definition check_redirect :: "bool \<Rightarrow> request \<Rightarrow> request list \<Rightarrow> goerr option" where
  "check_redirect allow_write req via =
     (if length via \<ge> max_redirects then
        Some (Wrapf (internal_text ErrTooManyRedirects @ '': stopped after 10 redirects'')
                [Internal ErrTooManyRedirects])
      else if via = [] then None
      else if normalize_origin (Some (rq_url req)) = None then Some (Internal ErrInvalidRedirectTarget)
      else
        let previous = last via in
        if is_write_method (rq_method previous) \<and> \<not> allow_write then
          Some (Internal ErrWriteRedirectRejected)
        else if rq_method previous \<noteq> ''GET'' \<and> rq_method previous \<noteq> ''HEAD'' \<and>
                rq_method req \<noteq> rq_method previous then
          Some (Wrapf (internal_text ErrMethodChangingRedirect @ '': '' @ rq_method previous
                       @ '' became '' @ rq_method req) [Internal ErrMethodChangingRedirect])
        else None)"

section \<open>net/http: following redirects\<close>

text \<open>
  How a request body takes part: \<open>hk_send\<close> is the transport's consumption of the body during
  one round trip, \<open>hk_get\<close> the \<open>GetBody\<close> hook (None when the request has none),
  \<open>hk_close\<close> the close of a body that will not be sent and \<open>hk_length\<close> whether a body is
  going out at all.
\<close>

record 'b body_hooks =
  hk_length :: bool
  hk_send :: "request \<Rightarrow> 'b \<Rightarrow> history \<Rightarrow> 'b \<times> history"
  hk_get :: "('b \<Rightarrow> history \<Rightarrow> (goerr option \<times> 'b) \<times> history) option"
  hk_close :: "'b \<Rightarrow> history \<Rightarrow> 'b \<times> history"

text \<open>\<open>redirectBehavior\<close>: the next method and whether the body goes along.\<close>

definition redirect_behavior :: "'b body_hooks \<Rightarrow> string \<Rightarrow> int \<Rightarrow> (string \<times> bool) option" where
  "redirect_behavior hooks m status =
     (if status \<in> {301, 302, 303} then
        Some (if m \<noteq> ''GET'' \<and> m \<noteq> ''HEAD'' then ''GET'' else m, False)
      else if status \<in> {307, 308} then
        (if hk_get hooks = None \<and> hk_length hooks then None else Some (m, True))
      else None)"

text \<open>The headers copied onto the next request, and its \<open>Referer\<close>.\<close>

definition same_or_subdomain :: "string \<Rightarrow> string \<Rightarrow> bool" where
  "same_or_subdomain sub parent \<longleftrightarrow>
     sub = parent \<or> (\<not> list_ex (\<lambda>c. c = CHR '':'' \<or> c = CHR ''%'') sub \<and> has_suffix sub (CHR ''.'' # parent))"

definition strip_sensitive :: "url \<Rightarrow> url \<Rightarrow> bool" where
  "strip_sensitive initial dest \<longleftrightarrow>
     u_host initial \<noteq> u_host dest \<and>
     \<not> same_or_subdomain (to_lower (hostname dest)) (to_lower (hostname initial))"

definition sensitive_headers :: "string list" where
  "sensitive_headers = [''Authorization'', ''Www-Authenticate'', ''Cookie'', ''Cookie2'',
     ''Proxy-Authorization'', ''Proxy-Authenticate'']"

definition body_headers :: "string list" where
  "body_headers = [''Content-Encoding'', ''Content-Language'', ''Content-Location'', ''Content-Type'']"

definition copied_headers :: "bool \<Rightarrow> bool \<Rightarrow> header \<Rightarrow> header" where
  "copied_headers strip include_body hdr =
     filter (\<lambda>(k, _). \<not> (strip \<and> k \<in> set sensitive_headers) \<and>
                      \<not> (\<not> include_body \<and> k \<in> set body_headers)) hdr"

definition referer :: "url \<Rightarrow> url \<Rightarrow> header \<Rightarrow> string" where
  "referer last_url new_url hdr =
     (if u_scheme last_url = ''https'' \<and> u_scheme new_url = ''http'' then []
      else if header_get hdr ''Referer'' \<noteq> [] then header_get hdr ''Referer''
      else url_string (last_url\<lparr>u_user := None\<rparr>))"

definition next_request :: "request \<Rightarrow> request list \<Rightarrow> url \<Rightarrow> string \<Rightarrow> bool \<Rightarrow> request" where
  "next_request first via u m include_body =
     (let prev = last via;
          strip = list_ex (\<lambda>r. strip_sensitive (rq_url first) (rq_url r)) via
                    \<or> strip_sensitive (rq_url first) u;
          hdr = copied_headers strip include_body (rq_header first);
          ref = referer (rq_url prev) u hdr
      in \<lparr>rq_method = m, rq_url = u,
          rq_header = (if ref = [] then hdr else header_set ''Referer'' ref hdr),
          rq_origin = rq_origin first,
          rq_length = (if include_body then rq_length first else 0)\<rparr>)"

definition url_error_op :: "string \<Rightarrow> string" where
  "url_error_op m = (case m of [] \<Rightarrow> ''Get'' | c # cs \<Rightarrow> c # to_lower cs)"

definition url_error :: "request \<Rightarrow> goerr \<Rightarrow> goerr" where
  "url_error req e = UrlErr (url_error_op (rq_method req)) (url_string (rq_url req)) e"

definition bad_location :: "string \<Rightarrow> goerr" where
  "bad_location loc = Text (''failed to parse Location header '' @ loc)"

text \<open>\<open>GetBody\<close> for the next request, where a body goes along and the hook exists.\<close>

definition replay_body :: "'b body_hooks \<Rightarrow> bool \<Rightarrow> 'b \<Rightarrow> history \<Rightarrow> (goerr option \<times> 'b) \<times> history" where
  "replay_body hooks include_body b h =
     (case hk_get hooks of
        Some g \<Rightarrow> if include_body then g b h else ((None, b), h)
      | None \<Rightarrow> ((None, b), h))"

text \<open>
  One turn of \<open>Client.do\<close>: the request \<open>req\<close> is sent after the requests \<open>via\<close>. The turn ends
  the call (\<open>Inl\<close>) or yields the next request (\<open>Inr\<close>). An error of the redirect policy comes
  with the previous response, whose body net/http has closed.
\<close>

definition client_hop ::
    "env \<Rightarrow> bool \<Rightarrow> 'b body_hooks \<Rightarrow> request \<Rightarrow> request list \<Rightarrow> request \<Rightarrow> 'b \<Rightarrow> history
      \<Rightarrow> ((goerr + response) \<times> 'b \<times> history) + (request \<times> 'b \<times> history)" where
  "client_hop E allow hooks first via req b h =
     (case hk_send hooks req b h of (b1, h1) \<Rightarrow>
     (case scoped_round_trip E req h1 of
        (Inl e, h2) \<Rightarrow> Inl (Inl (url_error req e), b1, h2)
      | (Inr resp, h2) \<Rightarrow>
        (case redirect_behavior hooks (rq_method req) (rs_status resp) of
           None \<Rightarrow> Inl (Inr resp, b1, h2)
         | Some (m, include_body) \<Rightarrow>
           let loc = header_get (rs_header resp) ''Location'' in
           if loc = [] then Inl (Inr resp, b1, h2)
           else
             (case url_parse_ref (rq_url req) loc of
                None \<Rightarrow> Inl (Inl (url_error req (bad_location loc)),
                            hk_close hooks b1 (body_close (rs_body resp) h2))
              | Some u \<Rightarrow>
                (case replay_body hooks include_body b1 h2 of
                   ((Some e, b2), h3) \<Rightarrow>
                     Inl (Inl (url_error req e), b2, body_close (rs_body resp) h3)
                 | ((None, b2), h3) \<Rightarrow>
                   let req' = next_request first (via @ [req]) u m include_body;
                       h4 = body_close (rs_body resp) h3
                   in (case check_redirect allow req' (via @ [req]) of
                         Some e \<Rightarrow> Inl (Inl (url_error req' e), hk_close hooks b2 h4)
                       | None \<Rightarrow> Inr (req', b2, h4)))))))"

lemma check_redirect_hops: "check_redirect allow req via = None \<Longrightarrow> length via < max_redirects"
  by (auto simp: check_redirect_def split: if_splits)

lemma client_hop_next:
  assumes "client_hop E allow hooks first via req b h = Inr (req', b', h')"
  shows "\<exists>u m ib status. req' = next_request first (via @ [req]) u m ib \<and>
           redirect_behavior hooks (rq_method req) status = Some (m, ib) \<and>
           check_redirect allow req' (via @ [req]) = None"
  using assms
  by (auto simp: client_hop_def Let_def split: prod.splits sum.splits option.splits if_splits)

function client_loop ::
    "env \<Rightarrow> bool \<Rightarrow> 'b body_hooks \<Rightarrow> request \<Rightarrow> request list \<Rightarrow> request \<Rightarrow> 'b \<Rightarrow> history
      \<Rightarrow> (goerr + response) \<times> 'b \<times> history" where
  "client_loop E allow hooks first via req b h =
     (case client_hop E allow hooks first via req b h of
        Inl result \<Rightarrow> result
      | Inr (req', b', h') \<Rightarrow> client_loop E allow hooks first (via @ [req]) req' b' h')"
  by pat_completeness auto

termination
  by (relation "measure (\<lambda>(E, allow, hooks, first, via, req, b, h). max_redirects - length via)")
    (auto dest!: client_hop_next check_redirect_hops [of _ _ "_ @ _"])

declare client_loop.simps [simp del]

text \<open>
  \<open>doRegistryRequest\<close> and \<open>doLocationRequest\<close>: the request is marked with the origin of its
  own URL, or with that of the registry endpoint it belongs to.
\<close>

definition client_do ::
    "env \<Rightarrow> bool \<Rightarrow> 'b body_hooks \<Rightarrow> request \<Rightarrow> 'b \<Rightarrow> history
      \<Rightarrow> (goerr + response) \<times> 'b \<times> history" where
  "client_do E allow hooks req b h = client_loop E allow hooks req [] req b h"

definition do_registry_request ::
    "env \<Rightarrow> bool \<Rightarrow> 'b body_hooks \<Rightarrow> request \<Rightarrow> 'b \<Rightarrow> history
      \<Rightarrow> (goerr + response) \<times> 'b \<times> history" where
  "do_registry_request E allow hooks req b h =
     (case client_do E allow hooks (with_registry_origin req (Some (rq_url req))) b h of
        (Inl e, r) \<Rightarrow> (Inl (RequestErr ''registry request'' e), r)
      | (Inr resp, r) \<Rightarrow> (Inr resp, r))"

definition do_location_request ::
    "env \<Rightarrow> bool \<Rightarrow> 'b body_hooks \<Rightarrow> request \<Rightarrow> url option \<Rightarrow> 'b \<Rightarrow> history
      \<Rightarrow> (goerr + response) \<times> 'b \<times> history" where
  "do_location_request E allow hooks req origin_url b h =
     (case client_do E allow hooks (with_registry_origin req origin_url) b h of
        (Inl e, r) \<Rightarrow> (Inl (RequestErr ''upload or storage request'' e), r)
      | (Inr resp, r) \<Rightarrow> (Inr resp, r))"

text \<open>A request without a body, and \<open>http.NewRequestWithContext\<close> for it.\<close>

definition no_body :: "unit body_hooks" where
  "no_body = \<lparr>hk_length = False, hk_send = (\<lambda>req b h. (b, h)), hk_get = None,
     hk_close = (\<lambda>b h. (b, h))\<rparr>"

definition new_request :: "string \<Rightarrow> url \<Rightarrow> goerr + request" where
  "new_request m u =
     (case url_parse (url_string u) of
        None \<Rightarrow> Inl (UrlErr ''parse'' (url_string u) (Text []))
      | Some v \<Rightarrow> Inr \<lparr>rq_method = m, rq_url = v, rq_header = [], rq_origin = None, rq_length = 0\<rparr>)"

section \<open>What one call of Do sends\<close>

text \<open>A send that respects the split of the two transports.\<close>

definition scoped_send :: "side \<times> request \<Rightarrow> bool" where
  "scoped_send sr \<longleftrightarrow>
     (case sr of
        (ToRegistry, r) \<Rightarrow> to_registry r
      | (ToStorage, r) \<Rightarrow>
          \<not> to_registry r \<and> fst ` set (rq_header r) \<inter> set credential_headers = {})"

definition quiet_hooks :: "'b body_hooks \<Rightarrow> bool" where
  "quiet_hooks hooks \<longleftrightarrow>
     (\<forall>req b h. sent (snd (hk_send hooks req b h)) = sent h) \<and>
     (\<forall>g b h. hk_get hooks = Some g \<longrightarrow> sent (snd (g b h)) = sent h) \<and>
     (\<forall>b h. sent (snd (hk_close hooks b h)) = sent h)"

lemma quiet_no_body [simp]: "quiet_hooks no_body"
  by (simp add: quiet_hooks_def no_body_def)

lemma storage_request_clean:
  "fst ` set (rq_header (storage_request req)) \<inter> set credential_headers = {}"
  by (auto simp: storage_request_def credential_headers_def header_del_def)

lemma storage_request_keeps [simp]:
  "rq_method (storage_request req) = rq_method req" "rq_url (storage_request req) = rq_url req"
  "rq_origin (storage_request req) = rq_origin req"
  by (simp_all add: storage_request_def)

lemma scoped_round_trip_sent:
  assumes "scoped_round_trip E req h = (out, h')"
  shows "\<exists>s r. sent h' = (s, r) # sent h \<and> scoped_send (s, r) \<and> rq_method r = rq_method req
           \<and> rq_origin r = rq_origin req \<and> rq_url r = rq_url req"
  using assms storage_request_clean [of req]
  by (auto simp: scoped_round_trip_def scoped_send_def to_registry_def dest!: round_trip_sent
      split: if_splits)

lemma next_request_fields [simp]:
  "rq_method (next_request first via u m ib) = m"
  "rq_origin (next_request first via u m ib) = rq_origin first"
  "rq_url (next_request first via u m ib) = u"
  by (simp_all add: next_request_def Let_def)

text \<open>A redirect that the policy lets through keeps the method and leaves hops.\<close>

lemma followed_redirect:
  assumes "redirect_behavior hooks (rq_method req) status = Some (m, ib)"
    and "check_redirect allow (next_request first (via @ [req]) u m ib) (via @ [req]) = None"
  shows "m = rq_method req" and "Suc (length via) < max_redirects"
    and "\<not> (is_write_method (rq_method req) \<and> \<not> allow)"
  using assms
  by (auto simp: redirect_behavior_def check_redirect_def Let_def split: if_splits)

text \<open>
  The requests of one call, latest first: the oldest goes to the URL of the call; each respects
  the split of the transports, has the method of the first and carries its origin; there are at
  most ten, and only one when a write may not be redirected.
\<close>

definition chain_ok :: "bool \<Rightarrow> request \<Rightarrow> nat \<Rightarrow> (side \<times> request) list \<Rightarrow> bool" where
  "chain_ok allow req hops rs \<longleftrightarrow>
     rs \<noteq> [] \<and> rq_url (snd (last rs)) = rq_url req \<and> length rs \<le> max 1 (max_redirects - hops) \<and>
     (\<forall>sr \<in> set rs. scoped_send sr \<and> rq_method (snd sr) = rq_method req
        \<and> rq_origin (snd sr) = rq_origin req) \<and>
     (is_write_method (rq_method req) \<and> \<not> allow \<longrightarrow> length rs = 1)"

lemma chain_ok_single:
  "scoped_send (s, r) \<Longrightarrow> rq_method r = rq_method req \<Longrightarrow> rq_origin r = rq_origin req \<Longrightarrow>
   rq_url r = rq_url req \<Longrightarrow> chain_ok allow req hops [(s, r)]"
  by (simp add: chain_ok_def)

lemma chain_ok_more:
  assumes "chain_ok allow req' (Suc hops) rs" and "scoped_send (s, r)"
    and "rq_method r = rq_method req" and "rq_origin r = rq_origin req" and "rq_url r = rq_url req"
    and "rq_method req' = rq_method req" and "rq_origin req' = rq_origin req"
    and "Suc hops < max_redirects" and "\<not> (is_write_method (rq_method req) \<and> \<not> allow)"
  shows "chain_ok allow req hops (rs @ [(s, r)])"
  using assms by (auto simp: chain_ok_def)

lemma body_close_sent [simp]: "sent (body_close b h) = sent h"
  by (simp add: body_close_def)

lemma replay_body_sent:
  "quiet_hooks hooks \<Longrightarrow> replay_body hooks ib b h = (r, h') \<Longrightarrow> sent h' = sent h"
  unfolding quiet_hooks_def replay_body_def
  by (auto split: option.splits if_splits) (metis snd_conv)

text \<open>Every turn sends exactly one request.\<close>

lemma client_hop_sent:
  assumes "quiet_hooks hooks"
    and "client_hop E allow hooks first via req b h = res"
  shows "\<exists>s r. sent (case res of Inl (_, _, h') \<Rightarrow> h' | Inr (_, _, h') \<Rightarrow> h') = (s, r) # sent h \<and>
           scoped_send (s, r) \<and> rq_method r = rq_method req \<and> rq_origin r = rq_origin req \<and>
           rq_url r = rq_url req"
proof -
  obtain b1 h1 where send: "hk_send hooks req b h = (b1, h1)" by (metis surj_pair)
  with assms(1) have q: "sent h1 = sent h" unfolding quiet_hooks_def by (metis snd_conv)
  obtain out h2 where trip: "scoped_round_trip E req h1 = (out, h2)" by (metis surj_pair)
  from scoped_round_trip_sent [OF trip] q obtain s r where
    r: "sent h2 = (s, r) # sent h" "scoped_send (s, r)" "rq_method r = rq_method req"
      "rq_origin r = rq_origin req" "rq_url r = rq_url req" by auto
  have close: "sent h4 = sent h3" if "hk_close hooks b2 h3 = (b3, h4)" for b2 b3 h3 h4
    using assms(1) that unfolding quiet_hooks_def by (metis snd_conv)
  have "sent (case res of Inl (_, _, h') \<Rightarrow> h' | Inr (_, _, h') \<Rightarrow> h') = sent h2"
    using assms(2) replay_body_sent [OF assms(1)] close
    by (auto simp: client_hop_def Let_def send trip split: sum.splits option.splits prod.splits if_splits)
  with r show ?thesis by metis
qed

lemma client_loop_sent:
  assumes "quiet_hooks hooks"
  shows "client_loop E allow hooks first via req b h = (out, b', h') \<Longrightarrow>
    rq_origin req = rq_origin first \<Longrightarrow>
    \<exists>rs. sent h' = rs @ sent h \<and> chain_ok allow req (length via) rs"
  using assms
proof (induction E allow hooks first via req b h arbitrary: out b' h' rule: client_loop.induct)
  case (1 E allow hooks first via req b h)
  from client_hop_sent [OF "1.prems"(3) refl, of E allow first via req b h] obtain s r where
    r: "sent (case client_hop E allow hooks first via req b h of
          Inl (_, _, h') \<Rightarrow> h' | Inr (_, _, h') \<Rightarrow> h') = (s, r) # sent h"
      "scoped_send (s, r)" "rq_method r = rq_method req" "rq_origin r = rq_origin req"
      "rq_url r = rq_url req" by metis
  show ?case
  proof (cases "client_hop E allow hooks first via req b h")
    case (Inl res)
    with "1.prems"(1) r(1) have "sent h' = [(s, r)] @ sent h"
      by (simp add: client_loop.simps [of E allow hooks first via req b h])
    with chain_ok_single [OF r(2-5)] show ?thesis by blast
  next
    case (Inr res)
    obtain req' b1 h1 where res: "res = (req', b1, h1)" by (metis prod_cases3)
    with Inr have hop: "client_hop E allow hooks first via req b h = Inr (req', b1, h1)" by simp
    from client_hop_next [OF hop] obtain u m ib st where
      n: "req' = next_request first (via @ [req]) u m ib"
        "redirect_behavior hooks (rq_method req) st = Some (m, ib)"
        "check_redirect allow req' (via @ [req]) = None" by metis
    from followed_redirect [OF n(2) n(3) [unfolded n(1)]] n(1) "1.prems"(2)
    have keep: "rq_method req' = rq_method req" "rq_origin req' = rq_origin req"
      "Suc (length via) < max_redirects" "\<not> (is_write_method (rq_method req) \<and> \<not> allow)"
      by auto
    from "1.prems"(1) hop have "client_loop E allow hooks first (via @ [req]) req' b1 h1 = (out, b', h')"
      by (simp add: client_loop.simps [of E allow hooks first via req b h])
    from "1.IH" [OF hop refl refl this] keep(2) "1.prems"(2,3)
    obtain rs where rs: "sent h' = rs @ sent h1" "chain_ok allow req' (Suc (length via)) rs"
      by auto
    from r(1) hop have "sent h1 = (s, r) # sent h" by simp
    with rs(1) have "sent h' = (rs @ [(s, r)]) @ sent h" by simp
    moreover have "chain_ok allow req (length via) (rs @ [(s, r)])"
      by (rule chain_ok_more [OF rs(2) r(2-5) keep])
    ultimately show ?thesis by blast
  qed
qed

lemma client_do_sent:
  assumes "quiet_hooks hooks" and "client_do E allow hooks req b h = (out, b', h')"
  shows "\<exists>rs. sent h' = rs @ sent h \<and> chain_ok allow req 0 rs"
  using client_loop_sent [OF assms(1), of E allow req "[]" req b h out b' h'] assms(2)
  by (simp add: client_do_def)

lemma do_location_request_do:
  "do_location_request E allow hooks req u b h = (out, b', h') \<Longrightarrow>
   \<exists>out'. client_do E allow hooks (with_registry_origin req u) b h = (out', b', h')"
  by (auto simp: do_location_request_def split: prod.splits sum.splits)

lemma do_registry_request_do:
  "do_registry_request E allow hooks req b h = (out, b', h') \<Longrightarrow>
   \<exists>out'. client_do E allow hooks (with_registry_origin req (Some (rq_url req))) b h = (out', b', h')"
  by (auto simp: do_registry_request_def split: prod.splits sum.splits)

lemma with_registry_origin_fields [simp]:
  "rq_method (with_registry_origin req u) = rq_method req"
  "rq_url (with_registry_origin req u) = rq_url req"
  "normalize_origin u = Some o' \<Longrightarrow> rq_origin (with_registry_origin req u) = Some o'"
  by (simp_all add: with_registry_origin_def split: option.split)

section \<open>Runs that keep the house in order\<close>

text \<open>
  \<open>settled E keep h h'\<close> on the way from \<open>h\<close> to \<open>h'\<close>: every response body received has been
  closed, but for those in \<open>keep\<close>, and every request was sent through the transport that its
  URL and its origin mark call for (the storage transport without credential headers).
\<close>

definition settled :: "env \<Rightarrow> nat set \<Rightarrow> history \<Rightarrow> history \<Rightarrow> bool" where
  "settled E keep h h' \<longleftrightarrow>
     extends h h' \<and> (\<forall>b \<in> set (opened E h'). b \<in> set (opened E h) \<or> b \<in> keep \<or> EvClose b \<in> set h') \<and>
     (\<exists>rs. sent h' = rs @ sent h \<and> list_all scoped_send rs)"

lemma settled_refl [simp]: "settled E keep h h"
  by (simp add: settled_def)

lemma settled_extends: "settled E keep h h' \<Longrightarrow> extends h h'"
  by (simp add: settled_def)

text \<open>Runs compose; what the first kept is closed by the second or kept on.\<close>

lemma settled_trans:
  assumes "settled E k1 h h1" and "settled E k2 h1 h2"
    and "\<And>b. b \<in> k1 \<Longrightarrow> b \<in> k2 \<or> EvClose b \<in> set h2"
  shows "settled E k2 h h2"
proof -
  from assms(1,2) obtain rs1 rs2 where
    "sent h1 = rs1 @ sent h" "list_all scoped_send rs1" "sent h2 = rs2 @ sent h1" "list_all scoped_send rs2"
    unfolding settled_def by blast
  then have "sent h2 = (rs2 @ rs1) @ sent h \<and> list_all scoped_send (rs2 @ rs1)" by simp
  moreover have "extends h h2 \<and>
    (\<forall>b \<in> set (opened E h2). b \<in> set (opened E h) \<or> b \<in> k2 \<or> EvClose b \<in> set h2)"
    using assms extends_events [of h1 h2] unfolding settled_def by (blast intro: extends_trans)
  ultimately show ?thesis unfolding settled_def by blast
qed

lemma settled_mono: "settled E k h h' \<Longrightarrow> k \<subseteq> k' \<Longrightarrow> settled E k' h h'"
  by (auto simp: settled_def)

lemma settled_event:
  "\<forall>s r. e \<noteq> EvSend s r \<Longrightarrow> settled E k h h' \<Longrightarrow> settled E k h (e # h')"
  by (cases e) (auto simp: settled_def)

lemma settled_close:
  "settled E (insert b k) h h' \<Longrightarrow> settled E k h (EvClose b # h')"
  by (auto simp: settled_def)

text \<open>
  \<open>passes E K h K' h'\<close>: a run that starts with the bodies in \<open>K\<close> in its hands ends with those in
  \<open>K'\<close>; whatever it held or received besides has been closed.
\<close>

definition passes :: "env \<Rightarrow> nat set \<Rightarrow> history \<Rightarrow> nat set \<Rightarrow> history \<Rightarrow> bool" where
  "passes E K h K' h' \<longleftrightarrow> settled E K' h h' \<and> (\<forall>b \<in> K. b \<in> K' \<or> EvClose b \<in> set h')"

lemma passes_refl [simp]: "passes E K h K h"
  by (simp add: passes_def)

lemma passes_settled: "settled E k h h' \<Longrightarrow> passes E {} h k h'"
  by (simp add: passes_def)

lemma passes_settledD: "passes E K h K' h' \<Longrightarrow> settled E K' h h'"
  by (simp add: passes_def)

lemma passes_trans: "passes E K h K1 h1 \<Longrightarrow> passes E K1 h1 K2 h2 \<Longrightarrow> passes E K h K2 h2"
  unfolding passes_def
  using settled_trans [of E K1 h h1 K2 h2] extends_events [OF settled_extends, of E K2 h1 h2] by blast

lemma passes_mono: "passes E K h K' h' \<Longrightarrow> K' \<subseteq> K'' \<Longrightarrow> passes E K h K'' h'"
  unfolding passes_def using settled_mono by blast

lemma passes_weaken: "passes E K h K' h' \<Longrightarrow> L \<subseteq> K \<Longrightarrow> passes E L h K' h'"
  by (auto simp: passes_def)

lemma passes_event: "\<forall>s r. e \<noteq> EvSend s r \<Longrightarrow> passes E K h K' h' \<Longrightarrow> passes E K h K' (e # h')"
  using settled_event by (auto simp: passes_def)

text \<open>A run that touches none of the bodies in hand keeps them, and may add its own.\<close>

lemma passes_frame: "settled E k h h' \<Longrightarrow> passes E K h (K \<union> k) h'"
  using settled_mono [of E k h h' "K \<union> k"] by (auto simp: passes_def)

lemma settled_effects:
  "settled E k h h' \<Longrightarrow> settled E k h (snd (ctx_err E h'))"
  "settled E k h h' \<Longrightarrow> settled E k h (snd (now E h'))"
  "settled E k h h' \<Longrightarrow> settled E k h (snd (rand_n E m h'))"
  "settled E k h h' \<Longrightarrow> settled E k h (snd (sleep_context E d h'))"
  "settled E k h h' \<Longrightarrow> settled E k h (snd (body_read E b n h'))"
  "settled E k h h' \<Longrightarrow> settled E k h (snd (body_skip E b m h'))"
  "settled E k h h' \<Longrightarrow> settled E k h (body_drain b h')"
  "settled E (insert b k) h h' \<Longrightarrow> settled E k h (body_close b h')"
  "settled E (insert b k) h h' \<Longrightarrow> settled E k h (drain_and_close b h')"
  by (auto simp: env_simps split: prod.split intro: settled_event settled_close)

text \<open>Every response of the chain is closed, but for the one that is returned.\<close>

definition kept :: "goerr + response \<Rightarrow> nat set" where
  "kept out = (case out of Inl e \<Rightarrow> {} | Inr resp \<Rightarrow> {rs_body resp})"

lemma kept_simps [simp]: "kept (Inl e) = {}" "kept (Inr resp) = {rs_body resp}"
  by (simp_all add: kept_def)

definition settling_hooks :: "env \<Rightarrow> 'b body_hooks \<Rightarrow> bool" where
  "settling_hooks E hooks \<longleftrightarrow>
     (\<forall>req b h. settled E {} h (snd (hk_send hooks req b h))) \<and>
     (\<forall>g b h. hk_get hooks = Some g \<longrightarrow> settled E {} h (snd (g b h))) \<and>
     (\<forall>b h. settled E {} h (snd (hk_close hooks b h)))"

lemma settling_no_body [simp]: "settling_hooks E no_body"
  by (simp add: settling_hooks_def no_body_def)

lemma settled_scoped:
  assumes "scoped_round_trip E req h = (out, h')"
  shows "settled E (kept out) h h'"
proof -
  from scoped_round_trip_sent [OF assms] obtain s r where
    r: "sent h' = [(s, r)] @ sent h" "list_all scoped_send [(s, r)]" by auto
  have "extends h h' \<and>
    (\<forall>b \<in> set (opened E h'). b \<in> set (opened E h) \<or> b \<in> kept out \<or> EvClose b \<in> set h')"
    using assms
    by (auto simp: scoped_round_trip_def round_trip_def kept_def split: if_splits round_trip.splits)
  with r show ?thesis unfolding settled_def by blast
qed

lemma settled_replay:
  assumes "settling_hooks E hooks" and "replay_body hooks ib b h = (r, h')"
  shows "settled E {} h h'"
  using assms unfolding settling_hooks_def replay_body_def
  by (auto split: option.splits if_splits) (metis snd_conv)

lemma settled_hop:
  assumes hooks: "settling_hooks E hooks"
    and hop: "client_hop E allow hooks first via req b h = res"
  shows "settled E (case res of Inl (out, _) \<Rightarrow> kept out | Inr _ \<Rightarrow> {}) h
           (case res of Inl (_, _, h') \<Rightarrow> h' | Inr (_, _, h') \<Rightarrow> h')"
proof -
  obtain b1 h1 where send: "hk_send hooks req b h = (b1, h1)" by (metis surj_pair)
  with hooks have s1: "settled E {} h h1" unfolding settling_hooks_def by (metis snd_conv)
  obtain out h2 where trip: "scoped_round_trip E req h1 = (out, h2)" by (metis surj_pair)
  have s2: "settled E (kept out) h h2"
    by (rule settled_trans [OF s1 settled_scoped [OF trip]]) simp
  show ?thesis
  proof (cases out)
    case (Inl e)
    with hop s2 send trip show ?thesis by (auto simp: client_hop_def)
  next
    case (Inr resp)
    have closed: "settled E {} h (body_close (rs_body resp) h3)"
      if "replay_body hooks ib b1 h2 = (r, h3)" for ib r h3
    proof (rule settled_effects(8))
      show "settled E {rs_body resp} h h3"
        using s2 Inr settled_mono [OF settled_replay [OF hooks that], of "{rs_body resp}"]
        by (auto intro: settled_trans)
    qed
    have closed2: "settled E {} h (body_close (rs_body resp) h2)"
      using s2 Inr by (intro settled_effects(8)) simp
    have more: "settled E {} h h4"
      if "hk_close hooks b2 h3 = (b3, h4)" and "settled E {} h h3" for b2 b3 h3 h4
    proof -
      from hooks that(1) have "settled E {} h3 h4" unfolding settling_hooks_def by (metis snd_conv)
      from settled_trans [OF that(2) this] show ?thesis by simp
    qed
    show ?thesis
      using hop s2 Inr closed more [OF _ closed] more [OF _ closed2]
      by (auto simp: client_hop_def Let_def send trip split: option.splits prod.splits if_splits)
  qed
qed

lemma settled_loop:
  assumes "settling_hooks E hooks"
  shows "client_loop E allow hooks first via req b h = (out, b', h') \<Longrightarrow> settled E (kept out) h h'"
  using assms
proof (induction E allow hooks first via req b h arbitrary: out b' h' rule: client_loop.induct)
  case (1 E allow hooks first via req b h)
  note hop = settled_hop [OF "1.prems"(2) refl, of allow first via req b h]
  show ?case
  proof (cases "client_hop E allow hooks first via req b h")
    case (Inl res)
    with "1.prems"(1) hop show ?thesis
      by (simp add: client_loop.simps [of E allow hooks first via req b h])
  next
    case (Inr res)
    obtain req' b1 h1 where res: "res = (req', b1, h1)" by (metis prod_cases3)
    with Inr hop have "settled E {} h h1" by simp
    moreover from "1.prems"(1) Inr res have
      "client_loop E allow hooks first (via @ [req]) req' b1 h1 = (out, b', h')"
      by (simp add: client_loop.simps [of E allow hooks first via req b h])
    with "1.IH" [OF Inr [unfolded res] refl refl this] "1.prems"(2) have "settled E (kept out) h1 h'"
      by simp
    ultimately show ?thesis by (rule settled_trans) simp
  qed
qed

lemma settled_registry_request:
  assumes "settling_hooks E hooks"
    and "do_registry_request E allow hooks req b h = (out, b', h')"
  shows "settled E (kept out) h h'"
proof -
  obtain out' b1 h1 where run: "client_do E allow hooks
    (with_registry_origin req (Some (rq_url req))) b h = (out', b1, h1)" by (metis prod_cases3)
  from settled_loop [OF assms(1)] run have "settled E (kept out') h h1" by (simp add: client_do_def)
  with assms(2) run show ?thesis by (auto simp: do_registry_request_def split: sum.splits)
qed

lemma settled_location_request:
  assumes "settling_hooks E hooks"
    and "do_location_request E allow hooks req u b h = (out, b', h')"
  shows "settled E (kept out) h h'"
proof -
  obtain out' b1 h1 where run: "client_do E allow hooks (with_registry_origin req u) b h = (out', b1, h1)"
    by (metis prod_cases3)
  from settled_loop [OF assms(1)] run have "settled E (kept out') h h1" by (simp add: client_do_def)
  with assms(2) run show ?thesis by (auto simp: do_location_request_def split: sum.splits)
qed

text \<open>
  Which transports a call may use when its registry is \<open>origin\<close>: the authenticated one only
  for URLs of that origin, the storage one only without registry credentials.
\<close>

definition confined :: "registry_origin \<Rightarrow> side \<times> request \<Rightarrow> bool" where
  "confined origin sr \<longleftrightarrow>
     (case sr of
        (ToRegistry, r) \<Rightarrow> normalize_origin (Some (rq_url r)) = Some origin
      | (ToStorage, r) \<Rightarrow> normalize_origin (Some (rq_url r)) \<noteq> Some origin \<and>
                         fst ` set (rq_header r) \<inter> set credential_headers = {})"

lemma chain_ok_keeps:
  "chain_ok allow req 0 rs \<Longrightarrow> sr \<in> set rs \<Longrightarrow> rq_origin (snd sr) = rq_origin req"
  by (auto simp: chain_ok_def)

lemma scoped_confined:
  "scoped_send sr \<Longrightarrow> rq_origin (snd sr) = Some origin \<Longrightarrow> confined origin sr"
  by (cases sr; cases "fst sr")
    (auto simp: scoped_send_def confined_def to_registry_def split: option.splits)

lemma chain_confined:
  assumes "chain_ok allow req 0 rs" and "rq_origin req = Some origin"
  shows "\<forall>sr \<in> set rs. confined origin sr"
  using assms scoped_confined by (auto simp: chain_ok_def)

text \<open>
  C4. Credentials stay with the registry. Whatever the registry and the storage answer, and
  however many redirects are followed, a request built for a registry endpoint
  (\<open>doRegistryRequest\<close>) or for an upload location of that registry (\<open>doLocationRequest\<close>)
  reaches the caller's authenticated transport only for URLs with the scheme, host and
  effective port of the registry, and every other request of the chain goes to the storage
  transport with the credential headers removed.
\<close>

theorem credentials_confined:
  assumes quiet: "quiet_hooks hooks"
    and origin: "normalize_origin origin_url = Some origin"
    and run: "do_location_request E allow hooks req origin_url b h = (out, b', h')
              \<or> (do_registry_request E allow hooks req b h = (out, b', h')
                 \<and> origin_url = Some (rq_url req))"
  shows "\<exists>rs. sent h' = rs @ sent h \<and> rs \<noteq> [] \<and> (\<forall>sr \<in> set rs. confined origin sr)"
proof -
  obtain out' where
    "client_do E allow hooks (with_registry_origin req origin_url) b h = (out', b', h')"
    using run do_location_request_do do_registry_request_do by metis
  from client_do_sent [OF quiet this] obtain rs where
    rs: "sent h' = rs @ sent h" "chain_ok allow (with_registry_origin req origin_url) 0 rs" by blast
  with chain_confined [OF rs(2)] origin show ?thesis by (auto simp: chain_ok_def)
qed

text \<open>
  C18. A call sends at most ten requests, all with the method it was made with, so a redirect
  never turns a write into a bodyless GET; where write redirects are disabled a POST, PUT,
  PATCH or DELETE is sent exactly once.
\<close>

theorem redirects_bounded:
  assumes quiet: "quiet_hooks hooks"
    and run: "do_location_request E allow hooks req origin_url b h = (out, b', h')"
  shows "\<exists>rs. sent h' = rs @ sent h \<and> 1 \<le> length rs \<and> length rs \<le> 10 \<and>
           (\<forall>(s, r) \<in> set rs. rq_method r = rq_method req) \<and>
           (is_write_method (rq_method req) \<and> \<not> allow \<longrightarrow> length rs = 1)"
proof -
  obtain out' where
    "client_do E allow hooks (with_registry_origin req origin_url) b h = (out', b', h')"
    using run do_location_request_do by metis
  from client_do_sent [OF quiet this] obtain rs where
    rs: "sent h' = rs @ sent h" "chain_ok allow (with_registry_origin req origin_url) 0 rs" by blast
  then show ?thesis
    by (auto simp: chain_ok_def max_redirects_def Suc_le_eq intro!: exI [of _ rs])
qed

section \<open>A registry that redirects to storage\<close>

text \<open>
  The environment of the witnesses: the registry answers every request with a 307 to a
  storage URL, the storage with a 201, and the caller's context is never done.
\<close>

definition redirecting_env :: env where
  "redirecting_env = quiet_env\<lparr>en_trip := (\<lambda>side h req.
     case side of
       ToRegistry \<Rightarrow> Reply 307 [(''Location'', ''https://cdn.io/x'')] 0
     | ToStorage \<Rightarrow> Reply 201 [] 0)\<rparr>"

definition sample_url :: url where
  "sample_url = empty_url\<lparr>u_scheme := ''https'', u_host := ''reg.io'', u_path := ''/v2/a''\<rparr>"

definition sample_request :: "string \<Rightarrow> request" where
  "sample_request m = \<lparr>rq_method = m, rq_url = sample_url,
     rq_header = [(''Authorization'', ''secret'')], rq_origin = None, rq_length = 0\<rparr>"

definition sample_run :: "string \<Rightarrow> bool \<Rightarrow> (goerr + response) \<times> unit \<times> history" where
  "sample_run m allow =
     do_location_request redirecting_env allow no_body (sample_request m) (Some sample_url) () []"

lemma credentials_confined_witness:
  "length (sent (snd (snd (sample_run ''POST'' True)))) = 2 \<and>
   list_all (confined \<lparr>or_scheme = ''https'', or_host = ''reg.io'', or_port = ''443''\<rparr>)
     (sent (snd (snd (sample_run ''POST'' True))))"
proof -
  obtain out b' h' where run: "do_location_request redirecting_env True no_body
      (sample_request ''POST'') (Some sample_url) () [] = (out, b', h')" by (metis prod_cases3)
  have "normalize_origin (Some sample_url)
      = Some \<lparr>or_scheme = ''https'', or_host = ''reg.io'', or_port = ''443''\<rparr>" by code_simp
  from credentials_confined [OF quiet_no_body this disjI1 [OF run]]
  have "list_all (confined \<lparr>or_scheme = ''https'', or_host = ''reg.io'', or_port = ''443''\<rparr>)
      (sent (snd (snd (sample_run ''POST'' True))))"
    by (auto simp: sample_run_def run list_all_iff)
  moreover have "length (sent (snd (snd (sample_run ''POST'' True)))) = 2" by code_simp
  ultimately show ?thesis by simp
qed

lemma redirects_bounded_witness:
  "length (sent (snd (snd (sample_run ''POST'' False)))) = 1 \<and>
   list_all (\<lambda>(s, r). rq_method r = ''POST'') (sent (snd (snd (sample_run ''POST'' False))))"
proof -
  obtain out b' h' where run: "do_location_request redirecting_env False no_body
      (sample_request ''POST'') (Some sample_url) () [] = (out, b', h')" by (metis prod_cases3)
  have "is_write_method (rq_method (sample_request ''POST''))"
    and "rq_method (sample_request ''POST'') = ''POST''"
    by (simp_all add: is_write_method_def sample_request_def)
  with redirects_bounded [OF quiet_no_body run]
  show ?thesis by (auto simp: sample_run_def run list_all_iff)
qed

end
