(* ===== verification/RetryPolicy.thy ===== *)
theory RetryPolicy
  imports World
begin

text \<open>
  The pure part of retry.go: the retry policy, the full-jittered backoff and the reading of a
  \<open>Retry-After\<close> header. Durations are nanoseconds in an \<open>int64\<close>; the shift of the backoff
  wraps as Go's does.
\<close>

section \<open>The policy\<close>

record retry_policy =
  rp_max_attempts :: int
  rp_initial_delay :: int
  rp_max_delay :: int

definition default_retry_policy :: retry_policy where
  "default_retry_policy =
     \<lparr>rp_max_attempts = 4, rp_initial_delay = 250 * 1000000, rp_max_delay = 30 * 1000000000\<rparr>"

definition attempts :: "retry_policy \<Rightarrow> int" where
  "attempts p = max (rp_max_attempts p) 1"

text \<open>Go's \<open>x << k\<close> on an \<open>int64\<close>.\<close>

definition shl64 :: "int \<Rightarrow> nat \<Rightarrow> int" where
  "shl64 x k = wrap64 (x * 2 ^ k)"

text \<open>The exclusive upper end of the jitter after failed attempt number \<open>attempt\<close>.\<close>

definition backoff_ceiling :: "retry_policy \<Rightarrow> nat \<Rightarrow> int" where
  "backoff_ceiling p attempt =
     (let shifted = shl64 (rp_initial_delay p) (attempt - 1) in
      if shifted > rp_max_delay p \<or> shifted \<le> 0 then rp_max_delay p else shifted)"

definition backoff_delay :: "env \<Rightarrow> retry_policy \<Rightarrow> nat \<Rightarrow> int \<Rightarrow> history \<Rightarrow> int \<times> history" where
  "backoff_delay E p attempt retry_after h =
     (if retry_after > 0 then (min retry_after (max (rp_max_delay p) 0), h)
      else if backoff_ceiling p attempt \<le> 0 then (0, h)
      else rand_n E (backoff_ceiling p attempt) h)"

section \<open>Retry-After\<close>

text \<open>\<open>Time.Sub\<close> saturates at the bounds of a duration.\<close>

definition time_sub :: "int \<Rightarrow> int \<Rightarrow> int" where
  "time_sub t u = max min_int64 (min max_int64 (t - u))"

definition retry_after_delay :: "env \<Rightarrow> string \<Rightarrow> int \<Rightarrow> int" where
  "retry_after_delay E hdr t =
     (let text = trim_space hdr in
      if text = [] then 0
      else
        (case parse_uint 64 text of
           (seconds, None) \<Rightarrow>
             if seconds > max_int64 div 1000000000 then max_int64
             else wrap64 (seconds * 1000000000)
         | (_, Some _) \<Rightarrow>
             if list_all is_digit text then max_int64
             else (case en_parse_time E text of Some at \<Rightarrow> max (time_sub at t) 0 | None \<Rightarrow> 0)))"

section \<open>Bounds\<close>

lemma backoff_ceiling_le: "backoff_ceiling p k \<le> rp_max_delay p"
  by (simp add: backoff_ceiling_def Let_def)

lemma backoff_delay_range:
  "0 \<le> fst (backoff_delay E p k after h) \<and>
   fst (backoff_delay E p k after h) \<le> max (rp_max_delay p) 0"
proof (cases "after > 0 \<or> backoff_ceiling p k \<le> 0")
  case True
  then show ?thesis by (auto simp: backoff_delay_def)
next
  case False
  then have c: "0 < backoff_ceiling p k"
    and d: "fst (backoff_delay E p k after h) = int (en_rand E h) mod backoff_ceiling p k"
    by (simp_all add: backoff_delay_def rand_n_def)
  from c have "0 \<le> int (en_rand E h) mod backoff_ceiling p k"
    and "int (en_rand E h) mod backoff_ceiling p k < backoff_ceiling p k" by simp_all
  with d backoff_ceiling_le [of p k] show ?thesis by linarith
qed

lemma backoff_delay_exact:
  assumes "after \<le> 0" and "0 < rp_initial_delay p * 2 ^ (k - 1)"
    and "rp_initial_delay p * 2 ^ (k - 1) \<le> rp_max_delay p" and "int64 (rp_max_delay p)"
  shows "fst (backoff_delay E p k after h) = int (en_rand E h) mod (rp_initial_delay p * 2 ^ (k - 1))"
proof -
  have "int64 (rp_initial_delay p * 2 ^ (k - 1))"
    using assms(2-4) by (intro int64_between [OF assms(4)]) auto
  then have "shl64 (rp_initial_delay p) (k - 1) = rp_initial_delay p * 2 ^ (k - 1)"
    by (simp add: shl64_def wrap64_id)
  with assms(2,3) have "backoff_ceiling p k = rp_initial_delay p * 2 ^ (k - 1)"
    by (simp add: backoff_ceiling_def)
  with assms(1,2) show ?thesis by (simp add: backoff_delay_def rand_n_def)
qed

text \<open>
  C28. A wait between attempts is never negative and never exceeds \<open>MaxDelay\<close>, whatever the
  registry's \<open>Retry-After\<close> asked for and however far the shift has overflowed; a wish within
  the cap is honoured as it is, and while the doubled delay stays within the cap the jitter
  is drawn below \<open>InitialDelay * 2^(n-1)\<close>.
\<close>

theorem backoff_delay_bounds:
  assumes "int64 (rp_max_delay p)"
  shows "0 \<le> fst (backoff_delay E p k after h) \<and>
    fst (backoff_delay E p k after h) \<le> max (rp_max_delay p) 0 \<and>
    (0 < after \<and> after \<le> rp_max_delay p \<longrightarrow> fst (backoff_delay E p k after h) = after) \<and>
    (after \<le> 0 \<and> 0 < rp_initial_delay p * 2 ^ (k - 1) \<and>
       rp_initial_delay p * 2 ^ (k - 1) \<le> rp_max_delay p \<longrightarrow>
     fst (backoff_delay E p k after h) < rp_initial_delay p * 2 ^ (k - 1))"
proof (intro conjI impI)
  show "0 \<le> fst (backoff_delay E p k after h)"
    and "fst (backoff_delay E p k after h) \<le> max (rp_max_delay p) 0"
    using backoff_delay_range by blast+
  show "fst (backoff_delay E p k after h) = after" if "0 < after \<and> after \<le> rp_max_delay p"
    using that by (simp add: backoff_delay_def)
  show "fst (backoff_delay E p k after h) < rp_initial_delay p * 2 ^ (k - 1)"
    if "after \<le> 0 \<and> 0 < rp_initial_delay p * 2 ^ (k - 1) \<and>
        rp_initial_delay p * 2 ^ (k - 1) \<le> rp_max_delay p"
    using that backoff_delay_exact [of after p k E h] assms by simp
qed

lemma backoff_delay_bounds_witness:
  "fst (backoff_delay quiet_env default_retry_policy 3 7 []) = 7 \<and>
   fst (backoff_delay quiet_env default_retry_policy 3 0 []) < 1000000000"
proof -
  have m: "int64 (rp_max_delay default_retry_policy)"
    by (simp add: default_retry_policy_def int64_def min_int64_def max_int64_def)
  show ?thesis
    using backoff_delay_bounds [OF m, of quiet_env 3 7 "[]"] backoff_delay_bounds [OF m, of quiet_env 3 0 "[]"]
    by (simp add: default_retry_policy_def)
qed

text \<open>
  The overflow guard is incomplete: it catches a shift that wraps to a value that is not
  positive or exceeds \<open>MaxDelay\<close>, but not one that wraps to a small positive value. With
  \<open>InitialDelay\<close> of 2^40 + 1 ns (about 18 minutes) and \<open>MaxDelay\<close> twice that, the wait after
  attempt 25 is at most 2^24 ns (17 ms), although every attempt from the third to the
  twenty-fourth draws from the full \<open>MaxDelay\<close>.
\<close>

definition wrapping_policy :: retry_policy where
  "wrapping_policy = \<lparr>rp_max_attempts = 30, rp_initial_delay = 2 ^ 40 + 1, rp_max_delay = 2 ^ 41\<rparr>"

lemma backoff_wraps_to_small_ceiling:
  "rp_max_delay wrapping_policy < rp_initial_delay wrapping_policy * 2 ^ (25 - 1) \<and>
   fst (backoff_delay E wrapping_policy 25 0 h) = int (en_rand E h) mod 2 ^ 24 \<and>
   fst (backoff_delay E wrapping_policy 24 0 h) = int (en_rand E h) mod 2 ^ 41"
  by (simp add: wrapping_policy_def backoff_delay_def backoff_ceiling_def Let_def shl64_def wrap64_def rand_n_def)

section \<open>Reading Retry-After\<close>

lemma digit_not_space: "is_digit c \<Longrightarrow> \<not> is_space c"
  by (auto simp: is_digit_def is_space_def Let_def)

lemma dropWhile_none: "list_all (\<lambda>c. \<not> P c) s \<Longrightarrow> dropWhile P s = s"
  by (cases s) auto

lemma trim_digits [str_simps]:
  assumes "list_all is_digit s" shows "trim_space s = s"
proof -
  have s: "list_all (\<lambda>c. \<not> is_space c) s" "list_all (\<lambda>c. \<not> is_space c) (rev s)"
    using assms digit_not_space by (auto simp: list_all_iff)
  show ?thesis by (simp add: trim_space_def dropWhile_none [OF s(1)] dropWhile_none [OF s(2)])
qed

lemma retry_after_digits:
  assumes "s \<noteq> []" and "list_all is_digit s"
  shows "retry_after_delay E s t =
    (if digits_val s \<le> 9223372036 then digits_val s * 1000000000 else max_int64)"
proof -
  have nn: "0 \<le> digits_val s" using assms(2) by (rule digits_val_nonneg)
  have wrap: "wrap64 (digits_val s * 1000000000) = digits_val s * 1000000000"
    if "digits_val s \<le> 9223372036"
    using that nn by (intro wrap64_id) (simp add: int64_def min_int64_def max_int64_def)
  show ?thesis
    using assms wrap
    by (simp add: retry_after_delay_def trim_digits parse_uint_def max_int64_def)
qed

lemma retry_after_bounds: "0 \<le> retry_after_delay E s t \<and> retry_after_delay E s t \<le> max_int64"
proof -
  obtain v e where v: "parse_uint 64 (trim_space s) = (v, e)" by (metis surj_pair)
  with parse_uint_nonneg [of 64 "trim_space s"] have nn: "0 \<le> v" by simp
  have wrap: "wrap64 (v * 1000000000) = v * 1000000000" if "v \<le> 9223372036"
    using that nn by (intro wrap64_id) (simp add: int64_def min_int64_def max_int64_def)
  show ?thesis
    using nn wrap
    by (auto simp: retry_after_delay_def Let_def v max_int64_def min_int64_def time_sub_def
        split: option.splits)
qed

text \<open>
  C29. Delay-seconds are read exactly: a \<open>Retry-After\<close> of \<open>n\<close> seconds is \<open>n\<close> seconds, and a
  value beyond what a duration can hold saturates instead of wrapping; no header yields a
  negative delay.
\<close>

theorem retry_after_seconds:
  "retry_after_delay E (nat_digits n) t =
     (if n \<le> 9223372036 then int n * 1000000000 else max_int64) \<and>
   0 \<le> retry_after_delay E s t \<and> retry_after_delay E s t \<le> max_int64"
  using retry_after_digits [OF nat_digits_nonempty nat_digits_digits, of E n t]
    retry_after_bounds [of E s t] by simp

end
