(* ===== verification/Client.thy ===== *)
theory Client
  imports Transport RetryPolicy
begin

text \<open>
  client.go: the options a caller can give, how \<open>New\<close> assembles a client from them, and the
  choice of transports for a parallel pull. A transport is what \<open>http.RoundTripper\<close> values the
  code can tell apart: a standard \<open>*http.Transport\<close> with its two idle limits, or any other.
\<close>

section \<open>Transports\<close>

datatype transport =
    StdTransport (max_idle: int) (max_idle_per_host: int)
  | OtherTransport nat

text \<open>
  \<open>http.DefaultTransport\<close> and \<open>DefaultMaxIdleConnsPerHost\<close>. The value of an argument of
  interface type: nil, or a concrete value of a reflect kind that may itself be nil.
\<close>

definition default_max_idle_conns_per_host :: int where
  "default_max_idle_conns_per_host = 2"

datatype kind = KChan | KFunc | KInterface | KMap | KPointer | KSlice | KStruct | KOther

datatype 'a iface = NilIface | Iface kind bool 'a

fun is_nil_value :: "'a iface \<Rightarrow> bool" where
  "is_nil_value NilIface = True"
| "is_nil_value (Iface k isnil v) =
     ((k = KChan \<or> k = KFunc \<or> k = KInterface \<or> k = KMap \<or> k = KPointer \<or> k = KSlice) \<and> isnil)"

fun iface_value :: "'a iface \<Rightarrow> 'a \<Rightarrow> 'a" where
  "iface_value NilIface d = d"
| "iface_value (Iface k isnil v) d = v"

definition default_transport_for_parallel_pull :: "transport \<Rightarrow> int \<Rightarrow> transport" where
  "default_transport_for_parallel_pull base workers =
     (case base of
        OtherTransport n \<Rightarrow> OtherTransport n
      | StdTransport idle per_host \<Rightarrow>
          StdTransport (if idle > 0 \<and> idle < workers then workers else idle)
            (if per_host \<ge> 0 \<and> per_host < workers then workers else per_host))"

section \<open>Options\<close>

record options =
  o_transport :: transport
  o_transport_configured :: bool
  o_storage_transport :: transport
  o_storage_transport_configured :: bool
  o_plain_http :: bool
  o_retry :: retry_policy
  o_write_redirects :: bool
  o_chunk_size :: int
  o_pull_workers :: int
  o_pull_chunk :: int

type_synonym option_fn = "options \<Rightarrow> options"

definition with_retry_policy :: "retry_policy \<Rightarrow> option_fn" where
  "with_retry_policy p o' = o'\<lparr>o_retry := p\<rparr>"

definition max_parallel_pull_workers :: int where
  "max_parallel_pull_workers = 1024"

definition with_parallel_pull :: "int \<Rightarrow> int \<Rightarrow> option_fn" where
  "with_parallel_pull workers chunk o' =
     (if workers > 0 \<and> workers \<le> max_parallel_pull_workers \<and> chunk > 0 \<and>
         workers \<le> max_int64 div chunk
      then o'\<lparr>o_pull_workers := workers, o_pull_chunk := chunk\<rparr> else o')"

definition with_chunked_upload :: "int \<Rightarrow> option_fn" where
  "with_chunked_upload chunk o' = (if chunk > 0 then o'\<lparr>o_chunk_size := chunk\<rparr> else o')"

definition with_transport :: "transport iface \<Rightarrow> option_fn" where
  "with_transport rt o' =
     (if \<not> is_nil_value rt
      then o'\<lparr>o_transport := iface_value rt (o_transport o'), o_transport_configured := True\<rparr>
      else o')"

definition with_storage_transport :: "transport iface \<Rightarrow> option_fn" where
  "with_storage_transport rt o' =
     (if \<not> is_nil_value rt
      then o'\<lparr>o_storage_transport := iface_value rt (o_storage_transport o'),
              o_storage_transport_configured := True\<rparr>
      else o')"

definition with_write_redirects :: "bool \<Rightarrow> option_fn" where
  "with_write_redirects allow o' = o'\<lparr>o_write_redirects := allow\<rparr>"

definition with_plain_http :: "bool \<Rightarrow> option_fn" where
  "with_plain_http plain o' = o'\<lparr>o_plain_http := plain\<rparr>"

section \<open>The client\<close>

text \<open>
  \<open>cl_pool\<close> is the capacity of the channel of reusable chunk buffers, None when there is none.
\<close>

record client =
  cl_registry :: transport
  cl_storage :: transport
  cl_plain_http :: bool
  cl_retry :: retry_policy
  cl_write_redirects :: bool
  cl_chunk_size :: int
  cl_pull_workers :: int
  cl_pull_chunk :: int
  cl_pool :: "int option"

definition default_options :: "transport \<Rightarrow> options" where
  "default_options dt =
     \<lparr>o_transport = dt, o_transport_configured = False, o_storage_transport = dt,
      o_storage_transport_configured = False, o_plain_http = False,
      o_retry = default_retry_policy, o_write_redirects = True, o_chunk_size = 0,
      o_pull_workers = 0, o_pull_chunk = 0\<rparr>"

fun apply_options :: "option_fn option list \<Rightarrow> options \<Rightarrow> options" where
  "apply_options [] o' = o'"
| "apply_options (opt # opts) o' =
     apply_options opts (case opt of None \<Rightarrow> o' | Some f \<Rightarrow> f o')"

definition build_client :: "transport \<Rightarrow> options \<Rightarrow> client" where
  "build_client dt o' =
     (let tune = (o_pull_workers o' > default_max_idle_conns_per_host \<and>
                  (\<not> o_transport_configured o' \<or> \<not> o_storage_transport_configured o'));
          parallel_default = default_transport_for_parallel_pull dt (o_pull_workers o')
      in \<lparr>cl_registry = (if tune \<and> \<not> o_transport_configured o' then parallel_default
                         else o_transport o'),
          cl_storage = (if tune \<and> \<not> o_storage_transport_configured o' then parallel_default
                        else o_storage_transport o'),
          cl_plain_http = o_plain_http o', cl_retry = o_retry o',
          cl_write_redirects = o_write_redirects o', cl_chunk_size = o_chunk_size o',
          cl_pull_workers = o_pull_workers o', cl_pull_chunk = o_pull_chunk o',
          cl_pool = (if o_pull_workers o' > 0 then Some (o_pull_workers o') else None)\<rparr>)"

definition new_client :: "transport \<Rightarrow> option_fn option list \<Rightarrow> client" where
  "new_client dt opts = build_client dt (apply_options opts (default_options dt))"

definition client_scheme :: "client \<Rightarrow> string" where
  "client_scheme c = (if cl_plain_http c then registry_scheme_http else registry_scheme_https)"

section \<open>What any list of options leads to\<close>

text \<open>The options the package offers.\<close>

inductive_set package_options :: "option_fn set" where
  "with_retry_policy p \<in> package_options"
| "with_parallel_pull w k \<in> package_options"
| "with_chunked_upload k \<in> package_options"
| "with_transport rt \<in> package_options"
| "with_storage_transport rt \<in> package_options"
| "with_write_redirects b \<in> package_options"
| "with_plain_http b \<in> package_options"

lemmas option_defs =
  with_retry_policy_def with_parallel_pull_def with_chunked_upload_def with_transport_def
  with_storage_transport_def with_write_redirects_def with_plain_http_def

text \<open>The memory bound of a parallel pull, and the transports a caller did not configure.\<close>

definition options_ok :: "transport \<Rightarrow> options \<Rightarrow> bool" where
  "options_ok dt o' \<longleftrightarrow>
     0 \<le> o_pull_workers o' \<and> o_pull_workers o' \<le> 1024 \<and> 0 \<le> o_chunk_size o' \<and>
     o_pull_workers o' * o_pull_chunk o' \<le> max_int64 \<and>
     (0 < o_pull_workers o' \<longrightarrow> 0 < o_pull_chunk o') \<and>
     (\<not> o_transport_configured o' \<longrightarrow> o_transport o' = dt) \<and>
     (\<not> o_storage_transport_configured o' \<longrightarrow> o_storage_transport o' = dt)"

lemma options_ok_default: "options_ok dt (default_options dt)"
  by (simp add: options_ok_def default_options_def max_int64_def)

lemma div_mult_le: "0 < k \<Longrightarrow> w \<le> m div k \<Longrightarrow> w * k \<le> (m::int)"
  using mult_right_mono [of w "m div k" k] pos_mod_sign [of k m] div_mult_mod_eq [of m k] by linarith

lemma options_ok_step:
  assumes "f \<in> package_options" and "options_ok dt o'" shows "options_ok dt (f o')"
  using assms
  by (cases rule: package_options.cases)
    (auto simp: option_defs options_ok_def max_parallel_pull_workers_def intro: div_mult_le)

lemma options_ok_apply:
  "\<forall>f. Some f \<in> set opts \<longrightarrow> f \<in> package_options \<Longrightarrow> options_ok dt o' \<Longrightarrow>
   options_ok dt (apply_options opts o')"
  by (induction opts arbitrary: o') (auto simp: options_ok_step split: option.split)

text \<open>
  Whatever options a caller passes, in any order and number, nil ones included: a client
  with parallel pull has between 1 and 1024 workers, a positive chunk size, a memory bound
  \<open>workers * chunk\<close> that fits an \<open>int64\<close>, and a buffer pool with one place per worker;
  without parallel pull it has no pool. The chunked-upload size is never negative.
\<close>

theorem new_client_bounds:
  assumes "\<forall>f. Some f \<in> set opts \<longrightarrow> f \<in> package_options"
  shows "0 \<le> cl_pull_workers (new_client dt opts) \<and> cl_pull_workers (new_client dt opts) \<le> 1024 \<and>
    cl_pull_workers (new_client dt opts) * cl_pull_chunk (new_client dt opts) \<le> max_int64 \<and>
    0 \<le> cl_chunk_size (new_client dt opts) \<and>
    (if cl_pull_workers (new_client dt opts) > 0
     then 0 < cl_pull_chunk (new_client dt opts) \<and>
          cl_pool (new_client dt opts) = Some (cl_pull_workers (new_client dt opts))
     else cl_pool (new_client dt opts) = None)"
  using options_ok_apply [OF assms options_ok_default]
  by (auto simp: new_client_def build_client_def Let_def options_ok_def)

lemma new_client_bounds_witness:
  "cl_pool (new_client (StdTransport 100 2)
     [Some (with_parallel_pull 2000 1), None, Some (with_parallel_pull 8 1048576)]) = Some 8 \<and>
   cl_pull_workers (new_client (StdTransport 100 2)
     [Some (with_parallel_pull 2000 1), None, Some (with_parallel_pull 8 1048576)]) \<le> 1024"
proof -
  have "\<forall>f. Some f \<in> set [Some (with_parallel_pull 2000 1), None, Some (with_parallel_pull 8 1048576)]
      \<longrightarrow> f \<in> package_options"
    using package_options.intros by auto
  from new_client_bounds [OF this, of "StdTransport 100 2"]
  have "cl_pull_workers (new_client (StdTransport 100 2)
     [Some (with_parallel_pull 2000 1), None, Some (with_parallel_pull 8 1048576)]) \<le> 1024" by blast
  then show ?thesis
    by (simp add: new_client_def build_client_def default_options_def with_parallel_pull_def
        max_parallel_pull_workers_def max_int64_def Let_def)
qed

text \<open>How a client's own transport may differ from the process default.\<close>

definition keeps_pool :: "transport \<Rightarrow> transport \<Rightarrow> int \<Rightarrow> bool" where
  "keeps_pool base t workers \<longleftrightarrow>
     (case (base, t) of
        (StdTransport i p, StdTransport i' p') \<Rightarrow>
          (i' = i \<or> (0 < i \<and> i < i' \<and> i' = workers)) \<and> (p' = p \<or> (0 \<le> p \<and> p < p' \<and> p' = workers))
      | _ \<Rightarrow> t = base)"

lemma keeps_pool_default:
  "keeps_pool dt (default_transport_for_parallel_pull dt w) w" "keeps_pool dt dt w"
  by (auto simp: keeps_pool_def default_transport_for_parallel_pull_def split: transport.split)

text \<open>
  A transport the caller supplied is used as it is. The library's default takes its place
  only where the caller supplied none (a nil or typed-nil transport is none), and it is tuned
  only upwards: its idle limits are never lowered, a limit that disables idle connections
  stays, and a replacement that is not a standard transport is not touched.
\<close>

theorem new_client_transports:
  assumes "\<forall>f. Some f \<in> set opts \<longrightarrow> f \<in> package_options"
    and "applied = apply_options opts (default_options dt)"
  shows "(if o_transport_configured applied
          then cl_registry (new_client dt opts) = o_transport applied
          else keeps_pool dt (cl_registry (new_client dt opts)) (cl_pull_workers (new_client dt opts))) \<and>
         (if o_storage_transport_configured applied
          then cl_storage (new_client dt opts) = o_storage_transport applied
          else keeps_pool dt (cl_storage (new_client dt opts)) (cl_pull_workers (new_client dt opts)))"
  using options_ok_apply [OF assms(1) options_ok_default, of dt] keeps_pool_default
  by (auto simp: new_client_def build_client_def Let_def options_ok_def assms(2))

lemma new_client_transports_witness:
  "cl_registry (new_client (StdTransport 100 2)
     [Some (with_parallel_pull 8 1048576), Some (with_transport (Iface KPointer False (OtherTransport 7)))])
     = OtherTransport 7 \<and>
   keeps_pool (StdTransport 100 2) (cl_storage (new_client (StdTransport 100 2)
     [Some (with_parallel_pull 8 1048576), Some (with_transport (Iface KPointer False (OtherTransport 7)))])) 8"
proof -
  let ?opts = "[Some (with_parallel_pull 8 1048576), Some (with_transport (Iface KPointer False (OtherTransport 7)))]"
  have p: "\<forall>f. Some f \<in> set ?opts \<longrightarrow> f \<in> package_options"
    using package_options.intros by auto
  have o: "o_transport_configured (apply_options ?opts (default_options (StdTransport 100 2)))"
    "\<not> o_storage_transport_configured (apply_options ?opts (default_options (StdTransport 100 2)))"
    "o_transport (apply_options ?opts (default_options (StdTransport 100 2))) = OtherTransport 7"
    "cl_pull_workers (new_client (StdTransport 100 2) ?opts) = 8"
    by (simp_all add: option_defs default_options_def max_parallel_pull_workers_def max_int64_def
        new_client_def build_client_def Let_def)
  show ?thesis using new_client_transports [OF p refl, of "StdTransport 100 2"] o by simp
qed

end
