(* ===== verification/Attempts.thy ===== *)
theory Attempts
  imports Transport
begin

text \<open>
  The attempt loop that the client runs in four places (\<open>doRetry\<close>, \<open>pushWithRetry\<close>,
  \<open>parallelProbe\<close>, \<open>fetchRangePart\<close>): \<open>for attempt := 1; ; attempt++\<close>, left from inside by the
  turn of the last attempt at the latest. The interfaces below say what a turn promises; the
  lemmas hold for every loop whose turn keeps the promise.
\<close>

text \<open>
  \<open>turn k s\<close> is the body of the loop in attempt \<open>k\<close>: \<open>Inl\<close> leaves the loop, \<open>Inr\<close> goes on. The
  loop itself has no bound, so the model runs it with fuel.
\<close>

primrec attempt_loop :: "(nat \<Rightarrow> 's \<Rightarrow> 'r + 's) \<Rightarrow> nat \<Rightarrow> nat \<Rightarrow> 's \<Rightarrow> 'r option" where
  "attempt_loop turn 0 k s = None"
| "attempt_loop turn (Suc fuel) k s =
     (case turn k s of Inl r \<Rightarrow> Some r | Inr s' \<Rightarrow> attempt_loop turn fuel (Suc k) s')"

locale bounded_attempts =
  fixes turn :: "nat \<Rightarrow> 's \<Rightarrow> 'r + 's"
    and limit :: nat
  assumes last_stops: "turn limit s \<noteq> Inr s'"
    and some_attempt: "0 < limit"
begin

lemma loop_total_from:
  "0 < fuel \<Longrightarrow> k + fuel = Suc limit \<Longrightarrow> attempt_loop turn fuel k s \<noteq> None"
proof (induction fuel arbitrary: k s)
  case (Suc fuel)
  show ?case
  proof (cases "turn k s")
    case (Inr s')
    with last_stops have "k \<noteq> limit" by metis
    with Suc Inr show ?thesis by (cases fuel) auto
  qed simp
qed simp

text \<open>Enough fuel: one unit for each attempt.\<close>

lemma loop_total: "\<exists>r. attempt_loop turn limit 1 s = Some r"
  using loop_total_from [of limit 1 s] some_attempt by auto

text \<open>The loop rule: \<open>P k\<close> holds at the start of attempt \<open>k\<close>, \<open>Q\<close> of what leaves the loop.\<close>

lemma loop_rule_from:
  assumes "attempt_loop turn fuel k s = Some r" and "P k s" and "1 \<le> k" and "k + fuel = Suc limit"
    and "\<And>j t t'. 1 \<le> j \<Longrightarrow> j < limit \<Longrightarrow> P j t \<Longrightarrow> turn j t = Inr t' \<Longrightarrow> P (Suc j) t'"
    and "\<And>j t r. 1 \<le> j \<Longrightarrow> j \<le> limit \<Longrightarrow> P j t \<Longrightarrow> turn j t = Inl r \<Longrightarrow> Q r"
  shows "Q r"
  using assms(1-4)
proof (induction fuel arbitrary: k s)
  case (Suc fuel)
  show ?case
  proof (cases "turn k s")
    case (Inl r')
    with Suc.prems assms(6) [of k s r'] show ?thesis by simp
  next
    case (Inr s')
    with last_stops have "k \<noteq> limit" by metis
    with Suc.prems have "k < limit" by simp
    with Suc.prems Inr assms(5) [of k s s'] Suc.IH [of "Suc k" s'] show ?thesis by simp
  qed
qed simp

lemma loop_rule:
  assumes "attempt_loop turn limit 1 s = Some r" and "P 1 s"
    and "\<And>j t t'. 1 \<le> j \<Longrightarrow> j < limit \<Longrightarrow> P j t \<Longrightarrow> turn j t = Inr t' \<Longrightarrow> P (Suc j) t'"
    and "\<And>j t r. 1 \<le> j \<Longrightarrow> j \<le> limit \<Longrightarrow> P j t \<Longrightarrow> turn j t = Inl r \<Longrightarrow> Q r"
  shows "Q r"
  using loop_rule_from [where P = P and Q = Q and fuel = limit and k = 1 and s = s and r = r]
    assms by simp

end

text \<open>
  A loop that works on a history: every turn extends it, sends at most \<open>price\<close> requests and
  settles the response bodies it receives.
\<close>

locale settling_attempts = bounded_attempts turn limit
  for turn :: "nat \<Rightarrow> 's \<Rightarrow> 'r + 's" and limit :: nat +
  fixes E :: env
    and hist :: "'s \<Rightarrow> history"
    and result_hist :: "'r \<Rightarrow> history"
    and result_kept :: "'r \<Rightarrow> nat set"
    and price :: nat
  assumes turn_settles: "turn k s = Inr s' \<Longrightarrow> settled E {} (hist s) (hist s')"
    and turn_result_settles: "turn k s = Inl r \<Longrightarrow> settled E (result_kept r) (hist s) (result_hist r)"
    and turn_price: "turn k s = Inr s' \<Longrightarrow>
      length (sent (hist s')) \<le> length (sent (hist s)) + price"
    and turn_result_price: "turn k s = Inl r \<Longrightarrow>
      length (sent (result_hist r)) \<le> length (sent (hist s)) + price"
begin

lemma loop_settled:
  assumes "attempt_loop turn limit 1 s = Some r"
  shows "settled E (result_kept r) (hist s) (result_hist r)"
proof (rule loop_rule [OF assms, of "\<lambda>k t. settled E {} (hist s) (hist t)"])
  fix j t t' r
  assume "settled E {} (hist s) (hist t)"
  then show "turn j t = Inr t' \<Longrightarrow> settled E {} (hist s) (hist t')"
    and "turn j t = Inl r \<Longrightarrow> settled E (result_kept r) (hist s) (result_hist r)"
    using settled_trans turn_settles turn_result_settles by (metis empty_iff)+
qed simp

lemma loop_price:
  assumes "attempt_loop turn limit 1 s = Some r"
  shows "length (sent (result_hist r)) \<le> length (sent (hist s)) + limit * price"
proof (rule loop_rule [OF assms, of "\<lambda>k t. length (sent (hist t)) \<le> length (sent (hist s)) + (k - 1) * price"])
  fix j t t' r
  assume j: "1 \<le> j" and p: "length (sent (hist t)) \<le> length (sent (hist s)) + (j - 1) * price"
  have step: "(j - 1) * price + price = j * price"
    using j by (cases j) simp_all
  show "turn j t = Inr t' \<Longrightarrow> length (sent (hist t')) \<le> length (sent (hist s)) + (Suc j - 1) * price"
    using turn_price [of j t t'] p step by simp
  assume "j \<le> limit" and "turn j t = Inl r"
  with turn_result_price [of j t r] p step mult_le_mono1 [of j limit price]
    add_le_mono1 [of "j * price" "limit * price" "length (sent (hist s))"]
  show "length (sent (result_hist r)) \<le> length (sent (hist s)) + limit * price" by linarith
qed simp

end

text \<open>A loop that goes on only after sending a request.\<close>

locale paying_attempts = settling_attempts +
  assumes turn_pays: "turn k s = Inr s' \<Longrightarrow> length (sent (hist s)) < length (sent (hist s'))"
begin

text \<open>An outcome that only the last attempt can have is reached after a request per attempt.\<close>

lemma loop_last_only:
  assumes "attempt_loop turn limit 1 s = Some r"
    and "\<And>k t. turn k t = Inl r \<Longrightarrow>
      k = limit \<and> length (sent (hist t)) < length (sent (result_hist r))"
  shows "length (sent (hist s)) + limit \<le> length (sent (result_hist r))"
proof (rule loop_rule [OF assms(1), of
      "\<lambda>k t. length (sent (hist s)) + (k - 1) \<le> length (sent (hist t))"
      "\<lambda>q. q = r \<longrightarrow> length (sent (hist s)) + limit \<le> length (sent (result_hist q))", THEN mp])
  fix j t t' q
  assume j: "1 \<le> j" and p: "length (sent (hist s)) + (j - 1) \<le> length (sent (hist t))"
  show "turn j t = Inr t' \<Longrightarrow> length (sent (hist s)) + (Suc j - 1) \<le> length (sent (hist t'))"
    using turn_pays [of j t t'] p j by linarith
  show "turn j t = Inl q \<Longrightarrow> q = r \<longrightarrow> length (sent (hist s)) + limit \<le> length (sent (result_hist q))"
    using assms(2) [of j t] p j by auto
qed simp_all

end

end
