(* ===== verification/Wire.thy ===== *)
theory Wire
  imports Transport RetryPolicy
begin

text \<open>
  wire.go, the pure core of the registry protocol: endpoint URLs, resolution of a peer-selected
  \<open>Location\<close>, reading of error responses and of \<open>Content-Range\<close> headers.
\<close>

section \<open>URLs\<close>

definition blob_url :: "string \<Rightarrow> repository \<Rightarrow> string \<Rightarrow> url" where
  "blob_url scheme repo dgst =
     empty_url\<lparr>u_scheme := scheme, u_host := repo_host repo,
       u_path := escape EncPath (''/v2/'' @ repo_name repo @ ''/blobs/'' @ dgst)\<rparr>"

definition invalid_location :: "string \<Rightarrow> goerr" where
  "invalid_location why =
     Wrapf (internal_text ErrInvalidLocation @ '': '' @ why) [Internal ErrInvalidLocation]"

definition resolve_location :: "url option \<Rightarrow> string \<Rightarrow> goerr + url" where
  "resolve_location base location =
     (if location = [] then Inl (invalid_location ''response carried no Location header'')
      else
        (case base of
           None \<Rightarrow> Inl (invalid_location ''response request URL is unavailable'')
         | Some b \<Rightarrow>
           (case url_parse location of
              None \<Rightarrow> Inl (invalid_location ''Location is malformed'')
            | Some ref \<Rightarrow>
                if u_user ref \<noteq> None then
                  Inl (invalid_location ''Location contains user information'')
                else
                  let res0 = resolve_reference b ref;
                      res = res0\<lparr>u_scheme := to_lower (u_scheme res0)\<rparr>
                  in if u_scheme res \<noteq> registry_scheme_http \<and> u_scheme res \<noteq> registry_scheme_https then
                       Inl (invalid_location ''Location uses an unsupported scheme'')
                     else if equal_fold (u_scheme b) registry_scheme_https \<and>
                             u_scheme res = registry_scheme_http then
                       Inl (invalid_location ''Location downgrades HTTPS to HTTP'')
                     else if hostname res = [] then
                       Inl (invalid_location ''Location has no host'')
                     else Inr (res\<lparr>u_fragment := []\<rparr>))))"

text \<open>\<open>responseRequestURL\<close> of push.go.\<close>

definition response_request_url :: "response \<Rightarrow> url option \<Rightarrow> url option" where
  "response_request_url resp fallback =
     (case rs_request resp of Some req \<Rightarrow> Some (rq_url req) | None \<Rightarrow> fallback)"

section \<open>Error responses\<close>

definition interpret_error :: "env \<Rightarrow> response \<Rightarrow> history \<Rightarrow> goerr \<times> history" where
  "interpret_error E resp h =
     (case now E (body_drain (rs_body resp) h) of
        (t, h') \<Rightarrow>
          (RegistryErr (rs_status resp)
             (retry_after_delay E (header_get (rs_header resp) ''Retry-After'') t)
             (origin_of_response resp), h'))"

section \<open>Content-Range\<close>

record content_range =
  cr_start :: int
  cr_end :: int
  cr_total :: int

definition parse_decimal :: "string \<Rightarrow> int option" where
  "parse_decimal text =
     (if text = [] then None
      else if \<not> list_all is_digit text then None
      else (case parse_int text of (v, None) \<Rightarrow> Some v | (_, Some _) \<Rightarrow> None))"

definition parse_content_range :: "string \<Rightarrow> content_range option" where
  "parse_content_range hdr =
     (case str_cut CHR '' '' hdr of (unit, rest, found) \<Rightarrow>
      if \<not> found \<or> \<not> equal_fold unit ''bytes'' then None
      else (case str_cut CHR ''/'' rest of (interval_text, total_text, found) \<Rightarrow>
      if \<not> found then None
      else (case str_cut CHR ''-'' interval_text of (start_text, end_text, found) \<Rightarrow>
      if \<not> found then None
      else (case parse_decimal start_text of
        None \<Rightarrow> None
      | Some start \<Rightarrow>
          if start < 0 then None
          else (case parse_decimal end_text of
            None \<Rightarrow> None
          | Some final \<Rightarrow>
              if final < start then None
              else (case parse_decimal total_text of
                None \<Rightarrow> None
              | Some n \<Rightarrow>
                  if n \<le> final then None
                  else Some \<lparr>cr_start = start, cr_end = final, cr_total = n\<rparr>))))))"

definition unsatisfied_range_total :: "string \<Rightarrow> int" where
  "unsatisfied_range_total hdr =
     (case str_cut CHR '' '' (trim_space hdr) of (unit, rest, found) \<Rightarrow>
      if \<not> found \<or> \<not> equal_fold unit ''bytes'' then -1
      else (case str_cut CHR ''/'' rest of (interval, total_text, found) \<Rightarrow>
      if \<not> found \<or> interval \<noteq> ''*'' then -1
      else (case parse_decimal total_text of None \<Rightarrow> -1 | Some n \<Rightarrow> n)))"

section \<open>Decimal numbers\<close>

text \<open>\<open>text\<close> is a spelling of \<open>v\<close> by the grammar of RFC 9110: one digit at least, no sign.\<close>

definition spells :: "string \<Rightarrow> int \<Rightarrow> bool" where
  "spells text v \<longleftrightarrow> text \<noteq> [] \<and> list_all is_digit text \<and> digits_val text = v \<and> v \<le> max_int64"

lemma spells_nonneg: "spells text v \<Longrightarrow> 0 \<le> v"
  using digits_val_nonneg by (auto simp: spells_def)

lemma spells_no: "spells text v \<Longrightarrow> \<not> is_digit c \<Longrightarrow> c \<notin> set text"
  by (auto simp: spells_def dest: not_digit_not_in)

lemma spells_fmt_d: "0 \<le> v \<Longrightarrow> v \<le> max_int64 \<Longrightarrow> spells (fmt_d v) v"
  by (simp add: spells_def fmt_d_nonneg nat_digits_digits)

lemma parse_int_digits:
  assumes "text \<noteq> []" and "list_all is_digit text"
  shows "parse_int text =
    (if digits_val text \<le> max_int64 then (digits_val text, None) else (max_int64, Some ErrRange))"
proof -
  have d: "is_digit (hd text)" using assms by (cases "text") auto
  then have "hd text \<noteq> CHR ''-''" and "hd text \<noteq> CHR ''+''" by (auto simp: is_digit_def)
  with assms show ?thesis
    by (simp add: parse_int_def Let_def parse_uint_def clamp_int_def max_int64_def)
qed

lemma parse_decimal_spells: "parse_decimal text = Some v \<longleftrightarrow> spells text v"
proof (cases "text \<noteq> [] \<and> list_all is_digit text")
  case True
  then show ?thesis
    by (auto simp: parse_decimal_def spells_def parse_int_digits)
next
  case False
  then show ?thesis by (auto simp: parse_decimal_def spells_def)
qed

lemma punct_not_digit [simp]: "\<not> is_digit CHR ''-''" "\<not> is_digit CHR ''/''" "\<not> is_digit CHR '' ''"
  by (simp_all add: is_digit_def)

section \<open>The grammar of Content-Range\<close>

definition range_grammar :: "string \<Rightarrow> content_range \<Rightarrow> bool" where
  "range_grammar s cr \<longleftrightarrow>
     (\<exists>unit a b c.
        s = unit @ CHR '' '' # a @ CHR ''-'' # b @ CHR ''/'' # c \<and>
        CHR '' '' \<notin> set unit \<and> equal_fold unit ''bytes'' \<and>
        spells a (cr_start cr) \<and> spells b (cr_end cr) \<and> spells c (cr_total cr) \<and>
        cr_start cr \<le> cr_end cr \<and> cr_end cr < cr_total cr)"

lemma range_grammar_parsed:
  assumes "range_grammar s cr" shows "parse_content_range s = Some cr"
proof -
  from assms obtain unit a b c where
    s: "s = unit @ CHR '' '' # a @ CHR ''-'' # b @ CHR ''/'' # c"
    and u: "CHR '' '' \<notin> set unit" "equal_fold unit ''bytes''"
    and n: "spells a (cr_start cr)" "spells b (cr_end cr)" "spells c (cr_total cr)"
    and o: "cr_start cr \<le> cr_end cr" "cr_end cr < cr_total cr"
    by (auto simp: range_grammar_def)
  have cut1: "str_cut CHR '' '' s = (unit, (a @ CHR ''-'' # b) @ CHR ''/'' # c, True)"
    using u by (simp add: s str_simps)
  have "CHR ''/'' \<notin> set (a @ CHR ''-'' # b)" using n spells_no by auto
  then have cut2: "str_cut CHR ''/'' ((a @ CHR ''-'' # b) @ CHR ''/'' # c) = (a @ CHR ''-'' # b, c, True)"
    by (rule str_cut_append)
  have cut3: "str_cut CHR ''-'' (a @ CHR ''-'' # b) = (a, b, True)"
    by (rule str_cut_append) (use n spells_no in auto)
  have dec: "parse_decimal a = Some (cr_start cr)" "parse_decimal b = Some (cr_end cr)"
    "parse_decimal c = Some (cr_total cr)" using n by (simp_all add: parse_decimal_spells)
  show ?thesis
    unfolding parse_content_range_def cut1 cut2 cut3 prod.case dec
    using u o spells_nonneg [OF n(1)] by simp
qed

lemma parsed_range_grammar:
  assumes "parse_content_range s = Some cr" shows "range_grammar s cr"
proof -
  obtain unit rest f where c1: "str_cut CHR '' '' s = (unit, rest, f)" by (metis prod_cases3)
  obtain int tot g where c2: "str_cut CHR ''/'' rest = (int, tot, g)" by (metis prod_cases3)
  obtain a b k where c3: "str_cut CHR ''-'' int = (a, b, k)" by (metis prod_cases3)
  from assms have ok: "f" "g" "k" "equal_fold unit ''bytes''"
    "parse_decimal a = Some (cr_start cr)" "parse_decimal b = Some (cr_end cr)"
    "parse_decimal tot = Some (cr_total cr)" "cr_start cr \<le> cr_end cr" "cr_end cr < cr_total cr"
    unfolding parse_content_range_def c1 prod.case c2 c3
    by (auto split: if_splits option.splits)
  from c1 ok have s: "s = unit @ CHR '' '' # rest" "CHR '' '' \<notin> set unit" by (simp_all add: str_cut_found)
  from c2 ok have r: "rest = int @ CHR ''/'' # tot" by (simp add: str_cut_found)
  from c3 ok have i: "int = a @ CHR ''-'' # b" by (simp add: str_cut_found)
  show ?thesis
    unfolding range_grammar_def using s ok
    by (intro exI [of _ unit] exI [of _ a] exI [of _ b] exI [of _ tot])
      (simp add: r i parse_decimal_spells)
qed

text \<open>
  C26. \<open>parseContentRange\<close> is sound and complete: it yields an interval exactly for the
  headers "bytes start-end/total" (the unit in any case) whose three numbers are unsigned
  decimals that fit an \<open>int64\<close> with start <= end < total, and it yields those numbers.
\<close>

theorem parse_content_range_grammar:
  "parse_content_range s = Some cr \<longleftrightarrow> range_grammar s cr"
  using range_grammar_parsed parsed_range_grammar by blast

text \<open>What the parser reads back from the header a server writes.\<close>

lemma parse_content_range_fmt:
  assumes "0 \<le> a" and "a \<le> b" and "b < c" and "c \<le> max_int64"
  shows "parse_content_range (''bytes '' @ fmt_d a @ ''-'' @ fmt_d b @ ''/'' @ fmt_d c)
         = Some \<lparr>cr_start = a, cr_end = b, cr_total = c\<rparr>"
proof (rule range_grammar_parsed)
  show "range_grammar (''bytes '' @ fmt_d a @ ''-'' @ fmt_d b @ ''/'' @ fmt_d c)
          \<lparr>cr_start = a, cr_end = b, cr_total = c\<rparr>"
    unfolding range_grammar_def
    by (intro exI [of _ "''bytes''"] exI [of _ "fmt_d a"] exI [of _ "fmt_d b"] exI [of _ "fmt_d c"])
      (use assms in \<open>simp add: spells_fmt_d\<close>)
qed

lemma parse_content_range_bounds [bound_intros]:
  assumes "parse_content_range s = Some cr"
  shows "0 \<le> cr_start cr" "cr_start cr \<le> cr_end cr" "cr_end cr < cr_total cr"
    "cr_total cr \<le> max_int64"
  using parsed_range_grammar [OF assms] spells_nonneg
  by (auto simp: range_grammar_def) (auto simp: spells_def)

text \<open>
  A 416 response's "bytes */total" yields exactly the total; every other value
  yields -1, so the sign tells the two apart.
\<close>

theorem unsatisfied_range_total_spec:
  "-1 \<le> unsatisfied_range_total s \<and>
   (0 \<le> v \<and> unsatisfied_range_total s = v \<longleftrightarrow>
    (\<exists>unit c. trim_space s = unit @ '' */'' @ c \<and> CHR '' '' \<notin> set unit \<and>
       equal_fold unit ''bytes'' \<and> spells c v))"
proof -
  obtain unit rest f where c1: "str_cut CHR '' '' (trim_space s) = (unit, rest, f)"
    by (metis prod_cases3)
  obtain int tot g where c2: "str_cut CHR ''/'' rest = (int, tot, g)" by (metis prod_cases3)
  have r: "unsatisfied_range_total s =
    (if f \<and> equal_fold unit ''bytes'' \<and> g \<and> int = ''*''
     then (case parse_decimal tot of None \<Rightarrow> -1 | Some n \<Rightarrow> n) else -1)"
    unfolding unsatisfied_range_total_def c1 prod.case c2 by simp
  have low: "-1 \<le> unsatisfied_range_total s"
    using spells_nonneg by (fastforce simp: r parse_decimal_spells split: option.split)
  have fwd: "\<exists>unit c. trim_space s = unit @ '' */'' @ c \<and> CHR '' '' \<notin> set unit \<and>
      equal_fold unit ''bytes'' \<and> spells c v" if "0 \<le> v" and "unsatisfied_range_total s = v"
  proof -
    from that r have ok: "f" "equal_fold unit ''bytes''" "g" "int = ''*''" "parse_decimal tot = Some v"
      by (auto split: if_splits option.splits)
    with c1 c2 have "trim_space s = unit @ '' */'' @ tot" "CHR '' '' \<notin> set unit"
      by (simp_all add: str_cut_found)
    with ok show ?thesis by (auto simp: parse_decimal_spells)
  qed
  have bwd: "0 \<le> v \<and> unsatisfied_range_total s = v"
    if h: "trim_space s = u @ '' */'' @ c" "CHR '' '' \<notin> set u" "equal_fold u ''bytes''" "spells c v" for u c
  proof -
    have "str_cut CHR '' '' (trim_space s) = (u, ''*/'' @ c, True)"
      unfolding h(1) using h(2) str_cut_append [of "CHR '' ''" u "''*/'' @ c"] by simp
    with c1 have u: "unit = u" "rest = ''*/'' @ c" "f" by simp_all
    moreover have "str_cut CHR ''/'' (''*/'' @ c) = (''*'', c, True)" by simp
    ultimately have "int = ''*''" "tot = c" "g" using c2 by simp_all
    with u h r spells_nonneg [OF h(4)] show ?thesis
      by (simp add: parse_decimal_spells [THEN iffD2])
  qed
  from low fwd bwd show ?thesis by blast
qed

section \<open>A resolved Location\<close>

definition http_scheme :: "string \<Rightarrow> bool" where
  "http_scheme s \<longleftrightarrow> s = ''http'' \<or> s = ''https''"

text \<open>
  C27. An accepted \<open>Location\<close> is an absolute http or https URL with a host and no fragment; it
  never leaves https for http, and when the request URL has no user information neither does
  the resolved one. Every refusal matches \<open>errInvalidLocation\<close>.
\<close>

theorem resolve_location_safe:
  "(case resolve_location base location of
      Inl e \<Rightarrow> errors_is e (Internal ErrInvalidLocation)
    | Inr u \<Rightarrow> http_scheme (u_scheme u) \<and> hostname u \<noteq> [] \<and> u_fragment u = [] \<and>
        (\<exists>b. base = Some b \<and> \<not> (equal_fold (u_scheme b) ''https'' \<and> u_scheme u \<noteq> ''https'') \<and>
             (u_user u = None \<or> u_user u = u_user b)))"
proof -
  have bad: "errors_is (invalid_location why) (Internal ErrInvalidLocation)" for why
    by (simp add: invalid_location_def errors_is_def)
  have user: "u_user (resolve_reference b ref) = None \<or> u_user (resolve_reference b ref) = u_user b"
    if "u_user ref = None" for b ref
    using that by (simp add: resolve_reference_def Let_def)
  show ?thesis
    using bad user
    by (auto simp: resolve_location_def Let_def http_scheme_def registry_scheme_http_def
        registry_scheme_https_def hostname_def split: option.split)
qed

end
