(* ===== verification/Retry.thy ===== *)
theory Retry
  imports Client Attempts Wire
begin

text \<open>
  The request loop of retry.go: \<open>doRetry\<close> with its attempt, its waits and the classification of
  a canceled operation.
\<close>

section \<open>Canceled operations\<close>

definition retry_canceled_error :: "goerr \<Rightarrow> goerr option \<Rightarrow> goerr" where
  "retry_canceled_error cancel last_err =
     (case last_err of
        Some e \<Rightarrow> TerminalErr (Wrapf (''retry canceled: '' @ err_text cancel @ '' (last attempt: ''
                    @ err_text e @ '')'') [cancel, e])
      | None \<Rightarrow> TerminalErr (wrapf ''retry canceled'' cancel))"

definition context_operation_error :: "env \<Rightarrow> goerr \<Rightarrow> history \<Rightarrow> goerr \<times> history" where
  "context_operation_error E op h =
     (case ctx_err E h of
        (Some e, h') \<Rightarrow>
          (TerminalErr (Wrapf (err_text e @ '' (operation failed with: '' @ err_text op @ '')'') [e, op]), h')
      | (None, h') \<Rightarrow> (op, h'))"

section \<open>One attempt\<close>

record retry_attempt_result =
  rr_response :: "response option"
  rr_after :: int
  rr_retry :: bool
  rr_err :: "goerr option"

definition failed_attempt :: "goerr \<Rightarrow> bool \<Rightarrow> retry_attempt_result" where
  "failed_attempt e again = \<lparr>rr_response = None, rr_after = 0, rr_retry = again, rr_err = Some e\<rparr>"

text \<open>
  \<open>doRetryAttempt\<close>; the request builder is a closure with a state of its own, and \<open>final\<close> says
  that this is the last attempt.
\<close>

definition do_retry_attempt ::
    "env \<Rightarrow> client \<Rightarrow> ('a \<Rightarrow> (goerr + request) \<times> 'a) \<Rightarrow> bool \<Rightarrow> 'a \<Rightarrow> history
      \<Rightarrow> retry_attempt_result \<times> 'a \<times> history" where
  "do_retry_attempt E c build final a h =
     (case build a of
        (Inl e, a1) \<Rightarrow> (failed_attempt e False, a1, h)
      | (Inr req, a1) \<Rightarrow>
        (case do_registry_request E (cl_write_redirects c) no_body req () h of
           (Inl e, _, h1) \<Rightarrow>
             (case ctx_err E h1 of
                (Some _, h2) \<Rightarrow>
                  (case context_operation_error E e h2 of (e', h3) \<Rightarrow> (failed_attempt e' False, a1, h3))
              | (None, h2) \<Rightarrow>
                  if \<not> retryable_request_error e \<or> final then
                    (failed_attempt (if retryable_request_error e then RetryableErr e 0 else e) False, a1, h2)
                  else (failed_attempt e True, a1, h2))
         | (Inr resp, _, h1) \<Rightarrow>
             if \<not> retryable_status (rs_status resp) \<or> final then
               (\<lparr>rr_response = Some resp, rr_after = 0, rr_retry = False, rr_err = None\<rparr>, a1, h1)
             else
               (case now E h1 of (t, h2) \<Rightarrow>
                  (\<lparr>rr_response = None,
                    rr_after = retry_after_delay E (header_get (rs_header resp) ''Retry-After'') t,
                    rr_retry = True, rr_err = None\<rparr>,
                   a1, drain_and_close (rs_body resp) h2))))"

definition retry_outcome :: "retry_attempt_result \<Rightarrow> goerr + response" where
  "retry_outcome r =
     (case rr_err r of
        Some e \<Rightarrow> Inl e
      | None \<Rightarrow> (case rr_response r of Some resp \<Rightarrow> Inr resp | None \<Rightarrow> Inl (Text [])))"

section \<open>The loop\<close>

definition max_attempts :: "client \<Rightarrow> nat" where
  "max_attempts c = nat (attempts (cl_retry c))"

text \<open>The wait after failed attempt \<open>k\<close>.\<close>

definition retry_wait :: "env \<Rightarrow> client \<Rightarrow> nat \<Rightarrow> int \<Rightarrow> history \<Rightarrow> goerr option \<times> history" where
  "retry_wait E c k after h =
     (case backoff_delay E (cl_retry c) k after h of (d, h1) \<Rightarrow> sleep_context E d h1)"

definition retry_turn ::
    "env \<Rightarrow> client \<Rightarrow> ('a \<Rightarrow> (goerr + request) \<times> 'a) \<Rightarrow> nat \<Rightarrow> 'a \<times> history
      \<Rightarrow> ((goerr + response) \<times> 'a \<times> history) + ('a \<times> history)" where
  "retry_turn E c build k s =
     (case s of (a, h) \<Rightarrow>
     (case ctx_err E h of
        (Some e, h1) \<Rightarrow> Inl (Inl e, a, h1)
      | (None, h1) \<Rightarrow>
        (case do_retry_attempt E c build (k = max_attempts c) a h1 of
           (r, a1, h2) \<Rightarrow>
             if \<not> rr_retry r then Inl (retry_outcome r, a1, h2)
             else
               (case retry_wait E c k (rr_after r) h2 of
                  (Some e, h3) \<Rightarrow> Inl (Inl (retry_canceled_error e (rr_err r)), a1, h3)
                | (None, h3) \<Rightarrow> Inr (a1, h3)))))"

definition do_retry ::
    "env \<Rightarrow> client \<Rightarrow> ('a \<Rightarrow> (goerr + request) \<times> 'a) \<Rightarrow> 'a \<Rightarrow> history
      \<Rightarrow> (goerr + response) \<times> 'a \<times> history" where
  "do_retry E c build a h =
     the (attempt_loop (retry_turn E c build) (max_attempts c) 1 (a, h))"

section \<open>Facts on one turn\<close>

lemma max_attempts_pos [simp]: "0 < max_attempts c"
  by (simp add: max_attempts_def attempts_def)

text \<open>What the single request of an attempt does to the history.\<close>

lemma registry_request_sent:
  assumes "do_registry_request E allow no_body req b h = (out, b', h')"
  shows "length (sent h) < length (sent h') \<and> length (sent h') \<le> length (sent h) + 10"
proof -
  obtain out' where
    "client_do E allow no_body (with_registry_origin req (Some (rq_url req))) b h = (out', b', h')"
    using assms do_registry_request_do by metis
  from client_do_sent [OF quiet_no_body this] show ?thesis
    by (auto simp: chain_ok_def max_redirects_def)
qed

lemmas attempt_defs = do_retry_attempt_def failed_attempt_def context_operation_error_def

lemma retry_wait_sent: "retry_wait E c k after h = (r, h') \<Longrightarrow> sent h' = sent h"
  by (auto simp: retry_wait_def backoff_delay_def env_simps split: if_splits)

lemma settled_wait:
  assumes "settled E k h h1" and "retry_wait E c j after h1 = (r, h2)"
  shows "settled E k h h2"
  using assms
  by (auto simp: retry_wait_def backoff_delay_def rand_n_def sleep_context_def ctx_err_def
      intro!: settled_event split: if_splits prod.splits)

definition rr_kept :: "retry_attempt_result \<Rightarrow> nat set" where
  "rr_kept r = (case rr_response r of Some resp \<Rightarrow> {rs_body resp} | None \<Rightarrow> {})"

lemma attempt_settled:
  assumes "do_retry_attempt E c build final a h = (r, a', h')"
  shows "settled E (rr_kept r) h h'"
proof (cases "build a")
  case (Pair b a1)
  show ?thesis
  proof (cases b)
    case (Inl e)
    with assms Pair show ?thesis by (simp add: attempt_defs rr_kept_def)
  next
    case (Inr req)
    obtain out h1 where run: "do_registry_request E (cl_write_redirects c) no_body req () h = (out, (), h1)"
      by (metis (full_types) prod_cases3 old.unit.exhaust)
    have s: "settled E (kept out) h h1"
      by (rule settled_registry_request [OF settling_no_body run])
    show ?thesis
      using assms Pair Inr run s
      by (cases out)
        (auto simp: attempt_defs rr_kept_def ctx_err_def now_def drain_and_close_def body_close_def
          body_drain_def intro: settled_event settled_close split: option.splits if_splits)
  qed
qed

lemma attempt_sent:
  assumes "do_retry_attempt E c build final a h = (r, a', h')"
  shows "length (sent h') \<le> length (sent h) + 10 \<and>
    (rr_retry r \<or> rr_response r \<noteq> None \<longrightarrow> length (sent h) < length (sent h'))"
proof (cases "build a")
  case (Pair b a2)
  show ?thesis
  proof (cases b)
    case (Inl e)
    with assms Pair show ?thesis by (auto simp: attempt_defs)
  next
    case (Inr req)
    obtain out h1 where run: "do_registry_request E (cl_write_redirects c) no_body req () h = (out, (), h1)"
      by (metis (full_types) prod_cases3 old.unit.exhaust)
    note n = registry_request_sent [OF run]
    show ?thesis
      using assms Pair Inr run n
      by (cases out) (auto simp: attempt_defs env_simps split: option.splits if_splits)
  qed
qed

lemma attempt_last: "do_retry_attempt E c build True a h = (r, a', h') \<Longrightarrow> \<not> rr_retry r"
  by (auto simp: attempt_defs split: prod.splits sum.splits option.splits if_splits)

section \<open>The loop is a bounded, settling, paying attempt loop\<close>

definition result_kept :: "(goerr + response) \<times> 'a \<times> history \<Rightarrow> nat set" where
  "result_kept q = (case q of (out, _) \<Rightarrow> kept out)"

lemma retry_outcome_kept: "kept (retry_outcome r) \<subseteq> rr_kept r"
  by (auto simp: retry_outcome_def rr_kept_def split: option.splits)

lemma attempt_kept_retry:
  "do_retry_attempt E c build final a h = (r, a', h') \<Longrightarrow> rr_retry r \<Longrightarrow> rr_kept r = {}"
  by (auto simp: attempt_defs rr_kept_def split: prod.splits sum.splits option.splits if_splits)

lemma attempt_kept_error:
  "do_retry_attempt E c build final a h = (r, a', h') \<Longrightarrow> \<not> rr_retry r \<Longrightarrow>
   rr_kept r = kept (retry_outcome r)"
  by (auto simp: attempt_defs rr_kept_def retry_outcome_def
      split: prod.splits sum.splits option.splits if_splits)

text \<open>The shape of a turn that goes on, and of one that leaves the loop.\<close>

lemma retry_turn_on:
  assumes "retry_turn E c build k (a, h) = Inr (a', h')"
  shows "\<exists>r h1 h2. ctx_err E h = (None, h1) \<and>
    do_retry_attempt E c build (k = max_attempts c) a h1 = (r, a', h2) \<and> rr_retry r \<and>
    retry_wait E c k (rr_after r) h2 = (None, h')"
  using assms by (auto simp: retry_turn_def split: prod.splits option.splits if_splits)

lemma retry_turn_off:
  assumes "retry_turn E c build k (a, h) = Inl (out, a', h')"
  obtains
    (canceled) e where "ctx_err E h = (Some e, h')" "out = Inl e" "a' = a"
  | (finished) r h1 where "ctx_err E h = (None, h1)" "\<not> rr_retry r" "out = retry_outcome r"
      "do_retry_attempt E c build (k = max_attempts c) a h1 = (r, a', h')"
  | (interrupted) r h1 h2 e where "ctx_err E h = (None, h1)" "rr_retry r"
      "do_retry_attempt E c build (k = max_attempts c) a h1 = (r, a', h2)"
      "retry_wait E c k (rr_after r) h2 = (Some e, h')" "out = Inl (retry_canceled_error e (rr_err r))"
  using assms by (auto simp: retry_turn_def split: prod.splits option.splits if_splits)

lemma settled_ctx: "ctx_err E h = (r, h1) \<Longrightarrow> settled E {} h h1"
  by (auto simp: ctx_err_def intro: settled_event)

lemma sent_ctx: "ctx_err E h = (r, h1) \<Longrightarrow> sent h1 = sent h"
  by (auto simp: ctx_err_def)

lemma settled_operation_error:
  "settled E k h h1 \<Longrightarrow> context_operation_error E e h1 = (e', h2) \<Longrightarrow> settled E k h h2"
  by (auto simp: context_operation_error_def ctx_err_def intro: settled_event split: option.splits)

interpretation retry_loop: paying_attempts
  "retry_turn E c build" "max_attempts c" E snd "\<lambda>q. snd (snd q)" result_kept 10
  for E :: env and c :: client and build :: "'a \<Rightarrow> (goerr + request) \<times> 'a"
proof unfold_locales
  fix s s' :: "'a \<times> history" and k and q :: "(goerr + response) \<times> 'a \<times> history"
  obtain a h a' h' out b h2 where s: "s = (a, h)" and s': "s' = (a', h')" and q: "q = (out, b, h2)"
    by (metis prod_cases3 surj_pair)
  show "retry_turn E c build (max_attempts c) s \<noteq> Inr s'"
    using retry_turn_on attempt_last by (fastforce simp: s s')
  show "0 < max_attempts c" by simp
  {
    assume t: "retry_turn E c build k s = Inr s'"
    from retry_turn_on [OF t [unfolded s s']] obtain r h1 h3 where
      w: "ctx_err E h = (None, h1)" "do_retry_attempt E c build (k = max_attempts c) a h1 = (r, a', h3)"
        "rr_retry r" "retry_wait E c k (rr_after r) h3 = (None, h')" by blast
    have "settled E {} h h3"
      using settled_trans [OF settled_ctx [OF w(1)] attempt_settled [OF w(2)]]
        attempt_kept_retry [OF w(2,3)] by simp
    from settled_wait [OF this w(4)] show "settled E {} (snd s) (snd s')" by (simp add: s s')
    show "length (sent (snd s)) < length (sent (snd s'))"
      and "length (sent (snd s')) \<le> length (sent (snd s)) + 10"
      using attempt_sent [OF w(2)] w(3) retry_wait_sent [OF w(4)] sent_ctx [OF w(1)] by (simp_all add: s s')
  }
  assume t: "retry_turn E c build k s = Inl q"
  from t [unfolded s q] have "settled E (kept out) h h2 \<and> length (sent h2) \<le> length (sent h) + 10"
  proof (cases rule: retry_turn_off)
    case (canceled e)
    then show ?thesis using settled_ctx [of E h] sent_ctx [of E h] by (auto simp: settled_mono)
  next
    case (finished r h1)
    then show ?thesis
      using settled_trans [OF settled_ctx [OF finished(1)] attempt_settled [OF finished(4)]]
        attempt_kept_error [OF finished(4,2)] attempt_sent [OF finished(4)] sent_ctx [OF finished(1)] by simp
  next
    case (interrupted r h1 h3 e)
    have "settled E {} h h3"
      using settled_trans [OF settled_ctx [OF interrupted(1)] attempt_settled [OF interrupted(3)]]
        attempt_kept_retry [OF interrupted(3,2)] by simp
    from settled_wait [OF this interrupted(4)] interrupted attempt_sent [OF interrupted(3)]
      retry_wait_sent [OF interrupted(4)] sent_ctx [OF interrupted(1)]
    show ?thesis by simp
  qed
  then show "settled E (result_kept q) (snd s) (snd (snd q))"
    and "length (sent (snd (snd q))) \<le> length (sent (snd s)) + 10"
    by (simp_all add: s q result_kept_def)
qed

lemma do_retry_loop:
  "do_retry E c build a h = q \<longleftrightarrow> attempt_loop (retry_turn E c build) (max_attempts c) 1 (a, h) = Some q"
  using retry_loop.loop_total [of E c build "(a, h)"] by (auto simp: do_retry_def)

lemma do_retry_settled_run:
  assumes "do_retry E c build a h = (out, a', h')"
  shows "settled E (kept out) h h'"
  using retry_loop.loop_settled [OF assms [unfolded do_retry_loop]] by (simp add: result_kept_def)

text \<open>
  C22. \<open>doRetry\<close> keeps the house in order: every response body received in any attempt,
  intermediate redirects included, has been closed when it returns, except the body of the
  response it hands to its caller; and every request of every attempt went through the
  transport its URL and origin call for, to storage without credential headers.
\<close>

theorem do_retry_settled:
  "case do_retry E c build a h of (out, a', h') \<Rightarrow> settled E (kept out) h h'"
  using do_retry_settled_run [of E c build a h] by (simp split: prod.split)

section \<open>Bounds and final outcomes\<close>

definition plain_builder :: "('a \<Rightarrow> (goerr + request) \<times> 'a) \<Rightarrow> bool" where
  "plain_builder build \<longleftrightarrow> (\<forall>a e a'. build a = (Inl e, a') \<longrightarrow> \<not> is_marked e)"

text \<open>Outcomes that a further attempt might have mended.\<close>

definition mendable :: "goerr + response \<Rightarrow> bool" where
  "mendable out \<longleftrightarrow>
     (case out of Inl e \<Rightarrow> is_marked e | Inr resp \<Rightarrow> retryable_status (rs_status resp))"

lemma attempt_mendable:
  assumes "do_retry_attempt E c build final a h = (r, a', h')" and "plain_builder build"
    and "\<not> rr_retry r" and "mendable (retry_outcome r)"
  shows "final \<and> length (sent h) < length (sent h')"
proof (cases "build a")
  case (Pair b a2)
  show ?thesis
  proof (cases b)
    case (Inl e)
    with assms(2) Pair have "\<not> is_marked e" unfolding plain_builder_def by blast
    with assms Pair Inl show ?thesis
      by (auto simp: attempt_defs retry_outcome_def mendable_def)
  next
    case (Inr req)
    obtain out h1 where run: "do_registry_request E (cl_write_redirects c) no_body req () h = (out, (), h1)"
      by (metis (full_types) prod_cases3 old.unit.exhaust)
    note n = registry_request_sent [OF run]
    show ?thesis
    proof (cases out)
      case (Inl e)
      with run have "\<not> is_marked e"
        by (auto simp: do_registry_request_def is_marked_def split: prod.splits sum.splits)
      with assms Pair Inr run n Inl show ?thesis
        by (auto simp: attempt_defs env_simps retry_outcome_def mendable_def is_marked_def
            split: option.splits if_splits)
    next
      case (Inr resp)
      with assms Pair \<open>b = Inr req\<close> run n show ?thesis
        by (auto simp: attempt_defs env_simps retry_outcome_def mendable_def split: if_splits)
    qed
  qed
qed

lemma turn_mendable:
  assumes "retry_turn E c build k s = Inl (out, a', h')" and "plain_builder build"
    and "ctx_contract E" and "mendable out"
  shows "k = max_attempts c \<and> length (sent (snd s)) < length (sent h')"
proof -
  obtain a h where s: "s = (a, h)" by (metis surj_pair)
  from assms(1) [unfolded s] show ?thesis
  proof (cases rule: retry_turn_off)
    case (canceled e)
    with assms(3,4) ctx_contract_kind [of E h e] show ?thesis
      by (auto simp: mendable_def is_marked_def ctx_err_def)
  next
    case (finished r h1)
    with attempt_mendable [OF finished(4) assms(2) finished(2)] assms(4) sent_ctx [OF finished(1)] show ?thesis
      by (simp add: s)
  next
    case (interrupted r h1 h2 e)
    with assms(4) show ?thesis
      by (simp add: mendable_def retry_canceled_error_def is_marked_def split: option.splits)
  qed
qed

text \<open>
  C9. The retry budget: an operation sends at most ten requests (the redirect limit) for each
  of its \<open>MaxAttempts\<close> attempts, and an outcome that another attempt might have mended (a 429
  or 5xx response, or a transport failure marked retryable) is returned only after a request
  was sent in every attempt.
\<close>

theorem do_retry_budget:
  assumes "do_retry E c build a h = (out, a', h')" and "plain_builder build" and "ctx_contract E"
  shows "length (sent h') \<le> length (sent h) + max_attempts c * 10 \<and>
    (mendable out \<longrightarrow> length (sent h) + max_attempts c \<le> length (sent h'))"
proof -
  note run = assms(1) [unfolded do_retry_loop]
  have "length (sent h) + max_attempts c \<le> length (sent h')" if "mendable out"
    using retry_loop.loop_last_only [OF run] turn_mendable [OF _ assms(2,3) that] by simp
  with retry_loop.loop_price [OF run] show ?thesis by simp
qed

section \<open>Cancellation\<close>

text \<open>A builder whose own errors are not retryable, as all builders of the package are.\<close>

definition terminal_builder :: "('a \<Rightarrow> (goerr + request) \<times> 'a) \<Rightarrow> bool" where
  "terminal_builder build \<longleftrightarrow>
     (\<forall>a e a'. build a = (Inl e, a') \<longrightarrow> retryable (Some e) = (0, False))"

lemma retry_canceled_terminal: "retryable (Some (retry_canceled_error e le)) = (0, False)"
  by (simp add: retry_canceled_error_def retryable_Terminal split: option.split)

lemma extends_registry_request:
  "do_registry_request E allow no_body req b h = (out, b', h') \<Longrightarrow> extends h h'"
  using settled_registry_request [OF settling_no_body] by (auto simp: settled_def)

text \<open>An attempt that fails while its context is live all along is the only retryable failure.\<close>

lemma attempt_canceled:
  assumes "do_retry_attempt E c build final a h = (r, a', h')" and "ctx_contract E"
    and "terminal_builder build" and "\<not> rr_retry r" and "retry_outcome r = Inl e"
    and "retryable (Some e) \<noteq> (0, False)" and "extends h0 h'" and "h0 \<noteq> h'"
  shows "en_ctx E h0 = None"
proof (cases "build a")
  case (Pair b a2)
  show ?thesis
  proof (cases b)
    case (Inl e')
    from assms(3) Pair Inl have "retryable (Some e') = (0, False)"
      unfolding terminal_builder_def by blast
    with assms(1,5,6) Pair Inl show ?thesis by (auto simp: attempt_defs retry_outcome_def)
  next
    case (Inr req)
    obtain out h1 where run: "do_registry_request E (cl_write_redirects c) no_body req () h = (out, (), h1)"
      by (metis (full_types) prod_cases3 old.unit.exhaust)
    show ?thesis
    proof (cases out)
      case (Inl e')
      have "en_ctx E h1 = None \<and> h' = EvCtx # h1"
      proof (cases "en_ctx E h1")
        case (Some ce)
        with assms(2) have "en_ctx E (EvCtx # h1) = Some ce"
          by (auto intro: ctx_contract_stays)
        with assms(1,5,6) Pair Inr run Inl Some show ?thesis
          by (auto simp: attempt_defs ctx_err_def retry_outcome_def retryable_Terminal)
      next
        case None
        with assms(1,4) Pair Inr run Inl show ?thesis
          by (auto simp: attempt_defs ctx_err_def split: if_splits)
      qed
      then have live: "en_ctx E h1 = None" and "extends h0 h1"
        using assms(7,8) extends_strict [of h0 EvCtx h1] by simp_all
      then show ?thesis using ctx_contract_stays [OF assms(2), of h0 _ h1] by (cases "en_ctx E h0") auto
    next
      case (Inr resp)
      with assms(1,5) Pair \<open>b = Inr req\<close> run assms(4) show ?thesis
        by (auto simp: attempt_defs now_def retry_outcome_def split: if_splits)
    qed
  qed
qed

text \<open>
  C23. Cancellation is final: if the caller's context was done at any point before the last
  step of a \<open>doRetry\<close> that fails, the error returned is never classified as retryable, whatever
  the transport reported when it was interrupted.
\<close>

theorem do_retry_canceled:
  assumes "do_retry E c build a h = (Inl e, a', h')" and "ctx_contract E"
    and "terminal_builder build" and "extends h0 h'" and "h0 \<noteq> h'" and "en_ctx E h0 \<noteq> None"
  shows "retryable (Some e) = (0, False)"
proof (rule retry_loop.loop_rule [OF assms(1) [unfolded do_retry_loop], of "\<lambda>_ _. True"
      "\<lambda>q. q = (Inl e, a', h') \<longrightarrow> retryable (Some e) = (0, False)", THEN mp])
  fix j t q
  assume t: "retry_turn E c build j t = Inl q"
  show "q = (Inl e, a', h') \<longrightarrow> retryable (Some e) = (0, False)"
  proof
    assume q: "q = (Inl e, a', h')"
    obtain b g where s: "t = (b, g)" by (metis surj_pair)
    from t [unfolded s q] show "retryable (Some e) = (0, False)"
    proof (cases rule: retry_turn_off)
      case (canceled e')
      then show ?thesis using ctx_not_retryable [OF assms(2), of g e] by (simp add: ctx_err_def)
    next
      case (finished r h1)
      with attempt_canceled [OF finished(4) assms(2,3) finished(2) _ _ assms(4,5)] assms(6)
      show ?thesis by metis
    next
      case (interrupted r h1 h2 e')
      then show ?thesis by (simp add: retry_canceled_terminal)
    qed
  qed
qed simp_all

section \<open>A registry that recovers\<close>

text \<open>The registry answers the first two requests with 503, then 200; the context never ends.\<close>

definition flaky_env :: env where
  "flaky_env = quiet_env\<lparr>en_trip :=
     (\<lambda>side h req. if length (sent h) < 2 then Reply 503 [] 0 else Reply 200 [] 0)\<rparr>"

definition sample_client :: client where
  "sample_client = new_client (OtherTransport 0) []"

definition sample_build :: "unit \<Rightarrow> (goerr + request) \<times> unit" where
  "sample_build u = (Inr (sample_request ''GET''), u)"

definition flaky_run :: "(goerr + response) \<times> unit \<times> history" where
  "flaky_run = do_retry flaky_env sample_client sample_build () []"

lemma flaky_contract: "ctx_contract flaky_env"
  by (simp add: ctx_contract_def flaky_env_def quiet_env_def)

lemma flaky_facts:
  "map_sum (\<lambda>e. ()) rs_status (fst flaky_run) = Inr 200"
  "length (sent (snd (snd flaky_run))) = 3"
  "opened flaky_env (snd (snd flaky_run)) = [15, 8, 1]"
  "map_sum (\<lambda>e. ()) rs_body (fst flaky_run) = Inr 15"
  by code_simp+

lemma do_retry_budget_witness:
  "length (sent (snd (snd flaky_run))) = 3 \<and> length (sent (snd (snd flaky_run))) \<le> 40"
proof -
  obtain out a' h' where run: "do_retry flaky_env sample_client sample_build () [] = (out, a', h')"
    by (metis prod_cases3)
  have "plain_builder sample_build" by (simp add: plain_builder_def sample_build_def)
  moreover have "max_attempts sample_client = 4" by code_simp
  ultimately show ?thesis
    using do_retry_budget [OF run _ flaky_contract] flaky_facts(2) by (simp add: flaky_run_def run)
qed

text \<open>The context ends while the first request is in flight.\<close>

definition canceled_env :: env where
  "canceled_env = flaky_env\<lparr>en_trip := (\<lambda>side h req. Fail (Opaque 1)),
     en_ctx := (\<lambda>h. if sent h = [] then None else Some (Internal CtxCanceled))\<rparr>"

lemma canceled_contract: "ctx_contract canceled_env"
  by (auto simp: ctx_contract_def canceled_env_def extends_def)

lemma do_retry_canceled_witness:
  "\<exists>e h'. do_retry canceled_env sample_client sample_build () [] = (Inl e, (), h') \<and>
     retryable (Some e) = (0, False)"
proof -
  obtain out a' h' where run: "do_retry canceled_env sample_client sample_build () [] = (out, a', h')"
    by (metis prod_cases3)
  have "map_sum (\<lambda>e. ()) rs_body (fst (do_retry canceled_env sample_client sample_build () [])) = Inl ()"
    by code_simp
  then obtain e where e: "out = Inl e" by (cases out) (auto simp: run)
  have "length (snd (snd (do_retry canceled_env sample_client sample_build () []))) = 4"
    "length (sent (tl (snd (snd (do_retry canceled_env sample_client sample_build () []))))) = 1"
    by code_simp+
  then have h: "h' \<noteq> []" "sent (tl h') \<noteq> []" by (auto simp: run)
  then have "extends (tl h') h'" "tl h' \<noteq> h'" by (cases h'; simp add: extends_def)+
  moreover have "en_ctx canceled_env (tl h') \<noteq> None" using h by (simp add: canceled_env_def)
  moreover have "terminal_builder sample_build" by (simp add: terminal_builder_def sample_build_def)
  ultimately have "retryable (Some e) = (0, False)"
    using do_retry_canceled [OF run [unfolded e] canceled_contract] by blast
  then show ?thesis using run e by simp
qed

end
