(* ===== verification/Session.thy ===== *)
theory Session
  imports Retry
begin

text \<open>
  The upload session of push.go, opened by a POST and abandoned by a DELETE, and the two
  operations that move no bytes: \<open>Exists\<close> (exists.go) and \<open>Mount\<close> (mount.go).
\<close>

section \<open>Upload sessions\<close>

record upload_session =
  us_url :: url
  us_registry :: url
  us_min_chunk :: int

definition uploads_url :: "string \<Rightarrow> repository \<Rightarrow> url" where
  "uploads_url scheme repo =
     empty_url\<lparr>u_scheme := scheme, u_host := repo_host repo,
       u_path := escape EncPath (''/v2/'' @ repo_name repo @ ''/blobs/uploads/'')\<rparr>"

definition cancel_upload_session :: "env \<Rightarrow> client \<Rightarrow> upload_session \<Rightarrow> history \<Rightarrow> goerr option \<times> history" where
  "cancel_upload_session E c session h =
     (case ctx_err E h of
        (Some e, h1) \<Rightarrow> (Some (wrapf ''canceling upload session'' e), h1)
      | (None, h1) \<Rightarrow>
        (case new_request ''DELETE'' (us_url session) of
           Inl e \<Rightarrow> (Some (wrapf ''building upload-session cancellation request'' e), h1)
         | Inr req \<Rightarrow>
           (case do_location_request E (cl_write_redirects c) no_body req (Some (us_registry session)) () h1 of
              (Inl e, _, h2) \<Rightarrow> (Some (wrapf ''canceling upload session'' e), h2)
            | (Inr resp, _, h2) \<Rightarrow>
                if rs_status resp \<noteq> 204 \<and> rs_status resp \<noteq> 404 then
                  (case interpret_error E resp h2 of
                     (e, h3) \<Rightarrow> (Some (wrapf ''canceling upload session'' e), body_close (rs_body resp) h3))
                else (None, body_close (rs_body resp) (body_drain (rs_body resp) h2)))))"

text \<open>
  \<open>openSession\<close>; \<open>algorithm\<close> is the digest algorithm a chunked upload announces, empty for
  a monolithic one.
\<close>

definition session_url :: "string \<Rightarrow> repository \<Rightarrow> string \<Rightarrow> url" where
  "session_url scheme repo algorithm =
     (if algorithm \<noteq> [] \<and> algorithm \<noteq> ''sha256''
      then (uploads_url scheme repo)\<lparr>u_raw_query := ''digest-algorithm='' @ query_escape algorithm\<rparr>
      else uploads_url scheme repo)"

definition open_session ::
    "env \<Rightarrow> client \<Rightarrow> repository \<Rightarrow> string \<Rightarrow> history \<Rightarrow> (bool \<times> goerr + upload_session) \<times> history" where
  "open_session E c repo algorithm h =
     (let target = session_url (client_scheme c) repo algorithm in
      case new_request ''POST'' target of
        Inl e \<Rightarrow> (Inl (False, wrapf ''building session request'' e), h)
      | Inr req \<Rightarrow>
        (case do_registry_request E (cl_write_redirects c) no_body req () h of
           (Inl e, _, h1) \<Rightarrow> (Inl (retryable_request_error e, wrapf ''starting upload session'' e), h1)
         | (Inr resp, _, h1) \<Rightarrow>
             if rs_status resp \<noteq> 202 then
               (case interpret_error E resp h1 of
                  (e, h2) \<Rightarrow> (Inl (retryable_registry_status e, wrapf ''starting upload session'' e),
                              body_close (rs_body resp) h2))
             else
               let h2 = drain_and_close (rs_body resp) h1 in
               (case resolve_location (response_request_url resp (Some target))
                       (header_get (rs_header resp) ''Location'') of
                  Inl e \<Rightarrow> (Inl (False, wrapf ''starting upload session'' e), h2)
                | Inr u \<Rightarrow>
                    (Inr \<lparr>us_url = u, us_registry = target,
                          us_min_chunk = fst (parse_int (header_get (rs_header resp) ''Oci-Chunk-Min-Length''))\<rparr>,
                     h2))))"

section \<open>Exists\<close>

definition exists_build :: "client \<Rightarrow> repository \<Rightarrow> string \<Rightarrow> unit \<Rightarrow> (goerr + request) \<times> unit" where
  "exists_build c repo dgst u =
     (case new_request ''HEAD'' (blob_url (client_scheme c) repo dgst) of
        Inl e \<Rightarrow> (Inl (wrapf ''building existence request'' e), u)
      | Inr req \<Rightarrow> (Inr req, u))"

definition blob_exists ::
    "env \<Rightarrow> (string \<Rightarrow> goerr option) \<Rightarrow> client \<Rightarrow> repository \<Rightarrow> string \<Rightarrow> history
      \<Rightarrow> (goerr + bool) \<times> history" where
  "blob_exists E digest_check c repo dgst h =
     (case validate_target digest_check repo dgst of
        Some e \<Rightarrow> (Inl e, h)
      | None \<Rightarrow>
        (case do_retry E c (exists_build c repo dgst) () h of
           (Inl e, _, h1) \<Rightarrow> (Inl (wrapf ''checking blob existence'' e), h1)
         | (Inr resp, _, h1) \<Rightarrow>
             if rs_status resp = 200 then (Inr True, body_close (rs_body resp) h1)
             else if rs_status resp = 404 then (Inr False, body_close (rs_body resp) h1)
             else
               (case interpret_error E resp h1 of
                  (e, h2) \<Rightarrow>
                    (Inl (wrapf (''checking blob '' @ dgst @ '' in '' @ repo_host repo @ ''/'' @ repo_name repo) e),
                     body_close (rs_body resp) h2))))"

section \<open>Mount\<close>

definition mount_target :: "client \<Rightarrow> repository \<Rightarrow> repository \<Rightarrow> string \<Rightarrow> url" where
  "mount_target c dst src dgst =
     (uploads_url (client_scheme c) dst)\<lparr>u_raw_query :=
        ''from='' @ query_escape (repo_name src) @ ''&mount='' @ query_escape dgst\<rparr>"

definition mount_label :: "repository \<Rightarrow> repository \<Rightarrow> string \<Rightarrow> string" where
  "mount_label dst src dgst =
     ''mounting blob '' @ dgst @ '' from '' @ repo_name src @ '' into '' @ repo_name dst
       @ '' on '' @ repo_host dst"

text \<open>The checks before the request: both repositories are valid and share a registry.\<close>

definition mount_check ::
    "(string \<Rightarrow> goerr option) \<Rightarrow> client \<Rightarrow> repository \<Rightarrow> repository \<Rightarrow> string \<Rightarrow> goerr option" where
  "mount_check digest_check c dst src dgst =
     (case validate_target digest_check dst dgst of
        Some e \<Rightarrow> Some (wrapf ''invalid mount destination'' e)
      | None \<Rightarrow>
        (case validate src of
           Some e \<Rightarrow> Some (wrapf ''invalid mount source'' e)
         | None \<Rightarrow>
           (case canonical_registry_authority (repo_host dst) (client_scheme c) of
              Inl e \<Rightarrow> Some (wrapf ''invalid mount destination'' e)
            | Inr d \<Rightarrow>
              (case canonical_registry_authority (repo_host src) (client_scheme c) of
                 Inl e \<Rightarrow> Some (wrapf ''invalid mount source'' e)
               | Inr s \<Rightarrow>
                   if d \<noteq> s then
                     Some (Text (''cannot mount across registries: destination host '' @ repo_host dst
                             @ '' differs from source host '' @ repo_host src))
                   else None))))"

definition mount ::
    "env \<Rightarrow> (string \<Rightarrow> goerr option) \<Rightarrow> client \<Rightarrow> repository \<Rightarrow> repository \<Rightarrow> string \<Rightarrow> history
      \<Rightarrow> (goerr + bool) \<times> history" where
  "mount E digest_check c dst src dgst h =
     (case mount_check digest_check c dst src dgst of
        Some e \<Rightarrow> (Inl e, h)
      | None \<Rightarrow>
        let target = mount_target c dst src dgst; label = mount_label dst src dgst in
        (case do_retry E c (\<lambda>u. (new_request ''POST'' target, u)) () h of
           (Inl e, _, h1) \<Rightarrow> (Inl (wrapf label e), h1)
         | (Inr resp, _, h1) \<Rightarrow>
             if rs_status resp = 201 then (Inr True, drain_and_close (rs_body resp) h1)
             else if rs_status resp = 202 then
               let h2 = drain_and_close (rs_body resp) h1 in
               (case resolve_location (response_request_url resp (Some target))
                       (header_get (rs_header resp) ''Location'') of
                  Inl e \<Rightarrow> (Inl (wrapf (label @ '' opened an invalid upload session'') e), h2)
                | Inr u \<Rightarrow>
                  (case cancel_upload_session E c
                          \<lparr>us_url = u, us_registry = target, us_min_chunk = 0\<rparr> h2 of
                     (Some e, h3) \<Rightarrow> (Inl (wrapf (label @ '' declined and cleanup failed'') e), h3)
                   | (None, h3) \<Rightarrow> (Inr False, h3)))
             else
               (case interpret_error E resp h1 of
                  (e, h2) \<Rightarrow> (Inl (wrapf label e), body_close (rs_body resp) h2))))"

section \<open>What the operations leave behind\<close>

lemma settled_then: "settled E {} h h1 \<Longrightarrow> settled E k h1 h2 \<Longrightarrow> settled E k h h2"
  using settled_trans [of E "{}" h h1 k h2] by simp

lemma settled_interpret:
  "settled E k h h1 \<Longrightarrow> interpret_error E resp h1 = (e, h2) \<Longrightarrow> settled E k h h2"
  by (auto simp: interpret_error_def now_def body_drain_def intro!: settled_event)

lemma settled_consumed:
  "settled E {b} h h1 \<Longrightarrow> settled E {} h (body_close b h1)"
  "settled E {b} h h1 \<Longrightarrow> settled E {} h (body_close b (body_drain b h1))"
  "settled E {b} h h1 \<Longrightarrow> settled E {} h (drain_and_close b h1)"
  by (auto simp: drain_and_close_def body_close_def body_drain_def intro: settled_event settled_close)

lemma settled_rejected:
  "settled E {rs_body resp} h h1 \<Longrightarrow> interpret_error E resp h1 = (e, h2) \<Longrightarrow>
   settled E {} h (body_close (rs_body resp) h2)"
  using settled_consumed(1) settled_interpret by blast

lemma cancel_session_settled:
  assumes "cancel_upload_session E c session h = (r, h')" shows "settled E {} h h'"
proof -
  obtain r1 h1 where c: "ctx_err E h = (r1, h1)" by (metis surj_pair)
  have s1: "settled E {} h h1" by (rule settled_ctx [OF c])
  show ?thesis
  proof (cases r1)
    case (Some e)
    with assms c s1 show ?thesis by (simp add: cancel_upload_session_def)
  next
    case None
    show ?thesis
    proof (cases "new_request ''DELETE'' (us_url session)")
      case (Inl e)
      with assms c s1 None show ?thesis by (simp add: cancel_upload_session_def)
    next
      case (Inr req)
      obtain out h2 where run: "do_location_request E (cl_write_redirects c) no_body req
          (Some (us_registry session)) () h1 = (out, (), h2)"
        by (metis (full_types) prod_cases3 old.unit.exhaust)
      have s2: "settled E (kept out) h h2"
        by (rule settled_then [OF s1 settled_location_request [OF settling_no_body run]])
      show ?thesis
        using assms c None Inr run s2
        by (cases out) (auto simp: cancel_upload_session_def settled_consumed settled_rejected
            split: if_splits prod.splits)
    qed
  qed
qed

lemma open_session_settled:
  assumes "open_session E c repo algorithm h = (r, h')" shows "settled E {} h h'"
proof (cases "new_request ''POST'' (session_url (client_scheme c) repo algorithm)")
  case (Inl e)
  with assms show ?thesis by (auto simp: open_session_def Let_def)
next
  case (Inr req)
  obtain out h1 where run: "do_registry_request E (cl_write_redirects c) no_body req () h = (out, (), h1)"
    by (metis (full_types) prod_cases3 old.unit.exhaust)
  have s: "settled E (kept out) h h1" by (rule settled_registry_request [OF settling_no_body run])
  show ?thesis
    using assms Inr run s
    by (cases out) (auto simp: open_session_def Let_def settled_consumed settled_rejected
        split: if_splits prod.splits sum.splits)
qed

lemma exists_outcome_run:
  assumes "blob_exists E digest_check c repo dgst h = (out, h')"
  shows "settled E {} h h' \<and>
    (case validate_target digest_check repo dgst of
       Some e \<Rightarrow> out = Inl e \<and> h' = h
     | None \<Rightarrow>
       (case do_retry E c (exists_build c repo dgst) () h of
          (Inl e, _) \<Rightarrow> out = Inl (wrapf ''checking blob existence'' e)
        | (Inr resp, _) \<Rightarrow>
            (case out of
               Inr found \<Rightarrow> rs_status resp = (if found then 200 else 404)
             | Inl e \<Rightarrow> rs_status resp \<notin> {200, 404} \<and> status_code (Some e) = (rs_status resp, True))))"
proof (cases "validate_target digest_check repo dgst")
  case (Some e)
  with assms show ?thesis by (auto simp: blob_exists_def)
next
  case None
  obtain res a h1 where run: "do_retry E c (exists_build c repo dgst) () h = (res, a, h1)"
    by (metis prod_cases3)
  note s = do_retry_settled_run [OF run]
  show ?thesis
  proof (cases res)
    case (Inl e)
    with assms None run s show ?thesis by (auto simp: blob_exists_def)
  next
    case (Inr resp)
    have code: "status_code (Some (wrapf m e)) = (rs_status resp, True)"
      if "interpret_error E resp h1 = (e, h2)" for m e h2
      using that by (auto simp: interpret_error_def status_code_wrapf split: prod.splits)
        (simp add: status_code_def errors_as_def is_registry_def)
    with assms None run s Inr show ?thesis
      by (auto simp: blob_exists_def settled_consumed settled_rejected split: if_splits prod.splits)
  qed
qed

text \<open>
  C25. \<open>Exists\<close> answers by the final status and by nothing else: true for a 200, false (and no
  error) for a 404, and for every other response an error that carries exactly its status. No
  response body is left open on any path, and an invalid target sends nothing.
\<close>

theorem exists_outcome:
  "case blob_exists E digest_check c repo dgst h of (out, h') \<Rightarrow>
     settled E {} h h' \<and>
     (case validate_target digest_check repo dgst of
        Some e \<Rightarrow> out = Inl e \<and> h' = h
      | None \<Rightarrow>
        (case do_retry E c (exists_build c repo dgst) () h of
           (Inl e, _) \<Rightarrow> out = Inl (wrapf ''checking blob existence'' e)
         | (Inr resp, _) \<Rightarrow>
             (case out of
                Inr found \<Rightarrow> rs_status resp = (if found then 200 else 404)
              | Inl e \<Rightarrow> rs_status resp \<notin> {200, 404} \<and> status_code (Some e) = (rs_status resp, True))))"
proof (cases "blob_exists E digest_check c repo dgst h")
  case (Pair out h')
  from exists_outcome_run [OF this] show ?thesis by (simp only: Pair prod.case)
qed

section \<open>Mounting\<close>

text \<open>
  \<open>session_deleted E c u registry h h'\<close>: between \<open>h\<close> and \<open>h'\<close> the session at \<open>u\<close> was deleted.
  Only DELETE requests were sent, the first one to \<open>u\<close> itself, on behalf of \<open>registry\<close>, and the
  final answer was 204 or 404.
\<close>

definition session_deleted :: "env \<Rightarrow> client \<Rightarrow> url \<Rightarrow> url \<Rightarrow> history \<Rightarrow> history \<Rightarrow> bool" where
  "session_deleted E c u registry h h' \<longleftrightarrow>
     (\<exists>req ack h1 h2. new_request ''DELETE'' u = Inr req \<and> sent h1 = sent h \<and>
        do_location_request E (cl_write_redirects c) no_body req (Some registry) () h1 = (Inr ack, (), h2) \<and>
        sent h' = sent h2 \<and> rs_status ack \<in> {204, 404} \<and>
        (\<exists>rs. sent h' = rs @ sent h \<and> rs \<noteq> [] \<and> rq_url (snd (last rs)) = rq_url req \<and>
           list_all (\<lambda>(s, r). rq_method r = ''DELETE'') rs))"

lemma cancel_session_deletes:
  assumes "cancel_upload_session E c session h = (None, h')"
  shows "session_deleted E c (us_url session) (us_registry session) h h'"
proof -
  from assms obtain req resp h1 h2 where
    c: "ctx_err E h = (None, h1)" and n: "new_request ''DELETE'' (us_url session) = Inr req"
    and run: "do_location_request E (cl_write_redirects c) no_body req (Some (us_registry session)) () h1
      = (Inr resp, (), h2)" and status: "rs_status resp = 204 \<or> rs_status resp = 404"
    and h': "h' = body_close (rs_body resp) (body_drain (rs_body resp) h2)"
    by (auto simp: cancel_upload_session_def split: prod.splits option.splits sum.splits if_splits)
  from do_location_request_do [OF run] obtain out' where
    "client_do E (cl_write_redirects c) no_body (with_registry_origin req (Some (us_registry session))) () h1
      = (out', (), h2)" by blast
  from client_do_sent [OF quiet_no_body this] obtain rs where
    rs: "sent h2 = rs @ sent h1" "chain_ok (cl_write_redirects c)
      (with_registry_origin req (Some (us_registry session))) 0 rs" by blast
  have "rq_method req = ''DELETE''"
    using n by (auto simp: new_request_def split: option.splits)
  with rs(2) have ok: "rs \<noteq> []" "rq_url (snd (last rs)) = rq_url req"
    "list_all (\<lambda>(s, r). rq_method r = ''DELETE'') rs"
    by (auto simp: chain_ok_def list_all_iff)
  have h1: "sent h1 = sent h" using sent_ctx [OF c] .
  have "sent h' = sent h2" by (simp add: h' body_close_def body_drain_def)
  with n run status rs(1) ok h1 show ?thesis
    unfolding session_deleted_def by (intro exI [of _ req] exI [of _ resp] exI [of _ h1] exI [of _ h2]) auto
qed

lemma interpreted_status:
  "interpret_error E resp h = (e, h') \<Longrightarrow> status_code (Some (wrapf m e)) = (rs_status resp, True)"
  by (auto simp: interpret_error_def status_code_wrapf split: prod.splits)
    (simp add: status_code_def errors_as_def is_registry_def)

lemma mount_outcome_run:
  assumes "mount E digest_check c dst src dgst h = (out, h')"
  shows "settled E {} h h' \<and>
    (case mount_check digest_check c dst src dgst of
       Some e \<Rightarrow> out = Inl e \<and> h' = h
     | None \<Rightarrow>
       (case do_retry E c (\<lambda>u. (new_request ''POST'' (mount_target c dst src dgst), u)) () h of
          (Inl e, _) \<Rightarrow> out = Inl (wrapf (mount_label dst src dgst) e)
        | (Inr resp, _, h1) \<Rightarrow>
            (out = Inr True \<longleftrightarrow> rs_status resp = 201) \<and>
            (out = Inr False \<longrightarrow> rs_status resp = 202 \<and>
               (\<exists>u. resolve_location (response_request_url resp (Some (mount_target c dst src dgst)))
                      (header_get (rs_header resp) ''Location'') = Inr u \<and>
                  session_deleted E c u (mount_target c dst src dgst) h1 h'))))"
proof (cases "mount_check digest_check c dst src dgst")
  case (Some e)
  with assms show ?thesis by (auto simp: mount_def)
next
  case None
  obtain res a h1 where
    run: "do_retry E c (\<lambda>u. (new_request ''POST'' (mount_target c dst src dgst), u)) () h = (res, a, h1)"
    by (metis prod_cases3)
  note s = do_retry_settled_run [OF run]
  show ?thesis
  proof (cases res)
    case (Inl e)
    with assms None run s show ?thesis by (auto simp: mount_def Let_def)
  next
    case (Inr resp)
    have d: "settled E {} h (drain_and_close (rs_body resp) h1)"
      using s Inr by (simp add: settled_consumed)
    let ?target = "mount_target c dst src dgst" and ?d = "drain_and_close (rs_body resp) h1"
    show ?thesis
    proof (cases "rs_status resp = 202")
      case False
      with assms None run s Inr d show ?thesis
        by (auto simp: mount_def Let_def settled_rejected split: if_splits prod.splits)
    next
      case status: True
      show ?thesis
      proof (cases "resolve_location (response_request_url resp (Some ?target)) (header_get (rs_header resp) ''Location'')")
        case (Inl e)
        with assms None run \<open>res = Inr resp\<close> d status show ?thesis by (auto simp: mount_def Let_def)
      next
        case (Inr u)
        obtain ce h3 where cc: "cancel_upload_session E c
            \<lparr>us_url = u, us_registry = ?target, us_min_chunk = 0\<rparr> ?d = (ce, h3)" by (metis surj_pair)
        have "session_deleted E c u ?target h1 h3" if "ce = None"
          using cancel_session_deletes [OF cc [unfolded that]] by (simp add: session_deleted_def env_simps)
        with assms None run \<open>res = Inr resp\<close> status Inr cc settled_then [OF d cancel_session_settled [OF cc]]
        show ?thesis by (cases ce) (auto simp: mount_def Let_def)
      qed
    qed
  qed
qed

text \<open>
  C24. \<open>Mount\<close> never leaks an upload session: it reports true only for a 201, and false only for a
  202 whose session was deleted: the \<open>Location\<close> of the 202 resolved to a URL, the first request
  after it was a DELETE to just that URL, and the final answer to it was 204 or 404. No response
  body stays open; and when a repository is invalid or the two hosts name different registries
  nothing is sent at all.
\<close>

theorem mount_outcome:
  "case mount E digest_check c dst src dgst h of (out, h') \<Rightarrow>
     settled E {} h h' \<and>
     (case mount_check digest_check c dst src dgst of
        Some e \<Rightarrow> out = Inl e \<and> h' = h
      | None \<Rightarrow>
        (case do_retry E c (\<lambda>u. (new_request ''POST'' (mount_target c dst src dgst), u)) () h of
           (Inl e, _) \<Rightarrow> out = Inl (wrapf (mount_label dst src dgst) e)
         | (Inr resp, _, h1) \<Rightarrow>
             (case out of
                Inl e \<Rightarrow> rs_status resp \<noteq> 201
              | Inr mounted \<Rightarrow>
                  if mounted then rs_status resp = 201
                  else rs_status resp = 202 \<and>
                    (\<exists>u. resolve_location (response_request_url resp (Some (mount_target c dst src dgst)))
                           (header_get (rs_header resp) ''Location'') = Inr u \<and>
                       session_deleted E c u (mount_target c dst src dgst) h1 h'))))"
  using mount_outcome_run [of E digest_check c dst src dgst h]
  by (auto split: prod.splits option.splits sum.splits)

end
