(* ===== verification/Stream.thy ===== *)
theory Stream
  imports Transport
begin

text \<open>
  The readers a pull is built from: response bodies and the views of the standard library on
  them, the digest check of verify.go, the progress trackers of progress.go and the options of
  transfer.go. A reader is a function from a buffer size and its state; the locales below state
  the contract of \<open>io.Reader\<close> and what the wrappers preserve.
\<close>

section \<open>Readers\<close>

type_synonym 's reader = "nat \<Rightarrow> 's \<Rightarrow> history \<Rightarrow> (byte list \<times> goerr option) \<times> 's \<times> history"

text \<open>Reads with the given buffer sizes until an error: the bytes delivered and the error.\<close>

fun read_seq :: "'s reader \<Rightarrow> nat list \<Rightarrow> 's \<Rightarrow> history
    \<Rightarrow> (byte list \<times> goerr option) \<times> 's \<times> history" where
  "read_seq rd [] s h = (([], None), s, h)"
| "read_seq rd (n # ns) s h =
     (case rd n s h of
        ((d, Some e), s', h') \<Rightarrow> ((d, Some e), s', h')
      | ((d, None), s', h') \<Rightarrow>
          (case read_seq rd ns s' h' of ((d2, e2), r) \<Rightarrow> ((d @ d2, e2), r)))"

definition eof :: goerr where
  "eof = Internal IoEOF"

definition is_eof :: "goerr option \<Rightarrow> bool" where
  "is_eof e \<longleftrightarrow> (case e of Some x \<Rightarrow> errors_is x eof | None \<Rightarrow> False)"

text \<open>
  The contract of a reader over an environment: at most as many bytes as the buffer holds, and
  a history that is only extended, with every response body it receives closed or owned.
\<close>

locale byte_reader =
  fixes E :: env
    and rd :: "'s reader"
    and owned :: "'s \<Rightarrow> nat set"
  assumes read_bound: "rd n s h = ((d, e), s', h') \<Longrightarrow> length d \<le> n"
    and read_passes: "rd n s h = ((d, e), s', h') \<Longrightarrow> passes E (owned s) h (owned s') h'"
begin

lemma read_seq_passes:
  "read_seq rd ns s h = ((d, e), s', h') \<Longrightarrow> passes E (owned s) h (owned s') h'"
proof (induction ns arbitrary: s h d)
  case (Cons n ns)
  obtain d1 e1 s1 h1 where r: "rd n s h = ((d1, e1), s1, h1)" by (metis prod_cases4 surj_pair)
  show ?case
  proof (cases e1)
    case (Some e2)
    with Cons.prems r read_passes [OF r] show ?thesis by auto
  next
    case None
    with Cons.prems r obtain d2 where q: "read_seq rd ns s1 h1 = ((d2, e), s', h')"
      by (auto split: prod.splits)
    show ?thesis by (rule passes_trans [OF read_passes [OF r] Cons.IH [OF q]])
  qed
qed simp

lemma read_seq_bound: "read_seq rd ns s h = ((d, e), s', h') \<Longrightarrow> length d \<le> sum_list ns"
proof (induction ns arbitrary: s h d)
  case (Cons n ns)
  obtain d1 e1 s1 h1 where r: "rd n s h = ((d1, e1), s1, h1)" by (metis prod_cases4 surj_pair)
  with Cons.prems read_bound [OF r] show ?case
    by (cases e1) (fastforce split: prod.splits dest: Cons.IH)+
qed simp

end

section \<open>Response bodies\<close>

text \<open>
  What a reader of the package reads from: a response body, one behind an \<open>io.LimitReader\<close>, one
  behind a \<open>bufio.Reader\<close> with its buffer and pending error, one whose \<open>Close\<close> also cancels
  the probe's context (\<open>cancelBody\<close> of parallel.go), and \<open>http.NoBody\<close>.
\<close>

datatype stream =
    Net nat
  | Limited nat int
  | Buffered nat "byte list" "goerr option"
  | Coupled nat
  | NoBody

definition bufio_size :: nat where
  "bufio_size = 4096"

fun stream_read :: "env \<Rightarrow> stream reader" where
  "stream_read E n (Net b) h = (case body_read E b n h of (r, h') \<Rightarrow> (r, Net b, h'))"
| "stream_read E n (Coupled b) h = (case body_read E b n h of (r, h') \<Rightarrow> (r, Coupled b, h'))"
| "stream_read E n (Limited b rest) h =
     (if rest \<le> 0 then (([], Some eof), Limited b rest, h)
      else (case body_read E b (min n (nat rest)) h of
              ((d, e), h') \<Rightarrow> ((d, e), Limited b (rest - int (length d)), h')))"
| "stream_read E n (Buffered b buf err) h =
     (if buf \<noteq> [] then ((take n buf, None), Buffered b (drop n buf) err, h)
      else if n = 0 \<or> err \<noteq> None then (([], err), Buffered b [] None, h)
      else if n \<ge> bufio_size then
        (case body_read E b n h of (r, h') \<Rightarrow> (r, Buffered b [] None, h'))
      else
        (case body_read E b bufio_size h of
           ((d, e), h') \<Rightarrow>
             if d = [] then (([], e), Buffered b [] None, h')
             else ((take n d, None), Buffered b (drop n d) e, h')))"
| "stream_read E n NoBody h = (([], Some eof), NoBody, h)"

fun stream_close :: "stream \<Rightarrow> history \<Rightarrow> history" where
  "stream_close (Net b) h = body_close b h"
| "stream_close (Limited b rest) h = body_close b h"
| "stream_close (Buffered b buf err) h = body_close b h"
| "stream_close (Coupled b) h = EvCancel # body_close b h"
| "stream_close NoBody h = h"

definition close_body :: "stream option \<Rightarrow> history \<Rightarrow> history" where
  "close_body b h = (case b of Some s \<Rightarrow> stream_close s h | None \<Rightarrow> h)"

text \<open>\<open>Peek (1)\<close> on a fresh \<open>bufio.Reader\<close>: at most 100 reads without progress.\<close>

fun buffered_peek :: "env \<Rightarrow> nat \<Rightarrow> nat \<Rightarrow> history \<Rightarrow> goerr option \<times> stream \<times> history" where
  "buffered_peek E b 0 h = (Some (Internal IoNoProgress), Buffered b [] None, h)"
| "buffered_peek E b (Suc k) h =
     (case body_read E b bufio_size h of
        ((d, e), h') \<Rightarrow>
          if d \<noteq> [] then (None, Buffered b d e, h')
          else if e \<noteq> None then (e, Buffered b [] None, h')
          else buffered_peek E b k h')"

fun stream_body :: "stream \<Rightarrow> nat set" where
  "stream_body (Net b) = {b}"
| "stream_body (Limited b rest) = {b}"
| "stream_body (Buffered b buf err) = {b}"
| "stream_body (Coupled b) = {b}"
| "stream_body NoBody = {}"

lemma body_read_settled: "body_read E b n h = (r, h') \<Longrightarrow> settled E k h h'"
  by (auto simp: body_read_def intro!: settled_event split: prod.splits)

lemma body_read_length: "body_read E b n h = ((d, e), h') \<Longrightarrow> length d \<le> n"
  by (auto simp: body_read_def split: prod.splits)

lemma stream_read_keeps: "stream_read E n s h = (r, s', h') \<Longrightarrow> stream_body s' = stream_body s"
  by (cases s) (auto split: prod.splits if_splits)

lemma stream_read_settled: "stream_read E n s h = (r, s', h') \<Longrightarrow> settled E k h h'"
  by (cases s) (auto split: prod.splits if_splits intro: body_read_settled)

lemma stream_read_passes: "stream_read E n s h = (r, s', h') \<Longrightarrow> passes E (stream_body s) h (stream_body s') h'"
  using stream_read_keeps [of E n s h r s' h'] stream_read_settled [of E n s h r s' h' "stream_body s'"]
  by (simp add: passes_def)

lemma stream_read_length: "stream_read E n s h = ((d, e), s', h') \<Longrightarrow> length d \<le> n"
  by (cases s) (fastforce split: prod.splits if_splits dest: body_read_length)+

interpretation body: byte_reader E "stream_read E" stream_body for E
  by unfold_locales (fact stream_read_length, fact stream_read_passes)

lemma stream_close_settled:
  "settled E (stream_body s \<union> k) h h' \<Longrightarrow> settled E k h (stream_close s h')"
  by (cases s) (auto simp: body_close_def intro: settled_close settled_event)

lemma stream_close_event: "b \<in> stream_body s \<Longrightarrow> EvClose b \<in> set (stream_close s h)"
  by (cases s) (auto simp: body_close_def)

lemma stream_close_mono: "set h \<subseteq> set (stream_close s h)"
  by (cases s) (auto simp: body_close_def)

lemma passes_stream_close:
  "passes E K h (stream_body s \<union> K') h' \<Longrightarrow> passes E K h K' (stream_close s h')"
  using stream_close_settled [of E s K' h h'] stream_close_event [of _ s h'] stream_close_mono [of h' s]
  by (auto simp: passes_def)

lemma peek_settled: "buffered_peek E b k h = (r, s, h') \<Longrightarrow> settled E q h h' \<and> stream_body s = {b}"
proof (induction k arbitrary: h)
  case (Suc k)
  obtain d e h1 where r: "body_read E b bufio_size h = ((d, e), h1)" by (metis surj_pair)
  from Suc.prems r Suc.IH [of h1] body_read_settled [OF r, of q] show ?case
    using settled_trans [of E q h h1 q h'] by (auto split: if_splits)
qed auto

section \<open>The digest check\<close>

text \<open>
  \<open>verifyReader\<close>. The hash comes from the go-digest package: \<open>verified d bytes\<close> stands for a
  verifier of digest \<open>d\<close> that was fed \<open>bytes\<close> and then asked \<open>Verified\<close>.
\<close>

record 'b verify_reader =
  vr_body :: 'b
  vr_written :: "byte list"
  vr_expected :: string

definition new_verify_reader :: "'b \<Rightarrow> string \<Rightarrow> 'b verify_reader" where
  "new_verify_reader body expected = \<lparr>vr_body = body, vr_written = [], vr_expected = expected\<rparr>"

definition digest_mismatch :: "string \<Rightarrow> goerr" where
  "digest_mismatch expected = wrapf (''blob '' @ expected) (Sentinel ErrDigestMismatch)"

definition verify_read :: "(string \<Rightarrow> byte list \<Rightarrow> bool) \<Rightarrow> 'b reader \<Rightarrow> 'b verify_reader reader" where
  "verify_read verified rd n v h =
     (case rd n (vr_body v) h of
        ((d, e), b', h') \<Rightarrow>
          let v' = v\<lparr>vr_body := b', vr_written := vr_written v @ d\<rparr> in
          if is_eof e \<and> \<not> verified (vr_expected v) (vr_written v')
          then ((d, Some (digest_mismatch (vr_expected v))), v', h')
          else ((d, e), v', h'))"

definition verify_close :: "('b \<Rightarrow> history \<Rightarrow> 'b \<times> history) \<Rightarrow> 'b verify_reader \<Rightarrow> history
    \<Rightarrow> 'b verify_reader \<times> history" where
  "verify_close close v h = (case close (vr_body v) h of (b', h') \<Rightarrow> (v\<lparr>vr_body := b'\<rparr>, h'))"

text \<open>Reading through the check is a reader, whatever reader it wraps.\<close>

lemma verify_reader_contract:
  assumes "byte_reader E rd owned"
  shows "byte_reader E (verify_read verified rd) (\<lambda>v. owned (vr_body v))"
proof
  note laws = byte_reader.read_bound [OF assms] byte_reader.read_passes [OF assms]
  fix n v h d e v' h'
  assume r: "verify_read verified rd n v h = ((d, e), v', h')"
  obtain e1 b1 where rd: "rd n (vr_body v) h = ((d, e1), b1, h')" and v': "vr_body v' = b1"
    using r by (auto simp: verify_read_def Let_def split: prod.splits if_splits)
  show "length d \<le> n" and "passes E (owned (vr_body v)) h (owned (vr_body v')) h'"
    using laws [OF rd] by (simp_all add: v')
qed

lemma verify_read_written:
  "verify_read verified rd n v h = ((d, e), v', h') \<Longrightarrow>
   vr_written v' = vr_written v @ d \<and> vr_expected v' = vr_expected v \<and>
   (is_eof e \<longrightarrow> verified (vr_expected v) (vr_written v'))"
  by (auto simp: verify_read_def Let_def is_eof_def digest_mismatch_def eof_def wrapf_def errors_is_def
      split: prod.splits if_splits option.splits)

lemma verify_seq_written:
  "read_seq (verify_read verified rd) ns v h = ((d, e), v', h') \<Longrightarrow>
   vr_written v' = vr_written v @ d \<and> vr_expected v' = vr_expected v \<and>
   (is_eof e \<longrightarrow> verified (vr_expected v) (vr_written v'))"
proof (induction ns arbitrary: v h d)
  case (Cons n ns)
  obtain d1 e1 v1 h1 where r: "verify_read verified rd n v h = ((d1, e1), v1, h1)"
    by (metis prod_cases4 surj_pair)
  show ?case
  proof (cases e1)
    case (Some e2)
    with Cons.prems r verify_read_written [OF r] show ?thesis by force
  next
    case None
    with Cons.prems r obtain d2 where
      "read_seq (verify_read verified rd) ns v1 h1 = ((d2, e), v', h')" "d = d1 @ d2"
      by (auto split: prod.splits)
    with Cons.IH [of v1 h1 d2] verify_read_written [OF r] show ?thesis by force
  qed
qed (simp add: is_eof_def)

text \<open>
  C31. A blob that was read to its end is verified: whatever reader is underneath and however
  the caller sizes its buffers, when a read of the verifying reader reports an error that
  matches \<open>io.EOF\<close>, the bytes delivered up to then hash to the expected digest.
\<close>

theorem verified_at_eof:
  assumes "read_seq (verify_read verified rd) ns (new_verify_reader body expected) h = ((d, e), v', h')"
    and "is_eof e"
  shows "verified expected d"
  using verify_seq_written [OF assms(1)] assms(2) by (auto simp: new_verify_reader_def)

text \<open>A body of three bytes, and a digest that accepts exactly these.\<close>

definition three_env :: env where
  "three_env = quiet_env\<lparr>en_read := (\<lambda>h b n. if h = [] then ([1, 2], None) else ([3], Some eof))\<rparr>"

definition is_three :: "string \<Rightarrow> byte list \<Rightarrow> bool" where
  "is_three d bytes \<longleftrightarrow> bytes = [1, 2, 3]"

lemma verified_at_eof_witness:
  "fst (read_seq (verify_read is_three (stream_read three_env)) [8, 8]
     (new_verify_reader (Net 0) ''sha256:x'') []) = ([1, 2, 3], Some eof) \<and>
   is_three ''sha256:x'' [1, 2, 3]"
proof -
  let ?run = "read_seq (verify_read is_three (stream_read three_env)) [8, 8]
     (new_verify_reader (Net 0) ''sha256:x'') []"
  have f: "fst ?run = ([1, 2, 3], Some eof)" by code_simp
  obtain v' h' where "?run = (([1, 2, 3], Some eof), v', h')" using f by (metis prod.collapse)
  from verified_at_eof [OF this] have "is_three ''sha256:x'' [1, 2, 3]"
    by (simp add: is_eof_def errors_is_def eof_def)
  with f show ?thesis by simp
qed

text \<open>
  The check never hides another failure, and its own error is the mismatch: the error of a read
  is the wrapped reader's unless that one matches \<open>io.EOF\<close> on unverified content.
\<close>

lemma verify_read_error:
  assumes "verify_read verified rd n v h = ((d, e), v', h')"
  shows "\<exists>e1 b1. rd n (vr_body v) h = ((d, e1), b1, h') \<and> vr_body v' = b1 \<and>
    e = (if is_eof e1 \<and> \<not> verified (vr_expected v) (vr_written v @ d)
         then Some (digest_mismatch (vr_expected v)) else e1)"
proof -
  obtain d1 e1 b1 h1 where r: "rd n (vr_body v) h = ((d1, e1), b1, h1)" by (metis prod_cases4 surj_pair)
  show ?thesis
    using assms unfolding verify_read_def r prod.case Let_def
    by (cases "is_eof e1 \<and> \<not> verified (vr_expected v) (vr_written v @ d1)") (simp_all, clarsimp+)
qed

section \<open>Progress\<close>

record progress_tracker =
  pt_total :: int
  pt_done :: int

text \<open>A nil tracker is None.\<close>

definition new_progress_tracker :: "bool \<Rightarrow> int \<Rightarrow> progress_tracker option" where
  "new_progress_tracker has_fn whole =
     (if \<not> has_fn then None else Some \<lparr>pt_total = whole, pt_done = 0\<rparr>)"

definition tracker_set_total :: "int \<Rightarrow> progress_tracker option \<Rightarrow> progress_tracker option" where
  "tracker_set_total whole t = map_option (\<lambda>x. x\<lparr>pt_total := whole\<rparr>) t"

definition tracker_add ::
    "int \<Rightarrow> progress_tracker option \<Rightarrow> history \<Rightarrow> progress_tracker option \<times> history" where
  "tracker_add n t h =
     (case t of
        None \<Rightarrow> (None, h)
      | Some x \<Rightarrow>
          if n \<le> 0 then (t, h)
          else (Some (x\<lparr>pt_done := pt_done x + n\<rparr>), EvProgress (pt_done x + n) (pt_total x) # h))"

definition tracker_set ::
    "int \<Rightarrow> progress_tracker option \<Rightarrow> history \<Rightarrow> progress_tracker option \<times> history" where
  "tracker_set pos t h =
     (case t of
        None \<Rightarrow> (None, h)
      | Some x \<Rightarrow>
          if pos \<le> pt_done x then (t, h)
          else (Some (x\<lparr>pt_done := pos\<rparr>), EvProgress pos (pt_total x) # h))"

record wire_tracker =
  wt_stopped :: bool

definition new_wire_tracker :: "bool \<Rightarrow> wire_tracker option" where
  "new_wire_tracker has_fn = (if \<not> has_fn then None else Some \<lparr>wt_stopped = False\<rparr>)"

definition wire_add :: "int \<Rightarrow> wire_tracker option \<Rightarrow> history \<Rightarrow> history" where
  "wire_add delta t h =
     (case t of
        None \<Rightarrow> h
      | Some x \<Rightarrow> if delta \<le> 0 then h else if wt_stopped x then h else EvWire delta # h)"

definition wire_stop :: "wire_tracker option \<Rightarrow> wire_tracker option" where
  "wire_stop t = map_option (\<lambda>x. x\<lparr>wt_stopped := True\<rparr>) t"

text \<open>\<open>progressReader\<close>: the tracker's state travels with the reader.\<close>

record 'b progress_reader =
  pr_body :: 'b
  pr_tracker :: "progress_tracker option"

definition progress_read :: "'b reader \<Rightarrow> 'b progress_reader reader" where
  "progress_read rd n p h =
     (case rd n (pr_body p) h of
        ((d, e), b', h1) \<Rightarrow>
          (case tracker_add (int (length d)) (pr_tracker p) h1 of
             (t', h2) \<Rightarrow> ((d, e), p\<lparr>pr_body := b', pr_tracker := t'\<rparr>, h2)))"

lemma passes_tracker_add:
  "passes E K h K' h1 \<Longrightarrow> tracker_add n t h1 = (t', h2) \<Longrightarrow> passes E K h K' h2"
  by (auto simp: tracker_add_def intro: passes_event split: option.splits if_splits)

lemma progress_reader_contract:
  assumes "byte_reader E rd owned"
  shows "byte_reader E (progress_read rd) (\<lambda>p. owned (pr_body p))"
proof
  note laws = byte_reader.read_bound [OF assms] byte_reader.read_passes [OF assms]
  fix n p h d e p' h'
  assume r: "progress_read rd n p h = ((d, e), p', h')"
  obtain b1 h1 t where rd: "rd n (pr_body p) h = ((d, e), b1, h1)" and p': "pr_body p' = b1"
    and t: "tracker_add (int (length d)) (pr_tracker p) h1 = (t, h')"
    using r by (auto simp: progress_read_def split: prod.splits)
  show "length d \<le> n" using laws(1) [OF rd] .
  show "passes E (owned (pr_body p)) h (owned (pr_body p')) h'"
    using passes_tracker_add [OF laws(2) [OF rd] t] by (simp add: p')
qed

section \<open>What the callbacks see\<close>

datatype tracker_op = SetTotal int | AddBytes int | SetPosition int

fun tracker_run :: "tracker_op list \<Rightarrow> progress_tracker option \<Rightarrow> history \<Rightarrow> progress_tracker option \<times> history" where
  "tracker_run [] t h = (t, h)"
| "tracker_run (SetTotal n # ops) t h = tracker_run ops (tracker_set_total n t) h"
| "tracker_run (AddBytes n # ops) t h = (case tracker_add n t h of (t', h') \<Rightarrow> tracker_run ops t' h')"
| "tracker_run (SetPosition n # ops) t h = (case tracker_set n t h of (t', h') \<Rightarrow> tracker_run ops t' h')"

fun reports :: "history \<Rightarrow> int list" where
  "reports [] = []"
| "reports (e # h) = (case e of EvProgress n whole \<Rightarrow> n # reports h | _ \<Rightarrow> reports h)"

definition tracker_ok :: "progress_tracker option \<Rightarrow> history \<Rightarrow> bool" where
  "tracker_ok t h \<longleftrightarrow>
     (case t of
        None \<Rightarrow> reports h = []
      | Some x \<Rightarrow> 0 \<le> pt_done x \<and> sorted_wrt (>) (reports h) \<and> list_all (\<lambda>n. 0 < n) (reports h) \<and>
          (case reports h of [] \<Rightarrow> pt_done x = 0 | n # _ \<Rightarrow> pt_done x = n))"

lemma tracker_set_ok: "tracker_ok t h \<Longrightarrow> tracker_set n t h = (t', h') \<Longrightarrow> tracker_ok t' h'"
  by (auto simp: tracker_ok_def tracker_set_def list_all_iff split: option.splits if_splits list.splits)
    fastforce+

lemma tracker_add_ok: "tracker_ok t h \<Longrightarrow> tracker_add n t h = (t', h') \<Longrightarrow> tracker_ok t' h'"
  by (rule tracker_set_ok [of t h "n + (case t of None \<Rightarrow> 0 | Some x \<Rightarrow> pt_done x)" t' h'])
    (auto simp: tracker_add_def tracker_set_def add.commute split: option.splits if_splits)

lemma tracker_run_ok: "tracker_ok t h \<Longrightarrow> tracker_run ops t h = (t', h') \<Longrightarrow> tracker_ok t' h'"
proof (induction ops t h rule: tracker_run.induct)
  case (2 n ops t h)
  have "tracker_ok (tracker_set_total n t) h"
    using 2(2) by (auto simp: tracker_ok_def tracker_set_total_def split: option.splits list.splits)
  with 2 show ?case by simp
next
  case (3 n ops t h)
  then show ?case using tracker_add_ok by (auto split: prod.splits)
next
  case (4 n ops t h)
  then show ?case using tracker_set_ok by (auto split: prod.splits)
qed simp

text \<open>
  C32. Progress never moves backwards: over any mixture of byte counts, absolute positions and
  late totals, however often a transfer restarts, the cumulative counts a callback receives
  are positive and strictly increasing, and the last one is the tracker's count. Without a
  callback nothing is reported.
\<close>

theorem progress_increases:
  "case tracker_run ops (new_progress_tracker has_fn whole) [] of
     (t, h) \<Rightarrow>
       sorted_wrt (>) (reports h) \<and> list_all (\<lambda>n. 0 < n) (reports h) \<and>
       (case t of
          None \<Rightarrow> reports h = []
        | Some x \<Rightarrow> pt_done x = (case reports h of [] \<Rightarrow> 0 | n # _ \<Rightarrow> n))"
proof -
  obtain t h where r: "tracker_run ops (new_progress_tracker has_fn whole) [] = (t, h)"
    by (metis surj_pair)
  have "tracker_ok (new_progress_tracker has_fn whole) []"
    by (simp add: tracker_ok_def new_progress_tracker_def)
  from tracker_run_ok [OF this r] show ?thesis
    by (auto simp: r tracker_ok_def split: option.splits list.splits)
qed

section \<open>Transfer options\<close>

text \<open>\<open>transferConfig\<close>; a callback is named by a number, nil is None.\<close>

record transfer_config =
  tc_progress :: "nat option"
  tc_wire_progress :: "nat option"

type_synonym transfer_option = "transfer_config \<Rightarrow> transfer_config"

definition with_progress :: "nat option \<Rightarrow> transfer_option" where
  "with_progress f cfg = cfg\<lparr>tc_progress := f\<rparr>"

definition with_wire_progress :: "nat option \<Rightarrow> transfer_option" where
  "with_wire_progress f cfg = cfg\<lparr>tc_wire_progress := f\<rparr>"

fun apply_transfer :: "transfer_option option list \<Rightarrow> transfer_config \<Rightarrow> transfer_config" where
  "apply_transfer [] cfg = cfg"
| "apply_transfer (None # opts) cfg = apply_transfer opts cfg"
| "apply_transfer (Some f # opts) cfg = apply_transfer opts (f cfg)"

definition apply_transfer_options :: "transfer_option option list \<Rightarrow> transfer_config" where
  "apply_transfer_options opts = apply_transfer opts \<lparr>tc_progress = None, tc_wire_progress = None\<rparr>"

end
