(* ===== verification/RangeReader.thy ===== *)
theory RangeReader
  imports Session Stream
begin

text \<open>
  The request side of pull.go and its range reader: \<open>get\<close> under a request budget, the check of a
  partial response, and \<open>rangeReader\<close>, which serves exactly one requested window from as many
  partial responses as the server needs. \<open>Close\<close> may run concurrently with \<open>Read\<close>: wherever
  \<open>Read\<close> takes the lock, and before it reads the body, the environment may let a Close happen.
\<close>

section \<open>GET under a request budget\<close>

definition range_header :: "int \<Rightarrow> int \<Rightarrow> string" where
  "range_header a b = ''bytes='' @ fmt_d a @ ''-'' @ fmt_d b"

definition get_build :: "url \<Rightarrow> string \<Rightarrow> int \<Rightarrow> (goerr + request) \<times> int" where
  "get_build u hdr tries =
     (case new_request ''GET'' u of
        Inl e \<Rightarrow> (Inl (wrapf ''building request'' e), tries)
      | Inr req \<Rightarrow>
          (Inr (if hdr \<noteq> [] then req\<lparr>rq_header := header_set ''Range'' hdr (rq_header req)\<rparr> else req),
           tries + 1))"

text \<open>\<open>getAfterAttempts\<close>: the response and the attempts spent on it (\<open>requestAttemptBody\<close>).\<close>

definition get_after_attempts ::
    "env \<Rightarrow> client \<Rightarrow> url \<Rightarrow> string \<Rightarrow> int \<Rightarrow> history \<Rightarrow> (goerr + response \<times> int) \<times> history" where
  "get_after_attempts E c u hdr spent h =
     (let remaining = attempts (cl_retry c) - spent in
      if remaining \<le> 0 then
        (Inl (Text (''request budget exhausted after '' @ fmt_d spent @ '' attempts'')), h)
      else
        (case do_retry E (c\<lparr>cl_retry := (cl_retry c)\<lparr>rp_max_attempts := remaining\<rparr>\<rparr>)
                (get_build u hdr) spent h of
           (Inl e, _, h1) \<Rightarrow> (Inl e, h1)
         | (Inr resp, tries, h1) \<Rightarrow>
             if \<not> (rs_status resp = 200 \<or> (hdr \<noteq> [] \<and> rs_status resp = 206)) then
               (case interpret_error E resp h1 of (e, h2) \<Rightarrow> (Inl e, body_close (rs_body resp) h2))
             else (Inr (resp, tries), h1)))"

definition get :: "env \<Rightarrow> client \<Rightarrow> url \<Rightarrow> string \<Rightarrow> history \<Rightarrow> (goerr + response \<times> int) \<times> history" where
  "get E c u hdr h = get_after_attempts E c u hdr 0 h"

definition validate_content_range :: "string \<Rightarrow> int \<Rightarrow> int \<Rightarrow> goerr + content_range" where
  "validate_content_range hdr start final =
     (case parse_content_range hdr of
        None \<Rightarrow> Inl (Text (''registry returned invalid Content-Range '' @ hdr))
      | Some cr \<Rightarrow>
          if cr_start cr \<noteq> start then
            Inl (Text (''registry returned Content-Range '' @ hdr @ '' starting at '' @ fmt_d (cr_start cr)
                   @ '' instead of requested byte '' @ fmt_d start))
          else if cr_end cr > final then
            Inl (Text (''registry returned Content-Range '' @ hdr @ '' beyond requested end byte '' @ fmt_d final))
          else Inr cr)"

section \<open>The reader\<close>

text \<open>\<open>rg_body\<close> stands for the fields \<open>body\<close> and \<open>reader\<close>, which are set and cleared together.\<close>

record range_reader =
  rg_body :: "stream option"
  rg_remaining :: int
  rg_next :: int
  rg_end :: int
  rg_total :: int
  rg_parts :: int
  rg_closed :: bool

definition max_range_parts :: int where
  "max_range_parts = 16"

definition new_range_reader :: "stream \<Rightarrow> content_range \<Rightarrow> int \<Rightarrow> range_reader" where
  "new_range_reader body parsed final =
     \<lparr>rg_body = Some body, rg_remaining = cr_end parsed - cr_start parsed + 1,
      rg_next = (if cr_total parsed \<ge> 0 then cr_end parsed + 1 else 0), rg_end = final,
      rg_total = cr_total parsed, rg_parts = (if cr_total parsed \<ge> 0 then 1 else 0),
      rg_closed = False\<rparr>"

definition range_close :: "range_reader \<Rightarrow> history \<Rightarrow> range_reader \<times> history" where
  "range_close r h =
     (if rg_closed r then (r, h)
      else (r\<lparr>rg_closed := True, rg_body := None\<rparr>, close_body (rg_body r) (EvCancel # h)))"

text \<open>A point at which a concurrent Close may have run.\<close>

definition range_yield :: "env \<Rightarrow> range_reader \<Rightarrow> history \<Rightarrow> range_reader \<times> history" where
  "range_yield E r h = (if en_interrupt E h then range_close r (EvInterrupt # h) else (r, h))"

definition range_state_error ::
    "env \<Rightarrow> range_reader \<Rightarrow> history \<Rightarrow> goerr option \<times> range_reader \<times> history" where
  "range_state_error E r h =
     (case range_yield E r h of
        (r1, h1) \<Rightarrow>
          if rg_closed r1 then (Some (Internal IoClosedPipe), r1, h1)
          else (case ctx_err E h1 of (e, h2) \<Rightarrow> (e, r1, h2)))"

definition install_range_continuation ::
    "env \<Rightarrow> stream \<Rightarrow> content_range \<Rightarrow> int \<Rightarrow> range_reader \<Rightarrow> history
      \<Rightarrow> goerr option \<times> range_reader \<times> history" where
  "install_range_continuation E body parsed parts r h =
     (case range_yield E r h of
        (r1, h1) \<Rightarrow>
          if rg_closed r1 then (Some (Internal IoClosedPipe), r1, stream_close body h1)
          else (None, r1\<lparr>rg_body := Some body, rg_remaining := cr_end parsed - cr_start parsed + 1,
                       rg_next := cr_end parsed + 1, rg_parts := parts + 1\<rparr>, h1))"

text \<open>The follow-up request of \<open>advance\<close>.\<close>

definition range_continue ::
    "env \<Rightarrow> client \<Rightarrow> url \<Rightarrow> range_reader \<Rightarrow> history \<Rightarrow> goerr option \<times> range_reader \<times> history" where
  "range_continue E c target r h =
     (let hdr = range_header (rg_next r) (rg_end r) in
      case get E c target hdr h of
        (Inl e, h1) \<Rightarrow>
          (case range_state_error E r h1 of
             (Some se, r1, h2) \<Rightarrow> (Some se, r1, h2)
           | (None, r1, h2) \<Rightarrow> (Some (wrapf (''fetching remainder '' @ hdr) e), r1, h2))
      | (Inr (resp, _), h1) \<Rightarrow>
          if rs_status resp \<noteq> 206 then
            (Some (Text (''fetching remainder '' @ hdr @ '': registry stopped honoring range requests (status ''
                @ fmt_d (rs_status resp) @ '')'')), r, body_close (rs_body resp) h1)
          else
            (case validate_content_range (header_get (rs_header resp) ''Content-Range'') (rg_next r) (rg_end r) of
               Inl e \<Rightarrow> (Some (wrapf (''fetching remainder '' @ hdr) e), r, body_close (rs_body resp) h1)
             | Inr parsed \<Rightarrow>
                 if cr_total parsed \<noteq> rg_total r then
                   (Some (Text (''fetching remainder '' @ hdr @ '': blob size changed from '' @ fmt_d (rg_total r)
                       @ '' to '' @ fmt_d (cr_total parsed))), r, body_close (rs_body resp) h1)
                 else install_range_continuation E (Net (rs_body resp)) parsed (rg_parts r) r h1))"

definition range_advance ::
    "env \<Rightarrow> client \<Rightarrow> url \<Rightarrow> range_reader \<Rightarrow> history \<Rightarrow> goerr option \<times> range_reader \<times> history" where
  "range_advance E c target r h =
     (case range_yield E r h of (r1, h1) \<Rightarrow>
      if rg_closed r1 then (Some (Internal IoClosedPipe), r1, h1)
      else (case ctx_err E h1 of
        (Some e, h2) \<Rightarrow> (Some e, r1, h2)
      | (None, h2) \<Rightarrow>
          if rg_remaining r1 > 0 then (None, r1, h2)
          else
            let r2 = r1\<lparr>rg_body := None\<rparr>; h3 = close_body (rg_body r1) h2 in
            if rg_total r2 < 0 then (Some eof, r2, h3)
            else if rg_next r2 > rg_end r2 then (Some eof, r2, h3)
            else if rg_next r2 \<ge> rg_total r2 then
              (Some (wrapf (''blob ended at byte '' @ fmt_d (rg_total r2) @ '' before requested end byte ''
                  @ fmt_d (rg_end r2)) (Internal IoUnexpectedEOF)), r2, h3)
            else if rg_parts r2 = max_range_parts then
              (Some (Text (''registry split the requested range across more than 16 successful partial responses'')),
               r2, h3)
            else range_continue E c target r2 h3))"

text \<open>What \<open>readCurrent\<close> makes of the bytes and the error of a body read.\<close>

definition range_classify :: "byte list \<Rightarrow> goerr option \<Rightarrow> int \<Rightarrow> byte list \<times> bool \<times> goerr option" where
  "range_classify d e remaining =
     (if e \<noteq> None \<and> \<not> is_eof e then (d, False, e)
      else if is_eof e \<and> remaining > 0 then
        (d, False, Some (wrapf (''range response ended with '' @ fmt_d remaining
            @ '' bytes still expected'') (Internal IoUnexpectedEOF)))
      else if d \<noteq> [] then (d, False, None)
      else ([], remaining = 0, None))"

text \<open>
  \<open>readCurrent\<close>: bytes, error and whether the response was drained. The reader is fetched under
  the lock but its absence is not checked, so a Close that won the race makes the call below
  a call on a nil interface.
\<close>

definition range_read_current ::
    "env \<Rightarrow> nat \<Rightarrow> range_reader \<Rightarrow> history
      \<Rightarrow> (byte list \<times> bool \<times> goerr option) \<times> range_reader \<times> history" where
  "range_read_current E n r h =
     (case range_yield E r h of (r1, h1) \<Rightarrow>
      (case rg_body r1 of
         None \<Rightarrow> (([], False, Some (Internal NilDereference)), r1, h1)
       | Some s \<Rightarrow>
           let m = (if int n > rg_remaining r1 then nat (rg_remaining r1) else n) in
           (case range_yield E r1 h1 of (r2, h2) \<Rightarrow>
           (case stream_read E m s h2 of ((d, e), s', h3) \<Rightarrow>
           (case range_yield E r2 h3 of (r3, h4) \<Rightarrow>
            let r4 = r3\<lparr>rg_remaining := rg_remaining r3 - int (length d),
                       rg_body := (case rg_body r3 of Some _ \<Rightarrow> Some s' | None \<Rightarrow> None)\<rparr>
            in (case range_state_error E r4 h4 of
                  (Some se, r5, h5) \<Rightarrow> ((d, False, Some se), r5, h5)
                | (None, r5, h5) \<Rightarrow> (range_classify d e (rg_remaining r4), r5, h5)))))))"

text \<open>One turn of the loop of \<open>Read\<close>, and the loop.\<close>

definition range_turn ::
    "env \<Rightarrow> client \<Rightarrow> url \<Rightarrow> nat \<Rightarrow> nat \<Rightarrow> range_reader \<times> history
      \<Rightarrow> ((byte list \<times> goerr option) \<times> range_reader \<times> history) + (range_reader \<times> history)" where
  "range_turn E c target n k s =
     (case s of (r, h) \<Rightarrow>
     (case range_advance E c target r h of
        (Some e, r1, h1) \<Rightarrow> Inl (([], Some e), r1, h1)
      | (None, r1, h1) \<Rightarrow>
        (case range_read_current E n r1 h1 of
           ((d, drained, e), r2, h2) \<Rightarrow>
             if d \<noteq> [] \<or> e \<noteq> None \<or> \<not> drained then Inl ((d, e), r2, h2) else Inr (r2, h2))))"

definition range_read :: "env \<Rightarrow> client \<Rightarrow> url \<Rightarrow> range_reader reader" where
  "range_read E c target n r h =
     (if n = 0 then
        (case range_state_error E r h of (e, r1, h1) \<Rightarrow> (([], e), r1, h1))
      else the (attempt_loop (range_turn E c target n) 1 1 (r, h)))"

section \<open>What a read does to the bodies in hand\<close>

definition rg_owned :: "range_reader \<Rightarrow> nat set" where
  "rg_owned r = (case rg_body r of Some s \<Rightarrow> stream_body s | None \<Rightarrow> {})"

text \<open>The fields that only \<open>Read\<close> changes.\<close>

definition range_same :: "range_reader \<Rightarrow> range_reader \<Rightarrow> bool" where
  "range_same r r' \<longleftrightarrow> rg_remaining r' = rg_remaining r \<and> rg_next r' = rg_next r \<and>
     rg_end r' = rg_end r \<and> rg_total r' = rg_total r \<and> rg_parts r' = rg_parts r"

lemma range_same_refl [simp]: "range_same r r"
  by (simp add: range_same_def)

lemma range_same_trans: "range_same r r1 \<Longrightarrow> range_same r1 r2 \<Longrightarrow> range_same r r2"
  by (simp add: range_same_def)

lemma passes_close_body:
  "passes E K h ((case b of Some s \<Rightarrow> stream_body s | None \<Rightarrow> {}) \<union> K') h' \<Longrightarrow>
   passes E K h K' (close_body b h')"
  by (cases b) (auto simp: close_body_def intro: passes_stream_close)

lemma range_close_same: "range_close r h = (r', h') \<Longrightarrow> range_same r r'"
  by (auto simp: range_close_def range_same_def split: if_splits)

lemma range_close_passes:
  assumes "range_close r h1 = (r', h')" and "passes E K h (rg_owned r \<union> K') h1"
  shows "passes E K h (rg_owned r' \<union> K') h'"
proof (cases "rg_closed r")
  case True
  with assms show ?thesis by (simp add: range_close_def)
next
  case False
  have "passes E K h ((case rg_body r of Some s \<Rightarrow> stream_body s | None \<Rightarrow> {}) \<union> K') (EvCancel # h1)"
    using assms(2) by (intro passes_event) (simp_all add: rg_owned_def)
  from passes_close_body [OF this] False assms(1) show ?thesis
    by (auto simp: range_close_def rg_owned_def)
qed

lemma range_yield_same: "range_yield E r h = (r', h') \<Longrightarrow> range_same r r'"
  by (auto simp: range_yield_def range_close_same split: if_splits)

lemma range_yield_passes:
  assumes "range_yield E r h1 = (r', h')" and "passes E K h (rg_owned r \<union> K') h1"
  shows "passes E K h (rg_owned r' \<union> K') h'"
  using assms range_close_passes [of r "EvInterrupt # h1" r' h' E K h K']
  by (auto simp: range_yield_def split: if_splits intro: passes_event)

lemma passes_ctx: "ctx_err E h1 = (e, h') \<Longrightarrow> passes E K h K' h1 \<Longrightarrow> passes E K h K' h'"
  by (auto simp: ctx_err_def intro: passes_event)

lemma range_state_error_same: "range_state_error E r h = (e, r', h') \<Longrightarrow> range_same r r'"
  by (auto simp: range_state_error_def dest: range_yield_same split: prod.splits if_splits)

lemma range_state_error_passes:
  assumes "range_state_error E r h1 = (e, r', h')" and "passes E K h (rg_owned r \<union> K') h1"
  shows "passes E K h (rg_owned r' \<union> K') h'"
proof -
  obtain r1 h2 where y: "range_yield E r h1 = (r1, h2)" by (metis surj_pair)
  note p = range_yield_passes [OF y assms(2)]
  with assms(1) y show ?thesis
    by (auto simp: range_state_error_def intro: passes_ctx split: if_splits prod.splits)
qed

lemma install_passes:
  assumes "install_range_continuation E body parsed parts r h1 = (e, r', h')"
    and "passes E K h (stream_body body) h1" and "rg_body r = None"
  shows "passes E K h (rg_owned r') h'"
proof -
  obtain r1 h2 where y: "range_yield E r h1 = (r1, h2)" by (metis surj_pair)
  have "passes E K h (rg_owned r1 \<union> stream_body body) h2"
    using range_yield_passes [OF y, of K h "stream_body body"] assms(2,3) by (simp add: rg_owned_def)
  moreover have "rg_body r1 = None"
    using y assms(3) by (auto simp: range_yield_def range_close_def split: if_splits)
  ultimately have "passes E K h (stream_body body) h2" by (simp add: rg_owned_def)
  with assms(1) y \<open>rg_body r1 = None\<close> show ?thesis
    by (auto simp: install_range_continuation_def rg_owned_def intro: passes_stream_close split: if_splits)
qed

lemma get_settled:
  assumes "get_after_attempts E c u hdr spent h = (out, h')"
  shows "settled E (case out of Inl e \<Rightarrow> {} | Inr (resp, n) \<Rightarrow> {rs_body resp}) h h'"
proof (cases "attempts (cl_retry c) - spent \<le> 0")
  case True
  with assms show ?thesis by (auto simp: get_after_attempts_def)
next
  case False
  obtain res a h1 where run: "do_retry E (c\<lparr>cl_retry := (cl_retry c)\<lparr>rp_max_attempts :=
      attempts (cl_retry c) - spent\<rparr>\<rparr>) (get_build u hdr) spent h = (res, a, h1)" by (metis prod_cases3)
  from do_retry_settled_run [OF run] assms False run show ?thesis
    by (cases res) (auto simp: get_after_attempts_def Let_def settled_rejected
        split: if_splits prod.splits)
qed

lemma range_continue_passes:
  assumes "range_continue E c target r h1 = (e, r', h')"
    and "passes E K h {} h1" and "rg_body r = None"
  shows "passes E K h (rg_owned r') h'"
proof -
  obtain out h2 where g: "get E c target (range_header (rg_next r) (rg_end r)) h1 = (out, h2)"
    by (metis surj_pair)
  have s: "settled E (case out of Inl e \<Rightarrow> {} | Inr (resp, n) \<Rightarrow> {rs_body resp}) h1 h2"
    using g get_settled by (simp add: get_def)
  show ?thesis
  proof (cases out)
    case (Inl e1)
    with s passes_trans [OF assms(2) passes_settled, of _ h2] have p: "passes E K h {} h2" by simp
    obtain se r1 h3 where st: "range_state_error E r h2 = (se, r1, h3)" by (metis prod_cases3)
    have "passes E K h (rg_owned r1) h3"
      using range_state_error_passes [OF st, of K h "{}"] p assms(3) by (simp add: rg_owned_def)
    with assms(1) g Inl st show ?thesis
      by (auto simp: range_continue_def Let_def split: option.splits)
  next
    case (Inr q)
    obtain resp n where q: "q = (resp, n)" by (metis surj_pair)
    with s Inr passes_trans [OF assms(2) passes_settled, of _ h2]
    have p: "passes E K h {rs_body resp} h2" by simp
    have closed: "passes E K h (rg_owned r) (body_close (rs_body resp) h2)"
      using passes_stream_close [of E K h "Net (rs_body resp)" "{}" h2] p assms(3)
      by (simp add: rg_owned_def)
    show ?thesis
      using assms(1) g Inr q closed p install_passes [of E "Net (rs_body resp)" _ _ r h2 e r' h' K h] assms(3)
      by (auto simp: range_continue_def Let_def split: if_splits sum.splits)
  qed
qed

lemma range_advance_passes:
  assumes "range_advance E c target r h = (e, r', h')"
  shows "passes E (rg_owned r) h (rg_owned r') h'"
proof -
  obtain r1 h1 where y: "range_yield E r h = (r1, h1)" by (metis surj_pair)
  have p1: "passes E (rg_owned r) h (rg_owned r1) h1"
    using range_yield_passes [OF y, of "rg_owned r" h "{}"] by simp
  obtain ce h2 where ct: "ctx_err E h1 = (ce, h2)" by (metis surj_pair)
  note p2 = passes_ctx [OF ct p1]
  let ?r2 = "r1\<lparr>rg_body := None\<rparr>" and ?h3 = "close_body (rg_body r1) h2"
  have p3: "passes E (rg_owned r) h {} ?h3"
    using p2 by (intro passes_close_body) (simp add: rg_owned_def)
  have p4: "passes E (rg_owned r) h (rg_owned ?r2) ?h3" using p3 by (simp add: rg_owned_def)
  have p5: "passes E (rg_owned r) h (rg_owned r') h'"
    if "range_continue E c target ?r2 ?h3 = (e, r', h')"
    by (rule range_continue_passes [OF that p3]) simp
  show ?thesis
    using assms p1 p2 p4 p5 unfolding range_advance_def y ct prod.case Let_def
    by (auto split: if_splits option.splits)
qed

lemma range_read_current_passes:
  assumes "range_read_current E n r h = ((d, dr, e), r', h')"
  shows "passes E (rg_owned r) h (rg_owned r') h'"
proof -
  obtain r1 h1 where y1: "range_yield E r h = (r1, h1)" by (metis surj_pair)
  have p1: "passes E (rg_owned r) h (rg_owned r1) h1"
    using range_yield_passes [OF y1, of "rg_owned r" h "{}"] by simp
  show ?thesis
  proof (cases "rg_body r1")
    case None
    with assms y1 p1 show ?thesis by (simp add: range_read_current_def)
  next
    case (Some s)
    let ?m = "if int n > rg_remaining r1 then nat (rg_remaining r1) else n"
    obtain r2 h2 where y2: "range_yield E r1 h1 = (r2, h2)" by (metis surj_pair)
    obtain d1 e1 s' h3 where rd: "stream_read E ?m s h2 = ((d1, e1), s', h3)" by (metis prod_cases4 surj_pair)
    obtain r3 h4 where y3: "range_yield E r2 h3 = (r3, h4)" by (metis surj_pair)
    let ?r4 = "r3\<lparr>rg_remaining := rg_remaining r3 - int (length d1),
      rg_body := (case rg_body r3 of Some _ \<Rightarrow> Some s' | None \<Rightarrow> None)\<rparr>"
    obtain se r5 h5 where st: "range_state_error E ?r4 h4 = (se, r5, h5)" by (metis prod_cases3)
    have p2: "passes E (rg_owned r) h (rg_owned r2) h2"
      using range_yield_passes [OF y2, of "rg_owned r" h "{}"] p1 by simp
    have b2: "rg_body r2 = Some s \<or> rg_body r2 = None"
      using y2 Some by (auto simp: range_yield_def range_close_def split: if_splits)
    have p3: "passes E (rg_owned r) h (rg_owned r2) h3"
      by (rule passes_trans [OF p2]) (simp add: passes_def stream_read_settled [OF rd])
    have p4: "passes E (rg_owned r) h (rg_owned r3) h4"
      using range_yield_passes [OF y3, of "rg_owned r" h "{}"] p3 by simp
    have b3: "rg_body r3 = Some s \<or> rg_body r3 = None"
      using y3 b2 by (auto simp: range_yield_def range_close_def split: if_splits)
    have "rg_owned ?r4 = rg_owned r3"
      using b3 stream_read_keeps [OF rd] by (auto simp: rg_owned_def)
    with p4 range_state_error_passes [OF st, of "rg_owned r" h "{}"]
    have p5: "passes E (rg_owned r) h (rg_owned r5) h5" by simp
    have "r' = r5 \<and> h' = h5"
      using assms Some unfolding range_read_current_def y1 y2 rd y3 prod.case option.case Let_def st
      by (auto simp: y2 rd y3 st split: option.splits if_splits)
    with p5 show ?thesis by simp
  qed
qed

section \<open>The window\<close>

text \<open>
  \<open>range_left\<close>: the bytes of the requested window that have not been delivered yet, those left in
  the current response and those no response covers so far.
\<close>

definition range_left :: "range_reader \<Rightarrow> int" where
  "range_left r = rg_remaining r + (if rg_total r \<ge> 0 then rg_end r + 1 - rg_next r else 0)"

definition range_ok :: "range_reader \<Rightarrow> bool" where
  "range_ok r \<longleftrightarrow> 0 \<le> rg_remaining r \<and> (rg_total r \<ge> 0 \<longrightarrow> rg_next r \<le> rg_end r + 1) \<and>
     0 \<le> rg_parts r \<and> rg_parts r \<le> max_range_parts"

lemma range_same_ok: "range_same r r' \<Longrightarrow> range_ok r' = range_ok r \<and> range_left r' = range_left r"
  by (simp add: range_same_def range_ok_def range_left_def)

lemma eof_not [simp]:
  "Internal IoClosedPipe \<noteq> eof" "wrapf m e \<noteq> eof" "Text t \<noteq> eof" "Internal NilDereference \<noteq> eof"
  by (simp_all add: eof_def wrapf_def)

lemma ctx_not_eof: "ctx_contract E \<Longrightarrow> ctx_err E h = (e, h') \<Longrightarrow> e \<noteq> Some eof"
  using ctx_contract_kind [of E h] by (auto simp: ctx_err_def eof_def)

lemma range_state_error_not_eof:
  "ctx_contract E \<Longrightarrow> range_state_error E r h = (e, r', h') \<Longrightarrow> e \<noteq> Some eof"
  by (auto simp: range_state_error_def dest: ctx_not_eof split: prod.splits if_splits)

lemma validate_content_range_Inr:
  "validate_content_range hdr start final = Inr cr \<Longrightarrow>
   cr_start cr = start \<and> cr_end cr \<le> final \<and> start \<le> cr_end cr \<and> cr_end cr < cr_total cr"
  using parse_content_range_bounds [of hdr]
  by (auto simp: validate_content_range_def split: option.splits if_splits)

lemma install_ok:
  assumes "install_range_continuation E body parsed (rg_parts r) r h = (e, r', h')"
    and "range_ok r" and "rg_remaining r = 0" and "rg_parts r \<noteq> max_range_parts" and "rg_total r \<ge> 0"
    and "cr_start parsed = rg_next r" "cr_end parsed \<le> rg_end r" "cr_start parsed \<le> cr_end parsed"
  shows "range_ok r' \<and> range_left r' = range_left r \<and> e \<noteq> Some eof \<and>
    (e = None \<longrightarrow> 0 < rg_remaining r')"
proof -
  obtain r1 h1 where y: "range_yield E r h = (r1, h1)" by (metis surj_pair)
  from range_yield_same [OF y] have same: "rg_end r1 = rg_end r" "rg_total r1 = rg_total r"
    "range_ok r1" "range_left r1 = range_left r"
    using range_same_ok [OF range_yield_same [OF y]] assms(2) by (simp_all add: range_same_def)
  show ?thesis
  proof (cases "rg_closed r1")
    case True
    with assms(1) y same show ?thesis by (auto simp: install_range_continuation_def)
  next
    case False
    with assms(1) y have "e = None" and r': "r' = r1\<lparr>rg_body := Some body,
        rg_remaining := cr_end parsed - cr_start parsed + 1, rg_next := cr_end parsed + 1,
        rg_parts := rg_parts r + 1\<rparr>"
      by (auto simp: install_range_continuation_def)
    with assms(2-) same(1,2) show ?thesis
      by (simp add: range_ok_def range_left_def)
  qed
qed

lemma range_continue_ok:
  assumes "range_continue E c target r h = (e, r', h')" and "ctx_contract E"
    and "range_ok r" and "rg_remaining r = 0" and "rg_parts r \<noteq> max_range_parts" and "rg_total r \<ge> 0"
  shows "range_ok r' \<and> range_left r' = range_left r \<and> e \<noteq> Some eof \<and>
    (e = None \<longrightarrow> 0 < rg_remaining r')"
proof -
  obtain out h1 where g: "get E c target (range_header (rg_next r) (rg_end r)) h = (out, h1)"
    by (metis surj_pair)
  show ?thesis
  proof (cases out)
    case (Inl e1)
    obtain se r1 h2 where st: "range_state_error E r h1 = (se, r1, h2)" by (metis prod_cases3)
    from range_same_ok [OF range_state_error_same [OF st]] range_state_error_not_eof [OF assms(2) st]
      assms(1,3) g Inl st
    show ?thesis by (cases se) (auto simp: range_continue_def Let_def)
  next
    case (Inr q)
    obtain resp n where q: "q = (resp, n)" by (metis surj_pair)
    show ?thesis
    proof (cases "validate_content_range (header_get (rs_header resp) ''Content-Range'') (rg_next r) (rg_end r)")
      case (Inl e1)
      with assms(1,3) g Inr q show ?thesis by (auto simp: range_continue_def Let_def split: if_splits)
    next
      case (Inr cr)
      note v = validate_content_range_Inr [OF Inr]
      show ?thesis
        using assms(1,3) g \<open>out = Inr q\<close> q Inr v
          install_ok [OF _ assms(3-6), of E "Net (rs_body resp)" cr h1 e r' h']
        by (auto simp: range_continue_def Let_def split: if_splits)
    qed
  qed
qed

lemma range_advance_ok:
  assumes "range_advance E c target r h = (e, r', h')" and "ctx_contract E" and "range_ok r"
  shows "range_ok r' \<and> range_left r' = range_left r \<and> (e = None \<longrightarrow> 0 < rg_remaining r') \<and>
    (e = Some eof \<longrightarrow> range_left r' = 0)"
proof -
  obtain r1 h1 where y: "range_yield E r h = (r1, h1)" by (metis surj_pair)
  obtain ce h2 where ct: "ctx_err E h1 = (ce, h2)" by (metis surj_pair)
  let ?r2 = "r1\<lparr>rg_body := None\<rparr>" and ?h3 = "close_body (rg_body r1) h2"
  have same: "range_ok r1" "range_left r1 = range_left r"
    using range_same_ok [OF range_yield_same [OF y]] assms(3) by simp_all
  have "range_left ?r2 = range_left r1" by (simp add: range_left_def)
  with same have ok2: "range_ok ?r2" "range_left ?r2 = range_left r"
    by (simp_all add: range_ok_def)
  have cont: "range_ok r' \<and> range_left r' = range_left r \<and> e \<noteq> Some eof \<and> (e = None \<longrightarrow> 0 < rg_remaining r')"
    if "range_continue E c target ?r2 ?h3 = (e, r', h')" "rg_remaining r1 = 0" "rg_total r1 \<ge> 0"
      "rg_parts r1 \<noteq> max_range_parts"
    using range_continue_ok [OF that(1) assms(2) ok2(1)] that(2-4) ok2(2) by simp
  have zero: "rg_remaining r1 = 0" if "\<not> 0 < rg_remaining r1"
    using same(1) that by (simp add: range_ok_def)
  show ?thesis
    using assms(1) same ok2 cont zero ctx_not_eof [OF assms(2) ct]
    unfolding range_advance_def y ct prod.case Let_def
    by (auto split: if_splits option.splits) (auto simp: range_left_def range_ok_def)
qed

text \<open>The two ways of \<open>readCurrent\<close>: the body is gone, or it is read once and classified.\<close>

lemma range_read_current_elim:
  assumes "range_read_current E n r h = ((d, dr, e), r', h')"
  obtains
    (gone) "d = []" "\<not> dr" "e = Some (Internal NilDereference)" "range_same r r'"
  | (read) r4 e1 se h4 where "range_state_error E r4 h4 = (se, r', h')"
      "rg_remaining r4 = rg_remaining r - int (length d)" "range_left r4 = range_left r - int (length d)"
      "range_ok r \<Longrightarrow> int (length d) \<le> rg_remaining r \<Longrightarrow> range_ok r4"
      "length d \<le> n" "0 \<le> rg_remaining r \<Longrightarrow> int (length d) \<le> rg_remaining r"
      "(d, dr, e) = (case se of Some x \<Rightarrow> (d, False, Some x) | None \<Rightarrow> range_classify d e1 (rg_remaining r4))"
proof -
  obtain r1 h1 where y1: "range_yield E r h = (r1, h1)" by (metis surj_pair)
  note s1 = range_yield_same [OF y1]
  show thesis
  proof (cases "rg_body r1")
    case None
    with assms y1 s1 gone show ?thesis by (auto simp: range_read_current_def)
  next
    case (Some s)
    let ?m = "if int n > rg_remaining r1 then nat (rg_remaining r1) else n"
    obtain r2 h2 where y2: "range_yield E r1 h1 = (r2, h2)" by (metis surj_pair)
    obtain d1 e1 s' h3 where rd: "stream_read E ?m s h2 = ((d1, e1), s', h3)" by (metis prod_cases4 surj_pair)
    obtain r3 h4 where y3: "range_yield E r2 h3 = (r3, h4)" by (metis surj_pair)
    define r4 where "r4 = r3\<lparr>rg_remaining := rg_remaining r3 - int (length d1),
      rg_body := (case rg_body r3 of Some _ \<Rightarrow> Some s' | None \<Rightarrow> None)\<rparr>"
    obtain se r5 h5 where st: "range_state_error E r4 h4 = (se, r5, h5)" by (metis prod_cases3)
    have s3: "range_same r r3"
      using s1 range_yield_same [OF y2] range_yield_same [OF y3] range_same_trans by metis
    have len: "length d1 \<le> n" "0 \<le> rg_remaining r \<Longrightarrow> int (length d1) \<le> rg_remaining r"
      using stream_read_length [OF rd] s1 by (auto simp: range_same_def split: if_splits)
    have eq: "(case se of Some x \<Rightarrow> ((d1, False, Some x), r5, h5)
        | None \<Rightarrow> (range_classify d1 e1 (rg_remaining r4), r5, h5)) = ((d, dr, e), r', h')"
      using assms unfolding range_read_current_def y1 prod.case Some option.case Let_def y2 rd y3
        r4_def [symmetric] st
      by (cases se) auto
    have "fst (range_classify d1 e1 (rg_remaining r4)) = d1" by (simp add: range_classify_def)
    with eq have d: "d1 = d" and rest: "r5 = r'" "h5 = h'"
      by (cases se; auto)+
    show ?thesis
    proof (rule read [of r4 h4 se e1])
      show "range_state_error E r4 h4 = (se, r', h')" using st rest by simp
      show "rg_remaining r4 = rg_remaining r - int (length d)"
        and "range_left r4 = range_left r - int (length d)"
        using s3 d by (simp_all add: r4_def range_same_def range_left_def)
      show "range_ok r \<Longrightarrow> int (length d) \<le> rg_remaining r \<Longrightarrow> range_ok r4"
        using s3 d by (simp add: r4_def range_same_def range_ok_def)
      show "length d \<le> n" "0 \<le> rg_remaining r \<Longrightarrow> int (length d) \<le> rg_remaining r"
        using len d by simp_all
      show "(d, dr, e) = (case se of Some x \<Rightarrow> (d, False, Some x)
          | None \<Rightarrow> range_classify d e1 (rg_remaining r4))"
        using eq d by (cases se) auto
    qed
  qed
qed

lemma range_read_current_drained:
  assumes "range_read_current E n r h = (([], dr, None), r', h')" and "0 < rg_remaining r"
  shows "\<not> dr"
  using assms(1)
proof (cases rule: range_read_current_elim)
  case (read r4 e1 se h4)
  with assms(2) show ?thesis by (auto simp: range_classify_def split: option.splits if_splits)
qed simp

lemma range_read_current_ok:
  assumes "range_read_current E n r h = ((d, dr, e), r', h')" and "ctx_contract E" and "range_ok r"
  shows "range_ok r' \<and> range_left r' = range_left r - int (length d) \<and> length d \<le> n \<and> e \<noteq> Some eof"
  using assms(1)
proof (cases rule: range_read_current_elim)
  case gone
  with range_same_ok [OF gone(4)] assms(3) show ?thesis by simp
next
  case (read r4 e1 se h4)
  have "0 \<le> rg_remaining r" using assms(3) by (simp add: range_ok_def)
  with read assms(3) have ok4: "range_ok r4" by simp
  have "snd (snd (range_classify d e1 (rg_remaining r4))) \<noteq> Some eof"
    by (auto simp: range_classify_def is_eof_def errors_is_def eof_def wrapf_def)
  moreover from read(7) have "e = (case se of Some x \<Rightarrow> Some x
      | None \<Rightarrow> snd (snd (range_classify d e1 (rg_remaining r4))))"
    by (cases se) (simp_all, metis snd_conv)
  ultimately have "e \<noteq> Some eof"
    using range_state_error_not_eof [OF assms(2) read(1)] by (cases se) auto
  with ok4 range_same_ok [OF range_state_error_same [OF read(1)]] read(3,5) show ?thesis by simp
qed

text \<open>One turn of the loop always leaves it.\<close>

lemma range_continue_positive:
  assumes "range_continue E c target r h = (None, r', h')" shows "0 < rg_remaining r'"
  using assms validate_content_range_Inr
  by (fastforce simp: range_continue_def Let_def install_range_continuation_def
      split: prod.splits sum.splits option.splits if_splits)

lemma range_advance_positive:
  "range_advance E c target r h = (None, r', h') \<Longrightarrow> 0 < rg_remaining r'"
  by (auto simp: range_advance_def Let_def range_continue_positive
      split: prod.splits option.splits if_splits)

interpretation range_loop: bounded_attempts "range_turn E c target n" 1 for E c target n
proof
  fix s s' :: "range_reader \<times> history"
  obtain r h where s: "s = (r, h)" by (metis surj_pair)
  obtain ae r1 h1 where a: "range_advance E c target r h = (ae, r1, h1)" by (metis prod_cases3)
  obtain d dr e r2 h2 where rc: "range_read_current E n r1 h1 = ((d, dr, e), r2, h2)"
    by (metis prod_cases5 surj_pair)
  show "range_turn E c target n 1 s \<noteq> Inr s'"
    using range_advance_positive [of E c target r h r1 h1] a rc
      range_read_current_drained [of E n r1 h1 dr r2 h2]
    by (auto simp: range_turn_def s split: option.splits)
qed simp

text \<open>A read is one turn: the loop of \<open>Read\<close> never goes round.\<close>

lemma range_read_turn:
  assumes "0 < n"
  obtains q where "range_turn E c target n 1 (r, h) = Inl q" "range_read E c target n r h = q"
  using range_loop.loop_total [of E c target n "(r, h)"] assms
  by (cases "range_turn E c target n 1 (r, h)") (auto simp: range_read_def)

lemma range_read_ok:
  assumes "range_read E c target n r h = ((d, e), r', h')" and "ctx_contract E" and "range_ok r"
  shows "range_ok r' \<and> range_left r' = range_left r - int (length d) \<and> length d \<le> n \<and>
    (e = Some eof \<longrightarrow> range_left r' = 0)"
proof (cases "n = 0")
  case True
  obtain se r1 h1 where st: "range_state_error E r h = (se, r1, h1)" by (metis prod_cases3)
  from range_same_ok [OF range_state_error_same [OF st]] range_state_error_not_eof [OF assms(2) st]
    assms(1,3) True st show ?thesis by (auto simp: range_read_def)
next
  case False
  then obtain q where t: "range_turn E c target n 1 (r, h) = Inl q" "range_read E c target n r h = q"
    using range_read_turn by blast
  obtain ae r1 h1 where a: "range_advance E c target r h = (ae, r1, h1)" by (metis prod_cases3)
  note ok1 = range_advance_ok [OF a assms(2,3)]
  show ?thesis
  proof (cases ae)
    case (Some x)
    with assms(1) t a ok1 show ?thesis by (auto simp: range_turn_def)
  next
    case None
    obtain d1 dr e1 r2 h2 where rc: "range_read_current E n r1 h1 = ((d1, dr, e1), r2, h2)"
      by (metis prod_cases5 surj_pair)
    from range_read_current_ok [OF rc assms(2)] ok1 None
    have "range_ok r2" "range_left r2 = range_left r - int (length d1)" "length d1 \<le> n" "e1 \<noteq> Some eof"
      by simp_all
    with assms(1) t a None rc show ?thesis by (auto simp: range_turn_def split: if_splits)
  qed
qed

lemma range_read_passes:
  assumes "range_read E c target n r h = ((d, e), r', h')"
  shows "passes E (rg_owned r) h (rg_owned r') h'"
proof (cases "n = 0")
  case True
  obtain se r1 h1 where st: "range_state_error E r h = (se, r1, h1)" by (metis prod_cases3)
  from range_state_error_passes [OF st, of "rg_owned r" h "{}"] assms True st show ?thesis
    by (simp add: range_read_def)
next
  case False
  then obtain q where t: "range_turn E c target n 1 (r, h) = Inl q" "range_read E c target n r h = q"
    using range_read_turn by blast
  obtain ae r1 h1 where a: "range_advance E c target r h = (ae, r1, h1)" by (metis prod_cases3)
  note p1 = range_advance_passes [OF a]
  show ?thesis
  proof (cases ae)
    case (Some x)
    with assms t a p1 show ?thesis by (auto simp: range_turn_def)
  next
    case None
    obtain d1 dr e1 r2 h2 where rc: "range_read_current E n r1 h1 = ((d1, dr, e1), r2, h2)"
      by (metis prod_cases5 surj_pair)
    note p2 = passes_trans [OF p1 range_read_current_passes [OF rc]]
    with assms t a None rc show ?thesis by (auto simp: range_turn_def split: if_splits)
  qed
qed

lemma range_read_length: "range_read E c target n r h = ((d, e), r', h') \<Longrightarrow> length d \<le> n"
proof (cases "n = 0")
  case False
  assume r: "range_read E c target n r h = ((d, e), r', h')"
  from False obtain q where t: "range_turn E c target n 1 (r, h) = Inl q" "range_read E c target n r h = q"
    using range_read_turn by blast
  obtain ae r1 h1 where a: "range_advance E c target r h = (ae, r1, h1)" by (metis prod_cases3)
  obtain d1 dr e1 r2 h2 where rc: "range_read_current E n r1 h1 = ((d1, dr, e1), r2, h2)"
    by (metis prod_cases5 surj_pair)
  from rc have "length d1 \<le> n" by (cases rule: range_read_current_elim) simp_all
  with r t a rc show ?thesis by (auto simp: range_turn_def split: option.splits if_splits)
qed (auto simp: range_read_def split: prod.splits)

interpretation range_bytes: byte_reader E "range_read E c target" rg_owned for E c target
  by unfold_locales (fact range_read_length, fact range_read_passes)

section \<open>PullRange\<close>

text \<open>
  The checks of \<open>PullRange\<close> before its request, and the request with the two kinds of answer it
  serves: a partial response that starts at the offset, or the whole blob, out of which the
  window is carved.
\<close>

definition pull_range_check ::
    "(string \<Rightarrow> goerr option) \<Rightarrow> repository \<Rightarrow> string \<Rightarrow> int \<Rightarrow> int \<Rightarrow> goerr option" where
  "pull_range_check digest_check repo dgst offset len =
     (case validate_target digest_check repo dgst of
        Some e \<Rightarrow> Some e
      | None \<Rightarrow>
          if offset < 0 then Some (Text (''negative offset '' @ fmt_d offset))
          else if len \<le> 0 then Some (Text (''non-positive length '' @ fmt_d len))
          else if len - 1 > max_int64 - offset then
            Some (Text (''range offset '' @ fmt_d offset @ '' and length '' @ fmt_d len @ '' overflow''))
          else None)"

definition whole_blob_window ::
    "env \<Rightarrow> string \<Rightarrow> response \<Rightarrow> int \<Rightarrow> int \<Rightarrow> history \<Rightarrow> (goerr + range_reader) \<times> history" where
  "whole_blob_window E dgst resp offset final h =
     (case body_skip E (rs_body resp) offset h of
        (Some e, h1) \<Rightarrow>
          (case context_operation_error E e (body_close (rs_body resp) h1) of
             (e', h2) \<Rightarrow> (Inl (wrapf (''blob '' @ dgst @ '' is shorter than range offset '' @ fmt_d offset) e'), h2))
      | (None, h1) \<Rightarrow>
        (case buffered_peek E (rs_body resp) 100 h1 of
           (Some e, _, h2) \<Rightarrow>
             (case context_operation_error E e (body_close (rs_body resp) h2) of
                (e', h3) \<Rightarrow> (Inl (wrapf (''blob '' @ dgst @ '' has no data at range offset '' @ fmt_d offset) e'), h3))
         | (None, s, h2) \<Rightarrow>
           (case ctx_err E h2 of
              (Some e, h3) \<Rightarrow> (Inl (wrapf (''reading blob '' @ dgst @ '' at range offset '' @ fmt_d offset) e),
                             body_close (rs_body resp) h3)
            | (None, h3) \<Rightarrow>
                (Inr (new_range_reader s \<lparr>cr_start = offset, cr_end = final, cr_total = -1\<rparr> final), h3))))"

definition pull_range ::
    "env \<Rightarrow> (string \<Rightarrow> goerr option) \<Rightarrow> client \<Rightarrow> repository \<Rightarrow> string \<Rightarrow> int \<Rightarrow> int
      \<Rightarrow> transfer_option option list \<Rightarrow> history
      \<Rightarrow> (goerr + range_reader progress_reader) \<times> history" where
  "pull_range E digest_check c repo dgst offset len opts h =
     (case pull_range_check digest_check repo dgst offset len of
        Some e \<Rightarrow> (Inl e, h)
      | None \<Rightarrow>
        let tracker = new_progress_tracker (tc_progress (apply_transfer_options opts) \<noteq> None) len;
            final = offset + len - 1;
            hdr = range_header offset final;
            target = blob_url (client_scheme c) repo dgst;
            label = ''pulling range '' @ hdr @ '' of blob '' @ dgst @ '' from '' @ repo_host repo
                      @ ''/'' @ repo_name repo
        in (case get E c target hdr h of
              (Inl e, h1) \<Rightarrow> (Inl (wrapf label e), h1)
            | (Inr (resp, _), h1) \<Rightarrow>
                if rs_status resp = 206 then
                  (case validate_content_range (header_get (rs_header resp) ''Content-Range'') offset final of
                     Inl e \<Rightarrow> (Inl (wrapf label e), body_close (rs_body resp) h1)
                   | Inr parsed \<Rightarrow>
                       (Inr \<lparr>pr_body = new_range_reader (Net (rs_body resp)) parsed final,
                             pr_tracker = tracker\<rparr>, h1))
                else if rs_status resp \<noteq> 200 then
                  (Inl (Text (label @ '': registry returned unexpected status '' @ fmt_d (rs_status resp))),
                   body_close (rs_body resp) h1)
                else
                  (case whole_blob_window E dgst resp offset final h1 of
                     (Inl e, h2) \<Rightarrow> (Inl e, h2)
                   | (Inr r, h2) \<Rightarrow> (Inr \<lparr>pr_body = r, pr_tracker = tracker\<rparr>, h2))))"

section \<open>What PullRange delivers\<close>

lemma pull_range_check_None:
  "pull_range_check digest_check repo dgst offset len = None \<Longrightarrow> 0 \<le> offset \<and> 0 < len"
  by (auto simp: pull_range_check_def split: option.splits if_splits)

lemma new_range_reader_ok:
  assumes "cr_start cr \<le> cr_end cr" and "cr_end cr \<le> final"
  shows "range_ok (new_range_reader s cr final)"
    and "range_left (new_range_reader s cr final) =
      (if cr_total cr \<ge> 0 then final else cr_end cr) + 1 - cr_start cr"
  using assms by (simp_all add: new_range_reader_def range_ok_def range_left_def max_range_parts_def)

lemma whole_blob_window_Inr:
  "whole_blob_window E dgst resp offset final h = (Inr r, h') \<Longrightarrow>
   \<exists>s. r = new_range_reader s \<lparr>cr_start = offset, cr_end = final, cr_total = -1\<rparr> final"
  by (auto simp: whole_blob_window_def split: prod.splits option.splits)

text \<open>The reader of a successful call covers the window.\<close>

lemma pull_range_reader:
  assumes "pull_range E digest_check c repo dgst offset len opts h = (Inr p, h1)"
  shows "0 < len \<and> (\<exists>s cr. pr_body p = new_range_reader s cr (offset + len - 1) \<and> cr_start cr = offset \<and>
    offset \<le> cr_end cr \<and> cr_end cr \<le> offset + len - 1 \<and> (cr_total cr < 0 \<longrightarrow> cr_end cr = offset + len - 1))"
proof -
  have chk: "pull_range_check digest_check repo dgst offset len = None"
    using assms by (auto simp: pull_range_def split: option.splits)
  note pos = pull_range_check_None [OF this]
  obtain out h2 where g: "get E c (blob_url (client_scheme c) repo dgst)
      (range_header offset (offset + len - 1)) h = (out, h2)" by (metis surj_pair)
  obtain resp n where out: "out = Inr (resp, n)"
    using assms chk g by (cases out) (auto simp: pull_range_def Let_def)
  show ?thesis
  proof (cases "rs_status resp = 206")
    case True
    then obtain cr where v: "validate_content_range (header_get (rs_header resp) ''Content-Range'')
        offset (offset + len - 1) = Inr cr" and p: "pr_body p = new_range_reader (Net (rs_body resp)) cr (offset + len - 1)"
      using assms chk g out by (auto simp: pull_range_def Let_def split: sum.splits)
    from validate_content_range_Inr [OF v] p pos show ?thesis by fastforce
  next
    case False
    then obtain r h3 where w: "whole_blob_window E dgst resp offset (offset + len - 1) h2 = (Inr r, h3)"
      and p: "pr_body p = r"
      using assms chk g out by (auto simp: pull_range_def Let_def split: sum.splits prod.splits if_splits)
    from whole_blob_window_Inr [OF w] p pos show ?thesis by fastforce
  qed
qed

lemma pull_range_opened:
  assumes "pull_range E digest_check c repo dgst offset len opts h = (Inr p, h1)"
  shows "range_ok (pr_body p)" and "range_left (pr_body p) = len"
  using pull_range_reader [OF assms] by (auto simp: new_range_reader_ok)

lemma range_seq_left:
  assumes "ctx_contract E"
  shows "read_seq (progress_read (range_read E c target)) ns p h = ((d, e), p', h') \<Longrightarrow>
    range_ok (pr_body p) \<Longrightarrow>
    range_ok (pr_body p') \<and> range_left (pr_body p') = range_left (pr_body p) - int (length d) \<and>
    (e = Some eof \<longrightarrow> range_left (pr_body p') = 0)"
proof (induction ns arbitrary: p h d)
  case (Cons n ns)
  obtain d1 e1 r1 h1 where r: "range_read E c target n (pr_body p) h = ((d1, e1), r1, h1)"
    by (metis prod_cases4 surj_pair)
  obtain t h2 where t: "tracker_add (int (length d1)) (pr_tracker p) h1 = (t, h2)" by (metis surj_pair)
  let ?p1 = "p\<lparr>pr_body := r1, pr_tracker := t\<rparr>"
  have pr: "progress_read (range_read E c target) n p h = ((d1, e1), ?p1, h2)"
    by (simp add: progress_read_def r t)
  note ok = range_read_ok [OF r assms Cons.prems(2)]
  show ?case
  proof (cases e1)
    case (Some x)
    with Cons.prems(1) pr ok show ?thesis by auto
  next
    case None
    with Cons.prems(1) pr obtain d2 where
      q: "read_seq (progress_read (range_read E c target)) ns ?p1 h2 = ((d2, e), p', h')" "d = d1 @ d2"
      by (auto split: prod.splits)
    from Cons.IH [OF q(1)] ok q(2) show ?thesis by auto
  qed
qed simp

lemma range_ok_left: "range_ok r \<Longrightarrow> 0 \<le> range_left r"
  by (auto simp: range_ok_def range_left_def)

definition sample_repo :: repository where
  "sample_repo = \<lparr>repo_host = ''reg.io'', repo_name = ''a''\<rparr>"

text \<open>
  C33. The reader of \<open>PullRange\<close> is documented as safe to close while it is read, but is not: if
  the Close takes the lock between the two critical sections in which \<open>Read\<close> checks the state
  and then fetches the body, \<open>Read\<close> calls a method of a nil interface.
\<close>

theorem range_read_close_race:
  assumes "0 < n" and "\<not> rg_closed r" and "0 < rg_remaining r"
    and "en_ctx E h = None" and "\<not> en_interrupt E h" and "en_interrupt E (EvCtx # h)"
  shows "fst (range_read E c target n r h) = ([], Some (Internal NilDereference))"
proof -
  have a: "range_advance E c target r h = (None, r, EvCtx # h)"
    using assms by (simp add: range_advance_def range_yield_def ctx_err_def)
  have "\<exists>h'. range_read_current E n r (EvCtx # h)
      = (([], False, Some (Internal NilDereference)), r\<lparr>rg_closed := True, rg_body := None\<rparr>, h')"
    using assms by (simp add: range_read_current_def range_yield_def range_close_def)
  with a have "\<exists>r' h'. range_turn E c target n 1 (r, h) = Inl (([], Some (Internal NilDereference)), r', h')"
    by (auto simp: range_turn_def)
  moreover obtain q where "range_turn E c target n 1 (r, h) = Inl q" "range_read E c target n r h = q"
    using range_read_turn [OF assms(1)] by blast
  ultimately show ?thesis by auto
qed

lemma range_read_close_race_witness:
  "fst (range_read (quiet_env\<lparr>en_interrupt := (\<lambda>h. h = [EvCtx])\<rparr>) sample_client sample_url 8
     (new_range_reader (Net 0) \<lparr>cr_start = 0, cr_end = 3, cr_total = 4\<rparr> 3) [])
   = ([], Some (Internal NilDereference))"
  by (rule range_read_close_race) (simp_all add: new_range_reader_def quiet_env_def)

section \<open>No body is left open\<close>

definition range_shut :: "range_reader \<Rightarrow> bool" where
  "range_shut r \<longleftrightarrow> (rg_closed r \<longrightarrow> rg_body r = None)"

lemma range_yield_shut: "range_shut r \<Longrightarrow> range_yield E r h = (r', h') \<Longrightarrow> range_shut r'"
  by (auto simp: range_shut_def range_yield_def range_close_def split: if_splits)

lemma range_state_error_shut: "range_shut r \<Longrightarrow> range_state_error E r h = (e, r', h') \<Longrightarrow> range_shut r'"
  by (auto simp: range_state_error_def dest: range_yield_shut split: prod.splits if_splits)

lemma install_shut:
  assumes "range_shut r" and "install_range_continuation E b cr k r h = (e, r', h')" shows "range_shut r'"
proof -
  obtain r1 h1 where y: "range_yield E r h = (r1, h1)" by (metis surj_pair)
  from range_yield_shut [OF assms(1) y] assms(2) y show ?thesis
    by (auto simp: install_range_continuation_def range_shut_def split: if_splits)
qed

lemma range_continue_shut:
  assumes "range_shut r" and "range_continue E c target r h = (e, r', h')" shows "range_shut r'"
proof -
  obtain out h1 where g: "get E c target (range_header (rg_next r) (rg_end r)) h = (out, h1)"
    by (metis surj_pair)
  show ?thesis
  proof (cases out)
    case (Inl e1)
    with assms g range_state_error_shut [OF assms(1)] show ?thesis
      by (auto simp: range_continue_def Let_def split: prod.splits option.splits)
  next
    case (Inr q)
    with assms g install_shut [OF assms(1)] show ?thesis
      by (auto simp: range_continue_def Let_def split: prod.splits sum.splits if_splits)
  qed
qed

lemma range_advance_shut:
  assumes "range_shut r" and "range_advance E c target r h = (e, r', h')" shows "range_shut r'"
proof -
  obtain r1 h1 where y: "range_yield E r h = (r1, h1)" by (metis surj_pair)
  have "range_shut r1" and "range_shut (r1\<lparr>rg_body := None\<rparr>)"
    using range_yield_shut [OF assms(1) y] by (simp_all add: range_shut_def)
  with assms(2) y range_continue_shut show ?thesis
    by (auto simp: range_advance_def Let_def split: prod.splits option.splits if_splits)
qed

lemma range_read_current_shut:
  assumes "range_shut r" and "range_read_current E n r h = (out, r', h')" shows "range_shut r'"
proof -
  obtain r1 h1 where y1: "range_yield E r h = (r1, h1)" by (metis surj_pair)
  note s1 = range_yield_shut [OF assms(1) y1]
  show ?thesis
  proof (cases "rg_body r1")
    case None
    with assms(2) y1 s1 show ?thesis by (simp add: range_read_current_def)
  next
    case (Some s)
    let ?m = "if int n > rg_remaining r1 then nat (rg_remaining r1) else n"
    obtain r2 h2 where y2: "range_yield E r1 h1 = (r2, h2)" by (metis surj_pair)
    obtain d1 e1 s' h3 where rd: "stream_read E ?m s h2 = ((d1, e1), s', h3)" by (metis prod_cases4 surj_pair)
    obtain r3 h4 where y3: "range_yield E r2 h3 = (r3, h4)" by (metis surj_pair)
    define r4 where "r4 = r3\<lparr>rg_remaining := rg_remaining r3 - int (length d1),
      rg_body := (case rg_body r3 of Some _ \<Rightarrow> Some s' | None \<Rightarrow> None)\<rparr>"
    obtain se r5 h5 where st: "range_state_error E r4 h4 = (se, r5, h5)" by (metis prod_cases3)
    have "range_shut r4"
      using range_yield_shut [OF range_yield_shut [OF s1 y2] y3] by (simp add: r4_def range_shut_def)
    from range_state_error_shut [OF this st] assms(2) show ?thesis
      unfolding range_read_current_def y1 prod.case Some option.case Let_def y2 rd y3 r4_def [symmetric] st
      by (cases se) auto
  qed
qed

lemma range_read_shut:
  assumes "range_shut r" and "range_read E c target n r h = (out, r', h')" shows "range_shut r'"
proof (cases "n = 0")
  case True
  with assms range_state_error_shut show ?thesis by (auto simp: range_read_def split: prod.splits)
next
  case False
  then obtain q where t: "range_turn E c target n 1 (r, h) = Inl q" "range_read E c target n r h = q"
    using range_read_turn by blast
  obtain ae r1 h1 where a: "range_advance E c target r h = (ae, r1, h1)" by (metis prod_cases3)
  obtain o2 r2 h2 where rc: "range_read_current E n r1 h1 = (o2, r2, h2)" by (metis prod_cases3)
  from range_advance_shut [OF assms(1) a] range_read_current_shut [OF _ rc] assms(2) t a rc
  show ?thesis by (auto simp: range_turn_def split: option.splits prod.splits if_splits)
qed

lemma range_seq_shut:
  "range_shut (pr_body p) \<Longrightarrow> read_seq (progress_read (range_read E c target)) ns p h = (out, p', h') \<Longrightarrow>
   range_shut (pr_body p')"
proof (induction ns arbitrary: p h out)
  case (Cons n ns)
  obtain o1 p1 h1 where r: "progress_read (range_read E c target) n p h = (o1, p1, h1)"
    by (metis prod_cases3)
  then have "range_shut (pr_body p1)"
    using Cons.prems(1) by (auto simp: progress_read_def dest: range_read_shut split: prod.splits)
  with Cons.IH [of p1 h1] Cons.prems(2) r show ?case by (auto split: prod.splits option.splits)
qed simp

lemma whole_blob_window_settled:
  assumes "whole_blob_window E dgst resp offset final h1 = (out, h')"
    and "settled E {rs_body resp} h h1"
  shows "settled E (case out of Inl e \<Rightarrow> {} | Inr r \<Rightarrow> rg_owned r) h h'"
proof -
  let ?b = "rs_body resp"
  obtain se h2 where sk: "body_skip E ?b offset h1 = (se, h2)" by (metis surj_pair)
  have s2: "settled E {?b} h h2"
    using assms(2) sk by (auto simp: body_skip_def intro: settled_event split: if_splits)
  obtain pe s h3 where pk: "buffered_peek E ?b 100 h2 = (pe, s, h3)" by (metis prod_cases3)
  have s3: "settled E {?b} h h3" "stream_body s = {?b}"
    using settled_trans [OF s2, of "{?b}" h3] peek_settled [OF pk, of "{?b}"] by auto
  obtain ce h4 where ct: "ctx_err E h3 = (ce, h4)" by (metis surj_pair)
  have s4: "settled E {?b} h h4" using s3(1) ct by (auto simp: ctx_err_def intro: settled_event)
  have c: "settled E {} h (body_close ?b h2)" "settled E {} h (body_close ?b h3)"
    "settled E {} h (body_close ?b h4)"
    using s2 s3(1) s4 by (simp_all add: settled_consumed)
  have own: "rg_owned (new_range_reader s cr final) = {?b}" for cr
    by (simp add: rg_owned_def new_range_reader_def s3(2))
  show ?thesis
    using assms(1) sk pk ct c own s4 settled_operation_error [OF c(1)] settled_operation_error [OF c(2)]
    by (auto simp: whole_blob_window_def split: option.splits prod.splits)
qed

lemma pull_range_settled:
  assumes "pull_range E digest_check c repo dgst offset len opts h = (out, h')"
  shows "settled E (case out of Inl e \<Rightarrow> {} | Inr p \<Rightarrow> rg_owned (pr_body p)) h h'"
proof (cases "pull_range_check digest_check repo dgst offset len")
  case (Some e)
  with assms show ?thesis by (auto simp: pull_range_def)
next
  case None
  obtain res h2 where g: "get E c (blob_url (client_scheme c) repo dgst)
      (range_header offset (offset + len - 1)) h = (res, h2)" by (metis surj_pair)
  have s: "settled E (case res of Inl e \<Rightarrow> {} | Inr (resp, n) \<Rightarrow> {rs_body resp}) h h2"
    using g get_settled by (simp add: get_def)
  show ?thesis
  proof (cases res)
    case (Inl e)
    with assms None g s show ?thesis by (auto simp: pull_range_def Let_def)
  next
    case (Inr q)
    obtain resp n where q: "q = (resp, n)" by (metis surj_pair)
    with s Inr have s2: "settled E {rs_body resp} h h2" by simp
    obtain w h3 where w: "whole_blob_window E dgst resp offset (offset + len - 1) h2 = (w, h3)"
      by (metis surj_pair)
    have own: "rg_owned (new_range_reader (Net (rs_body resp)) cr final) = {rs_body resp}" for cr final
      by (simp add: rg_owned_def new_range_reader_def)
    show ?thesis
      using assms None g Inr q s2 whole_blob_window_settled [OF w s2] w own
      by (auto simp: pull_range_def Let_def settled_consumed split: if_splits sum.splits)
  qed
qed

text \<open>
  C30. \<open>PullRange\<close> leaks nothing: after the call failed, or after any sequence of reads followed
  by \<open>Close\<close>, every response body that the call and the reads received is closed, whichever
  follow-up requests were made and wherever another \<open>Close\<close> ran, and every request went
  through the transport that it should.
\<close>

theorem pull_range_closed:
  "case pull_range E digest_check c repo dgst offset len opts h of
     (Inl e, h1) \<Rightarrow> settled E {} h h1
   | (Inr p, h1) \<Rightarrow>
       (case read_seq (progress_read (range_read E c target)) ns p h1 of
          (_, p', h2) \<Rightarrow> (case range_close (pr_body p') h2 of (_, h3) \<Rightarrow> settled E {} h h3))"
proof -
  obtain out h1 where run: "pull_range E digest_check c repo dgst offset len opts h = (out, h1)"
    by (metis surj_pair)
  note s1 = pull_range_settled [OF run]
  show ?thesis
  proof (cases out)
    case (Inl e)
    with run s1 show ?thesis by simp
  next
    case (Inr p)
    obtain o2 p' h2 where rd: "read_seq (progress_read (range_read E c target)) ns p h1 = (o2, p', h2)"
      by (metis prod_cases3)
    obtain r h3 where cl: "range_close (pr_body p') h2 = (r, h3)" by (metis surj_pair)
    have "passes E (rg_owned (pr_body p)) h1 (rg_owned (pr_body p')) h2"
      using byte_reader.read_seq_passes [OF progress_reader_contract [OF range_bytes.byte_reader_axioms]] rd
      by (cases o2) blast
    from passes_trans [OF passes_settled this] s1 Inr
    have p2: "passes E {} h (rg_owned (pr_body p')) h2" by simp
    have "range_shut (pr_body p)"
      using pull_range_reader [OF run [unfolded Inr]] by (auto simp: new_range_reader_def range_shut_def)
    from range_seq_shut [OF this rd] have sh: "range_shut (pr_body p')" .
    have "rg_owned r = {}"
      using cl sh by (auto simp: range_close_def rg_owned_def range_shut_def split: if_splits)
    with range_close_passes [OF cl, of E "{}" h "{}"] p2 have "settled E {} h h3"
      by (simp add: passes_def)
    with run Inr rd cl show ?thesis by simp
  qed
qed

end
