(* ===== verification/Resume.thy ===== *)
theory Resume
  imports RangeReader
begin

text \<open>
  resume.go: the reader that keeps a download alive across broken streams. Its state is what
  Read and Close share under the lock; wherever Read takes the lock, and before it reads the
  body, a concurrent Close may run.
\<close>

section \<open>State\<close>

record resume_reader =
  rm_body :: "stream option"
  rm_offset :: int
  rm_attempts :: int
  rm_body_end :: int
  rm_total :: int
  rm_closed :: bool

text \<open>\<open>spent\<close> is the count a \<open>requestAttemptBody\<close> carries, None for any other body.\<close>

definition new_resume_reader :: "stream \<Rightarrow> int option \<Rightarrow> resume_reader" where
  "new_resume_reader body spent =
     \<lparr>rm_body = Some body, rm_offset = 0,
      rm_attempts = (case spent of Some n \<Rightarrow> max n 1 | None \<Rightarrow> 1),
      rm_body_end = -1, rm_total = -1, rm_closed = False\<rparr>"

text \<open>A validated replacement: its stream, the total and the exclusive end, or -1.\<close>

record resume_response =
  rs_stream :: stream
  rs_total :: int
  rs_end :: int

definition resume_close :: "resume_reader \<Rightarrow> history \<Rightarrow> resume_reader \<times> history" where
  "resume_close r h =
     (if rm_closed r then (r, h)
      else (r\<lparr>rm_closed := True, rm_body := None\<rparr>, close_body (rm_body r) (EvCancel # h)))"

definition resume_yield :: "env \<Rightarrow> resume_reader \<Rightarrow> history \<Rightarrow> resume_reader \<times> history" where
  "resume_yield E r h = (if en_interrupt E h then resume_close r (EvInterrupt # h) else (r, h))"

text \<open>\<open>stateError\<close>, \<open>readableBody\<close> and \<open>recordRead\<close> check closure and context alike.\<close>

definition resume_state_error ::
    "env \<Rightarrow> resume_reader \<Rightarrow> history \<Rightarrow> goerr option \<times> resume_reader \<times> history" where
  "resume_state_error E r h =
     (case resume_yield E r h of
        (r1, h1) \<Rightarrow>
          if rm_closed r1 then (Some (Internal IoClosedPipe), r1, h1)
          else (case ctx_err E h1 of (e, h2) \<Rightarrow> (e, r1, h2)))"

definition known_total :: "env \<Rightarrow> resume_reader \<Rightarrow> history \<Rightarrow> int \<times> resume_reader \<times> history" where
  "known_total E r h = (case resume_yield E r h of (r1, h1) \<Rightarrow> (rm_total r1, r1, h1))"

section \<open>A replacement request\<close>

datatype reservation = Refused goerr | Exhausted | Reserved

definition reserve_resume_attempt ::
    "env \<Rightarrow> client \<Rightarrow> resume_reader \<Rightarrow> history \<Rightarrow> reservation \<times> resume_reader \<times> history" where
  "reserve_resume_attempt E c r h =
     (case resume_state_error E r h of
        (Some e, r1, h1) \<Rightarrow> (Refused e, r1, h1)
      | (None, r1, h1) \<Rightarrow>
          if rm_attempts r1 \<ge> attempts (cl_retry c) then (Exhausted, r1, h1)
          else (Reserved, r1\<lparr>rm_attempts := rm_attempts r1 + 1\<rparr>, h1))"

definition wait_for_resume_attempt ::
    "env \<Rightarrow> client \<Rightarrow> int \<Rightarrow> resume_reader \<Rightarrow> history \<Rightarrow> reservation \<times> resume_reader \<times> history" where
  "wait_for_resume_attempt E c retry_after r h =
     (case reserve_resume_attempt E c r h of
        (Reserved, r1, h1) \<Rightarrow>
          (case retry_wait E c (nat (rm_attempts r1 - 1)) retry_after h1 of
             (None, h2) \<Rightarrow> (Reserved, r1, h2)
           | (Some e, h2) \<Rightarrow>
               (case resume_state_error E r1 h2 of
                  (Some se, r2, h3) \<Rightarrow> (Refused se, r2, h3)
                | (None, r2, h3) \<Rightarrow>
                    (Refused (wrapf (''waiting to resume blob download at byte '' @ fmt_d (rm_offset r2)) e),
                     r2, h3)))
      | (refused, r1, h1) \<Rightarrow> (refused, r1, h1))"

definition resume_header :: "int \<Rightarrow> string" where
  "resume_header offset = ''bytes='' @ fmt_d offset @ ''-''"

definition request_resume ::
    "env \<Rightarrow> client \<Rightarrow> url \<Rightarrow> int \<Rightarrow> history \<Rightarrow> (goerr + response) \<times> history" where
  "request_resume E c target offset h =
     (case new_request ''GET'' target of
        Inl e \<Rightarrow> (Inl (wrapf ''building resume request'' e), h)
      | Inr req \<Rightarrow>
        (case do_registry_request E (cl_write_redirects c) no_body
                (req\<lparr>rq_header := header_set ''Range'' (resume_header offset) (rq_header req)\<rparr>) () h of
           (Inl e, _, h1) \<Rightarrow> (case context_operation_error E e h1 of (e', h2) \<Rightarrow> (Inl e', h2))
         | (Inr resp, _, h1) \<Rightarrow> (Inr resp, h1)))"

definition resuming :: "int \<Rightarrow> string" where
  "resuming offset = ''resuming blob download at byte '' @ fmt_d offset"

text \<open>An error with the cause of the reconnect: two \<open>%w\<close> verbs.\<close>

definition resume_failed :: "int \<Rightarrow> goerr \<Rightarrow> string \<Rightarrow> goerr \<Rightarrow> goerr" where
  "resume_failed offset cause why e =
     Wrapf (resuming offset @ '' (cause: '' @ err_text cause @ ''): '' @ why @ err_text e) [cause, e]"

definition validate_terminal_resume_response ::
    "env \<Rightarrow> response \<Rightarrow> int \<Rightarrow> resume_reader \<Rightarrow> history
      \<Rightarrow> (goerr + resume_response) \<times> resume_reader \<times> history" where
  "validate_terminal_resume_response E resp offset r h =
     (let hdr = header_get (rs_header resp) ''Content-Range'';
          whole = unsatisfied_range_total hdr;
          h1 = drain_and_close (rs_body resp) h
      in if whole < 0 then
           (Inl (Text (resuming offset @ '': registry returned invalid Content-Range '' @ hdr)), r, h1)
         else if whole \<noteq> offset then
           (Inl (Text (resuming offset @ '': registry reported unsatisfied range total '' @ fmt_d whole)), r, h1)
         else
           (case known_total E r h1 of
              (known, r1, h2) \<Rightarrow>
                if known \<ge> 0 \<and> whole \<noteq> known then
                  (Inl (Text (resuming offset @ '': blob size changed from '' @ fmt_d known @ '' to ''
                     @ fmt_d whole)), r1, h2)
                else (Inr \<lparr>rs_stream = NoBody, rs_total = whole, rs_end = whole\<rparr>, r1, h2)))"

definition validate_partial_resume_response ::
    "env \<Rightarrow> response \<Rightarrow> int \<Rightarrow> resume_reader \<Rightarrow> history
      \<Rightarrow> (goerr + resume_response) \<times> resume_reader \<times> history" where
  "validate_partial_resume_response E resp offset r h =
     (let hdr = header_get (rs_header resp) ''Content-Range'' in
      case parse_content_range hdr of
        None \<Rightarrow>
          (Inl (Text (resuming offset @ '': registry returned invalid Content-Range '' @ hdr)), r,
           body_close (rs_body resp) h)
      | Some cr \<Rightarrow>
          if cr_start cr \<noteq> offset then
            (Inl (Text (resuming offset @ '': registry returned Content-Range '' @ hdr)), r,
             body_close (rs_body resp) h)
          else
            (case known_total E r h of
               (known, r1, h1) \<Rightarrow>
                 if known \<ge> 0 \<and> cr_total cr \<noteq> known then
                   (Inl (Text (resuming offset @ '': blob size changed from '' @ fmt_d known @ '' to ''
                      @ fmt_d (cr_total cr))), r1, body_close (rs_body resp) h1)
                 else
                   (Inr \<lparr>rs_stream = Limited (rs_body resp) (cr_end cr - cr_start cr + 1),
                         rs_total = cr_total cr, rs_end = cr_end cr + 1\<rparr>, r1, h1)))"

definition validate_full_resume_response ::
    "env \<Rightarrow> response \<Rightarrow> int \<Rightarrow> goerr \<Rightarrow> resume_reader \<Rightarrow> history
      \<Rightarrow> (goerr + resume_response) \<times> resume_reader \<times> history" where
  "validate_full_resume_response E resp offset cause r h =
     (case body_skip E (rs_body resp) offset h of
        (Some e, h1) \<Rightarrow>
          (case resume_state_error E r (body_close (rs_body resp) h1) of
             (Some se, r1, h2) \<Rightarrow> (Inl se, r1, h2)
           | (None, r1, h2) \<Rightarrow>
               (case context_operation_error E e h2 of
                  (e', h3) \<Rightarrow>
                    (Inl (resume_failed offset cause
                       ''registry ignored the range and the replayed stream ended early: '' e'), r1, h3)))
      | (None, h1) \<Rightarrow>
          (case resume_state_error E r h1 of
             (Some se, r1, h2) \<Rightarrow> (Inl se, r1, body_close (rs_body resp) h2)
           | (None, r1, h2) \<Rightarrow>
               (case known_total E r1 h2 of
                  (known, r2, h3) \<Rightarrow>
                    if known \<ge> 0 then
                      (Inr \<lparr>rs_stream = Limited (rs_body resp) (known - offset), rs_total = known,
                            rs_end = known\<rparr>, r2, h3)
                    else (Inr \<lparr>rs_stream = Net (rs_body resp), rs_total = -1, rs_end = -1\<rparr>, r2, h3))))"

definition validate_resume_response ::
    "env \<Rightarrow> response \<Rightarrow> int \<Rightarrow> goerr \<Rightarrow> resume_reader \<Rightarrow> history
      \<Rightarrow> (goerr + resume_response) \<times> resume_reader \<times> history" where
  "validate_resume_response E resp offset cause r h =
     (if rs_status resp = 206 then validate_partial_resume_response E resp offset r h
      else if rs_status resp = 416 then validate_terminal_resume_response E resp offset r h
      else if rs_status resp = 200 then validate_full_resume_response E resp offset cause r h
      else
        (case interpret_error E resp h of
           (e, h1) \<Rightarrow> (Inl (resume_failed offset cause [] e), r, body_close (rs_body resp) h1)))"

datatype resume_attempt_result = Retry goerr int | Replacement resume_response

definition execute_resume_attempt ::
    "env \<Rightarrow> client \<Rightarrow> url \<Rightarrow> goerr \<Rightarrow> resume_reader \<Rightarrow> history
      \<Rightarrow> (goerr + resume_attempt_result) \<times> resume_reader \<times> history" where
  "execute_resume_attempt E c target cause r h =
     (let offset = rm_offset r in
      case request_resume E c target offset h of
        (Inl e, h1) \<Rightarrow>
          (case resume_state_error E r h1 of
             (Some se, r1, h2) \<Rightarrow> (Inl se, r1, h2)
           | (None, r1, h2) \<Rightarrow>
               if \<not> retryable_request_error e then (Inl (resume_failed offset cause [] e), r1, h2)
               else (Inr (Retry e 0), r1, h2))
      | (Inr resp, h1) \<Rightarrow>
          if retryable_status (rs_status resp) then
            (case interpret_error E resp h1 of
               (e, h2) \<Rightarrow>
                 (case now E h2 of
                    (t, h3) \<Rightarrow>
                      (Inr (Retry e (retry_after_delay E (header_get (rs_header resp) ''Retry-After'') t)), r,
                       drain_and_close (rs_body resp) h3)))
          else
            (case validate_resume_response E resp offset cause r h1 of
               (Inl e, r1, h2) \<Rightarrow> (Inl e, r1, h2)
             | (Inr rep, r1, h2) \<Rightarrow> (Inr (Replacement rep), r1, h2)))"

definition replace_body ::
    "env \<Rightarrow> resume_response \<Rightarrow> resume_reader \<Rightarrow> history \<Rightarrow> goerr option \<times> resume_reader \<times> history" where
  "replace_body E rep r h =
     (case resume_state_error E r h of
        (Some e, r1, h1) \<Rightarrow> (Some e, r1, stream_close (rs_stream rep) h1)
      | (None, r1, h1) \<Rightarrow>
          (None, r1\<lparr>rm_body := Some (rs_stream rep), rm_body_end := rs_end rep,
             rm_total := (if rs_total rep \<ge> 0 then rs_total rep else rm_total r1)\<rparr>,
           close_body (rm_body r1) h1))"

section \<open>Reconnecting\<close>

definition resume_turn ::
    "env \<Rightarrow> client \<Rightarrow> url \<Rightarrow> int \<Rightarrow> goerr \<Rightarrow> resume_reader \<Rightarrow> history
      \<Rightarrow> (goerr option \<times> resume_reader \<times> history) + (int \<times> goerr \<times> resume_reader \<times> history)" where
  "resume_turn E c target retry_after cause r h =
     (case wait_for_resume_attempt E c retry_after r h of
        (Refused e, r1, h1) \<Rightarrow> Inl (Some e, r1, h1)
      | (Exhausted, r1, h1) \<Rightarrow>
          Inl (Some (wrapf (''blob stream kept breaking at byte '' @ fmt_d (rm_offset r1) @ '' after ''
                  @ fmt_d (attempts (cl_retry c)) @ '' request attempts'') cause), r1, h1)
      | (Reserved, r1, h1) \<Rightarrow>
          (case execute_resume_attempt E c target cause r1 h1 of
             (Inl e, r2, h2) \<Rightarrow> Inl (Some e, r2, h2)
           | (Inr (Retry e after), r2, h2) \<Rightarrow> Inr (after, e, r2, h2)
           | (Inr (Replacement rep), r2, h2) \<Rightarrow> Inl (replace_body E rep r2 h2)))"

text \<open>What a concurrent Close leaves: every field but the body, which is the same or gone.\<close>

definition resume_same :: "resume_reader \<Rightarrow> resume_reader \<Rightarrow> bool" where
  "resume_same r r' \<longleftrightarrow> rm_offset r' = rm_offset r \<and> rm_attempts r' = rm_attempts r \<and>
     rm_body_end r' = rm_body_end r \<and> rm_total r' = rm_total r \<and>
     (rm_body r' = rm_body r \<or> rm_body r' = None)"

lemma resume_same_refl [simp]: "resume_same r r"
  by (simp add: resume_same_def)

lemma resume_same_trans: "resume_same r r1 \<Longrightarrow> resume_same r1 r2 \<Longrightarrow> resume_same r r2"
  by (auto simp: resume_same_def)

lemma resume_yield_same: "resume_yield E r h = (r', h') \<Longrightarrow> resume_same r r'"
  by (auto simp: resume_yield_def resume_close_def resume_same_def split: if_splits)

lemma resume_state_error_same: "resume_state_error E r h = (e, r', h') \<Longrightarrow> resume_same r r'"
  by (auto simp: resume_state_error_def dest: resume_yield_same split: prod.splits if_splits)

lemma known_total_same: "known_total E r h = (k, r', h') \<Longrightarrow> resume_same r r' \<and> k = rm_total r"
  using resume_yield_same [of E r h] by (auto simp: known_total_def resume_same_def split: prod.splits)

lemma reserve_same:
  assumes "reserve_resume_attempt E c r h = (q, r', h')"
  shows "if q = Reserved then rm_attempts r < attempts (cl_retry c) \<and> resume_same (r\<lparr>rm_attempts := rm_attempts r + 1\<rparr>) r'
         else resume_same r r'"
  using assms resume_state_error_same [of E r h]
  by (auto simp: reserve_resume_attempt_def resume_same_def split: prod.splits option.splits if_splits)

lemma wait_same:
  assumes "wait_for_resume_attempt E c ra r h = (Reserved, r', h')"
  shows "rm_attempts r < attempts (cl_retry c) \<and> resume_same (r\<lparr>rm_attempts := rm_attempts r + 1\<rparr>) r'"
proof -
  obtain q r1 h1 where rv: "reserve_resume_attempt E c r h = (q, r1, h1)" by (metis prod_cases3)
  from assms rv have "q = Reserved" and "r' = r1"
    by (auto simp: wait_for_resume_attempt_def split: reservation.splits prod.splits option.splits)
  with reserve_same [OF rv] show ?thesis by simp
qed

lemma validate_same:
  "validate_resume_response E resp offset cause r h = (q, r', h') \<Longrightarrow> resume_same r r'"
  by (auto simp: validate_resume_response_def validate_partial_resume_response_def
      validate_terminal_resume_response_def validate_full_resume_response_def Let_def
      dest!: known_total_same resume_state_error_same intro: resume_same_trans
      split: if_splits prod.splits option.splits)

lemma execute_same:
  "execute_resume_attempt E c target cause r h = (q, r', h') \<Longrightarrow> resume_same r r'"
  by (auto simp: execute_resume_attempt_def Let_def dest!: validate_same resume_state_error_same
      split: if_splits prod.splits option.splits sum.splits)

lemma resume_turn_on:
  assumes "resume_turn E c target ra cause r h = Inr (ra', cause', r', h')"
  shows "rm_attempts r < attempts (cl_retry c) \<and> rm_attempts r' = rm_attempts r + 1 \<and> rm_offset r' = rm_offset r"
proof -
  obtain r1 h1 where w: "wait_for_resume_attempt E c ra r h = (Reserved, r1, h1)"
    and e: "execute_resume_attempt E c target cause r1 h1 = (Inr (Retry cause' ra'), r', h')"
    using assms
    by (auto simp: resume_turn_def split: prod.splits reservation.splits sum.splits resume_attempt_result.splits)
  from wait_same [OF w] execute_same [OF e] show ?thesis by (simp add: resume_same_def)
qed

function reestablish ::
    "env \<Rightarrow> client \<Rightarrow> url \<Rightarrow> int \<Rightarrow> goerr \<Rightarrow> resume_reader \<Rightarrow> history
      \<Rightarrow> goerr option \<times> resume_reader \<times> history" where
  "reestablish E c target retry_after cause r h =
     (case resume_turn E c target retry_after cause r h of
        Inl out \<Rightarrow> out
      | Inr (ra, cause', r', h') \<Rightarrow> reestablish E c target ra cause' r' h')"
  by pat_completeness auto

termination
  by (relation "measure (\<lambda>(E, c, target, ra, cause, r, h). nat (attempts (cl_retry c) - rm_attempts r))")
    (auto dest!: resume_turn_on)

declare reestablish.simps [simp del]

lemma replace_body_attempts: "replace_body E rep r h = (e, r', h') \<Longrightarrow> rm_attempts r' = rm_attempts r \<and> rm_offset r' = rm_offset r"
  by (auto simp: replace_body_def dest!: resume_state_error_same simp: resume_same_def
      split: prod.splits option.splits)

lemma resume_turn_off:
  assumes "resume_turn E c target ra cause r h = Inl (e, r', h')"
  shows "rm_offset r' = rm_offset r \<and> rm_attempts r \<le> rm_attempts r' \<and>
    rm_attempts r' \<le> max (rm_attempts r) (attempts (cl_retry c)) \<and>
    (e = None \<longrightarrow> rm_attempts r' = rm_attempts r + 1 \<and> rm_attempts r < attempts (cl_retry c))"
proof -
  obtain q r1 h1 where w: "wait_for_resume_attempt E c ra r h = (q, r1, h1)" by (metis prod_cases3)
  show ?thesis
  proof (cases q)
    case Reserved
    from wait_same [OF w [unfolded Reserved]]
    have w1: "rm_attempts r < attempts (cl_retry c)" "rm_attempts r1 = rm_attempts r + 1"
      "rm_offset r1 = rm_offset r" by (simp_all add: resume_same_def)
    obtain x r2 h2 where ex: "execute_resume_attempt E c target cause r1 h1 = (x, r2, h2)"
      by (metis prod_cases3)
    from execute_same [OF ex] w1 replace_body_attempts assms w Reserved ex show ?thesis
      by (fastforce simp: resume_turn_def resume_same_def split: sum.splits resume_attempt_result.splits)
  next
    case (Refused x)
    obtain q2 r2 h2 where rv: "reserve_resume_attempt E c r h = (q2, r2, h2)" by (metis prod_cases3)
    have "rm_offset r1 = rm_offset r2 \<and> rm_attempts r1 = rm_attempts r2"
      using w rv by (auto simp: wait_for_resume_attempt_def resume_same_def
          dest!: resume_state_error_same split: reservation.splits prod.splits option.splits)
    with reserve_same [OF rv] assms w Refused show ?thesis
      by (auto simp: resume_turn_def resume_same_def split: if_splits)
  next
    case Exhausted
    obtain q2 r2 h2 where rv: "reserve_resume_attempt E c r h = (q2, r2, h2)" by (metis prod_cases3)
    have "q2 = Exhausted \<and> r1 = r2"
      using w rv Exhausted by (auto simp: wait_for_resume_attempt_def
          split: reservation.splits prod.splits option.splits)
    with reserve_same [OF rv] assms w Exhausted show ?thesis
      by (auto simp: resume_turn_def resume_same_def)
  qed
qed

lemma reestablish_attempts:
  "reestablish E c target ra cause r h = (e, r', h') \<Longrightarrow>
   rm_offset r' = rm_offset r \<and> rm_attempts r \<le> rm_attempts r' \<and>
   rm_attempts r' \<le> max (rm_attempts r) (attempts (cl_retry c)) \<and>
   (e = None \<longrightarrow> rm_attempts r < rm_attempts r' \<and> rm_attempts r' \<le> attempts (cl_retry c))"
proof (induction E c target ra cause r h arbitrary: e r' h' rule: reestablish.induct)
  case (1 E c target ra cause r h)
  show ?case
  proof (cases "resume_turn E c target ra cause r h")
    case (Inl q)
    with "1.prems" have "resume_turn E c target ra cause r h = Inl (e, r', h')"
      by (simp add: reestablish.simps [of E c target ra cause r h])
    from resume_turn_off [OF this] show ?thesis by auto
  next
    case (Inr q)
    obtain ra1 c1 r1 h1 where q: "q = (ra1, c1, r1, h1)" by (metis prod_cases4)
    with "1.prems" Inr have "reestablish E c target ra1 c1 r1 h1 = (e, r', h')"
      by (simp add: reestablish.simps [of E c target ra cause r h])
    from "1.IH" [OF Inr [unfolded q] refl refl refl this] resume_turn_on [OF Inr [unfolded q]]
    show ?thesis by auto
  qed
qed

section \<open>Reading\<close>

text \<open>\<open>classifyResumeReadError\<close>: return now with this error, or reconnect for this cause.\<close>

definition classify_resume_read_error ::
    "goerr option \<Rightarrow> int \<Rightarrow> int \<Rightarrow> int \<Rightarrow> goerr option + goerr" where
  "classify_resume_read_error err offset body_end whole =
     (case err of
        None \<Rightarrow> Inl None
      | Some e \<Rightarrow>
          if whole \<ge> 0 \<and> offset \<ge> whole then Inl (Some eof)
          else if \<not> is_eof err then Inr e
          else if whole < 0 then Inl (Some eof)
          else if body_end \<ge> 0 \<and> offset < body_end then
            Inr (wrapf (''resume response ended at byte '' @ fmt_d offset @ '' before advertised byte ''
                   @ fmt_d body_end) (Internal IoUnexpectedEOF))
          else
            Inr (wrapf (''resume response ended at byte '' @ fmt_d offset @ '' before blob end ''
                   @ fmt_d whole) (Internal IoUnexpectedEOF)))"

definition record_read ::
    "env \<Rightarrow> byte list \<Rightarrow> stream \<Rightarrow> resume_reader \<Rightarrow> history \<Rightarrow> goerr option \<times> resume_reader \<times> history" where
  "record_read E d s r h =
     (case resume_yield E r h of
        (r1, h1) \<Rightarrow>
          let r2 = r1\<lparr>rm_offset := rm_offset r1 + int (length d),
                     rm_body := (case rm_body r1 of Some _ \<Rightarrow> Some s | None \<Rightarrow> None)\<rparr> in
          if rm_closed r2 then (Some (Internal IoClosedPipe), r2, h1)
          else (case ctx_err E h1 of (e, h2) \<Rightarrow> (e, r2, h2)))"

definition resume_read_turn ::
    "env \<Rightarrow> client \<Rightarrow> url \<Rightarrow> nat \<Rightarrow> resume_reader \<Rightarrow> history
      \<Rightarrow> ((byte list \<times> goerr option) \<times> resume_reader \<times> history) + (resume_reader \<times> history)" where
  "resume_read_turn E c target n r h =
     (case resume_state_error E r h of
        (Some e, r1, h1) \<Rightarrow> Inl (([], Some e), r1, h1)
      | (None, r1, h1) \<Rightarrow>
        (case rm_body r1 of
           None \<Rightarrow> Inl (([], Some (Internal NilDereference)), r1, h1)
         | Some s \<Rightarrow>
           (case resume_yield E r1 h1 of (r2, h2) \<Rightarrow>
           (case stream_read E n s h2 of ((d, e), s', h3) \<Rightarrow>
           (case record_read E d s' r2 h3 of
              (Some se, r3, h4) \<Rightarrow> Inl ((d, Some se), r3, h4)
            | (None, r3, h4) \<Rightarrow>
              (case classify_resume_read_error e (rm_offset r3) (rm_body_end r3) (rm_total r3) of
                 Inl out \<Rightarrow> Inl ((d, out), r3, h4)
               | Inr cause \<Rightarrow>
                 (case reestablish E c target 0 cause r3 h4 of
                    (Some re, r4, h5) \<Rightarrow> Inl ((d, Some re), r4, h5)
                  | (None, r4, h5) \<Rightarrow> if d \<noteq> [] then Inl ((d, None), r4, h5) else Inr (r4, h5))))))))"

lemma record_read_fields:
  "record_read E d s r h = (e, r', h') \<Longrightarrow>
   rm_offset r' = rm_offset r + int (length d) \<and> rm_attempts r' = rm_attempts r \<and>
   rm_body_end r' = rm_body_end r \<and> rm_total r' = rm_total r"
  by (auto simp: record_read_def Let_def resume_same_def dest!: resume_yield_same split: prod.splits if_splits)

text \<open>A turn that goes round has reconnected, at the price of a request.\<close>

lemma resume_read_turn_on:
  assumes "resume_read_turn E c target n r h = Inr (r', h')"
  shows "rm_attempts r < rm_attempts r' \<and> rm_attempts r' \<le> attempts (cl_retry c) \<and> rm_offset r' = rm_offset r"
proof -
  from assms obtain r1 h1 s r2 h2 e s' h3 r3 h4 cause where
    st: "resume_state_error E r h = (None, r1, h1)" and y: "resume_yield E r1 h1 = (r2, h2)"
    and rc: "record_read E [] s' r2 h3 = (None, r3, h4)"
    and re: "reestablish E c target 0 cause r3 h4 = (None, r', h')"
    by (auto simp: resume_read_turn_def split: prod.splits option.splits sum.splits if_splits)
  from resume_state_error_same [OF st] resume_yield_same [OF y] record_read_fields [OF rc]
    reestablish_attempts [OF re] show ?thesis by (simp add: resume_same_def)
qed

function resume_loop ::
    "env \<Rightarrow> client \<Rightarrow> url \<Rightarrow> nat \<Rightarrow> resume_reader \<Rightarrow> history
      \<Rightarrow> (byte list \<times> goerr option) \<times> resume_reader \<times> history" where
  "resume_loop E c target n r h =
     (case resume_read_turn E c target n r h of
        Inl out \<Rightarrow> out
      | Inr (r', h') \<Rightarrow> resume_loop E c target n r' h')"
  by pat_completeness auto

termination
  by (relation "measure (\<lambda>(E, c, target, n, r, h). nat (attempts (cl_retry c) - rm_attempts r))")
    (auto dest!: resume_read_turn_on)

declare resume_loop.simps [simp del]

definition resume_read :: "env \<Rightarrow> client \<Rightarrow> url \<Rightarrow> resume_reader reader" where
  "resume_read E c target n r h =
     (if n = 0 then (case resume_state_error E r h of (e, r1, h1) \<Rightarrow> (([], e), r1, h1))
      else resume_loop E c target n r h)"

section \<open>The request budget and the offset\<close>

lemma resume_read_turn_off:
  assumes "resume_read_turn E c target n r h = Inl ((d, e), r', h')"
  shows "rm_offset r' = rm_offset r + int (length d) \<and> rm_attempts r \<le> rm_attempts r' \<and>
    rm_attempts r' \<le> max (rm_attempts r) (attempts (cl_retry c)) \<and> length d \<le> n"
proof -
  obtain se r1 h1 where st: "resume_state_error E r h = (se, r1, h1)" by (metis prod_cases3)
  note s1 = resume_state_error_same [OF st]
  show ?thesis
  proof (cases "se \<noteq> None \<or> rm_body r1 = None")
    case True
    with assms st s1 show ?thesis
      by (auto simp: resume_read_turn_def resume_same_def split: option.splits)
  next
    case False
    then obtain s where b: "se = None" "rm_body r1 = Some s" by auto
    obtain r2 h2 where y: "resume_yield E r1 h1 = (r2, h2)" by (metis surj_pair)
    obtain d1 e1 s' h3 where rd: "stream_read E n s h2 = ((d1, e1), s', h3)" by (metis prod_cases4 surj_pair)
    obtain se2 r3 h4 where rc: "record_read E d1 s' r2 h3 = (se2, r3, h4)" by (metis prod_cases3)
    note f = s1 resume_yield_same [OF y] record_read_fields [OF rc] stream_read_length [OF rd]
    show ?thesis
      using assms st b y rd rc f reestablish_attempts
      by (fastforce simp: resume_read_turn_def resume_same_def split: option.splits sum.splits prod.splits if_splits)
  qed
qed

lemma resume_loop_attempts:
  "resume_loop E c target n r h = ((d, e), r', h') \<Longrightarrow>
   rm_offset r' = rm_offset r + int (length d) \<and> rm_attempts r \<le> rm_attempts r' \<and>
   rm_attempts r' \<le> max (rm_attempts r) (attempts (cl_retry c)) \<and> length d \<le> n"
proof (induction E c target n r h arbitrary: d e r' h' rule: resume_loop.induct)
  case (1 E c target n r h)
  show ?case
  proof (cases "resume_read_turn E c target n r h")
    case (Inl q)
    with "1.prems" resume_read_turn_off [of E c target n r h d e r' h'] show ?thesis
      by (simp add: resume_loop.simps [of E c target n r h])
  next
    case (Inr q)
    obtain r1 h1 where q: "q = (r1, h1)" by (metis surj_pair)
    with "1.prems" Inr have "resume_loop E c target n r1 h1 = ((d, e), r', h')"
      by (simp add: resume_loop.simps [of E c target n r h])
    from "1.IH" [OF Inr [unfolded q] refl this] resume_read_turn_on [OF Inr [unfolded q]] show ?thesis by auto
  qed
qed

lemma resume_read_attempts:
  "resume_read E c target n r h = ((d, e), r', h') \<Longrightarrow>
   rm_offset r' = rm_offset r + int (length d) \<and> rm_attempts r \<le> rm_attempts r' \<and>
   rm_attempts r' \<le> max (rm_attempts r) (attempts (cl_retry c)) \<and> length d \<le> n"
  using resume_loop_attempts [of E c target n r h]
  by (auto simp: resume_read_def resume_same_def dest!: resume_state_error_same split: if_splits prod.splits)

end
