(* ===== verification/Content.thy ===== *)
theory Content
  imports Session Stream
begin

text \<open>
  Which bytes of a blob a response body carries. A server that serves the blob \<open>B\<close> faithfully
  delivers in each body consecutive bytes of \<open>B\<close>, from the start that its \<open>Content-Range\<close>
  announces for a 206 and from the first byte otherwise; how many bytes a read returns, when
  a body breaks off and with which error is up to the environment.
\<close>

section \<open>Positions\<close>

definition answer_base :: "int \<Rightarrow> header \<Rightarrow> nat" where
  "answer_base status hdr =
     (if status = 206
      then (case parse_content_range (header_get hdr ''Content-Range'') of
              Some cr \<Rightarrow> nat (cr_start cr) | None \<Rightarrow> 0)
      else 0)"

text \<open>The first byte of the body received at position \<open>b\<close>, and the bytes taken from it since.\<close>

fun base_of :: "env \<Rightarrow> history \<Rightarrow> nat \<Rightarrow> nat" where
  "base_of E [] b = 0"
| "base_of E (e # h) b =
     (if length h = b then
        (case e of
           EvSend s r \<Rightarrow>
             (case en_trip E s h r of Reply status hdr len \<Rightarrow> answer_base status hdr | Fail _ \<Rightarrow> 0)
         | _ \<Rightarrow> 0)
      else base_of E h b)"

definition event_taken :: "env \<Rightarrow> history \<Rightarrow> nat \<Rightarrow> event \<Rightarrow> nat" where
  "event_taken E h b e =
     (case e of
        EvRead b' n \<Rightarrow> if b' = b then length (take n (fst (en_read E h b n))) else 0
      | EvSkip b' k \<Rightarrow> if b' = b \<and> en_skip E h b k = None then nat k else 0
      | _ \<Rightarrow> 0)"

fun taken :: "env \<Rightarrow> history \<Rightarrow> nat \<Rightarrow> nat" where
  "taken E [] b = 0"
| "taken E (e # h) b = (if length h \<le> b then 0 else event_taken E h b e + taken E h b)"

definition position :: "env \<Rightarrow> history \<Rightarrow> nat \<Rightarrow> nat" where
  "position E h b = base_of E h b + taken E h b"

definition serves :: "env \<Rightarrow> byte list \<Rightarrow> bool" where
  "serves E B \<longleftrightarrow>
     (\<forall>h b n. let d = take n (fst (en_read E h b n)) in
        d = take (length d) (drop (position E h b) B))"

text \<open>Nothing was taken from the bodies that existed at \<open>h\<close>.\<close>

definition undisturbed :: "env \<Rightarrow> history \<Rightarrow> history \<Rightarrow> bool" where
  "undisturbed E h h' \<longleftrightarrow>
     length h \<le> length h' \<and> (\<forall>b < length h. position E h' b = position E h b)"

lemma undisturbed_refl [simp]: "undisturbed E h h"
  by (simp add: undisturbed_def)

lemma undisturbed_trans: "undisturbed E h h1 \<Longrightarrow> undisturbed E h1 h2 \<Longrightarrow> undisturbed E h h2"
  by (auto simp: undisturbed_def)

text \<open>Events other than reads, and reads of later bodies.\<close>

definition harmless :: "nat \<Rightarrow> event \<Rightarrow> bool" where
  "harmless n e \<longleftrightarrow> (case e of EvRead b k \<Rightarrow> n \<le> b | EvSkip b k \<Rightarrow> n \<le> b | _ \<Rightarrow> True)"

lemma undisturbed_event:
  "undisturbed E h h' \<Longrightarrow> harmless (length h) e \<Longrightarrow> undisturbed E h (e # h')"
  by (auto simp: undisturbed_def position_def harmless_def event_taken_def split: event.splits)

lemmas harmless_simps [simp] = harmless_def

lemma undisturbed_effects:
  "undisturbed E h h' \<Longrightarrow> ctx_err E h' = (r, h2) \<Longrightarrow> undisturbed E h h2"
  "undisturbed E h h' \<Longrightarrow> now E h' = (t, h2) \<Longrightarrow> undisturbed E h h2"
  "undisturbed E h h' \<Longrightarrow> undisturbed E h (body_close b h')"
  "undisturbed E h h' \<Longrightarrow> undisturbed E h (body_drain b h')"
  "undisturbed E h h' \<Longrightarrow> undisturbed E h (drain_and_close b h')"
  by (auto simp: env_simps intro!: undisturbed_event)

lemma undisturbed_stream_close: "undisturbed E h h' \<Longrightarrow> undisturbed E h (stream_close s h')"
  by (cases s) (auto simp: body_close_def intro!: undisturbed_event)

lemma undisturbed_close_body: "undisturbed E h h' \<Longrightarrow> undisturbed E h (close_body s h')"
  by (auto simp: close_body_def intro: undisturbed_stream_close split: option.split)

lemma undisturbed_interpret:
  "undisturbed E h h' \<Longrightarrow> interpret_error E resp h' = (e, h2) \<Longrightarrow> undisturbed E h h2"
  by (auto simp: interpret_error_def now_def body_drain_def intro!: undisturbed_event)

lemma undisturbed_operation_error:
  "undisturbed E h h' \<Longrightarrow> context_operation_error E e h' = (e', h2) \<Longrightarrow> undisturbed E h h2"
  by (auto simp: context_operation_error_def ctx_err_def intro!: undisturbed_event split: option.splits)

lemma undisturbed_wait:
  "undisturbed E h h' \<Longrightarrow> retry_wait E c k after h' = (r, h2) \<Longrightarrow> undisturbed E h h2"
  by (auto simp: retry_wait_def backoff_delay_def rand_n_def sleep_context_def ctx_err_def
      intro!: undisturbed_event split: if_splits prod.splits)

section \<open>A request and its answer\<close>

text \<open>The body of a response that was just received starts at its base; nothing was taken.\<close>

definition fresh :: "env \<Rightarrow> response \<Rightarrow> history \<Rightarrow> bool" where
  "fresh E resp h \<longleftrightarrow> length h = Suc (rs_body resp) \<and>
     position E h (rs_body resp) = answer_base (rs_status resp) (rs_header resp)"

lemma scoped_trip_fresh:
  assumes "scoped_round_trip E req h = (out, h')"
  shows "undisturbed E h h' \<and> (case out of Inl e \<Rightarrow> True | Inr resp \<Rightarrow> fresh E resp h')"
proof -
  from assms obtain s r where rt: "round_trip E s r h = (out, h')"
    by (auto simp: scoped_round_trip_def split: if_splits)
  have u: "undisturbed E h (EvSend s r # h)" by (rule undisturbed_event) simp_all
  from rt u show ?thesis
    by (auto simp: round_trip_def fresh_def position_def split: round_trip.splits)
qed

lemma hop_no_body:
  "client_hop E allow no_body first via req b h =
     (case scoped_round_trip E req h of
        (Inl e, h2) \<Rightarrow> Inl (Inl (url_error req e), b, h2)
      | (Inr resp, h2) \<Rightarrow>
        (case redirect_behavior no_body (rq_method req) (rs_status resp) of
           None \<Rightarrow> Inl (Inr resp, b, h2)
         | Some (m, ib) \<Rightarrow>
           let loc = header_get (rs_header resp) ''Location'' in
           if loc = [] then Inl (Inr resp, b, h2)
           else
             (case url_parse_ref (rq_url req) loc of
                None \<Rightarrow> Inl (Inl (url_error req (bad_location loc)), b, body_close (rs_body resp) h2)
              | Some u \<Rightarrow>
                  let req' = next_request first (via @ [req]) u m ib in
                  (case check_redirect allow req' (via @ [req]) of
                     Some e \<Rightarrow> Inl (Inl (url_error req' e), b, body_close (rs_body resp) h2)
                   | None \<Rightarrow> Inr (req', b, body_close (rs_body resp) h2)))))"
proof -
  have send: "hk_send no_body r c g = (c, g)" and close: "hk_close no_body c g = (c, g)"
    and replay: "replay_body no_body ib c g = ((None, c), g)" for r c g ib
    by (simp_all add: no_body_def replay_body_def)
  show ?thesis
    unfolding client_hop_def send close replay prod.case option.case Let_def ..
qed

lemma hop_fresh:
  assumes "client_hop E allow no_body first via req b h = res"
  shows "case res of
      Inl (out, _, h') \<Rightarrow> undisturbed E h h' \<and> (case out of Inl e \<Rightarrow> True | Inr resp \<Rightarrow> fresh E resp h')
    | Inr (_, _, h') \<Rightarrow> undisturbed E h h'"
proof -
  obtain out h1 where t: "scoped_round_trip E req h = (out, h1)" by (metis surj_pair)
  note f = scoped_trip_fresh [OF t]
  then have c: "undisturbed E h (body_close n h1)" for n by (intro undisturbed_effects(3)) simp
  show ?thesis
  proof (cases out)
    case (Inl e)
    with f show ?thesis unfolding assms [symmetric] hop_no_body t by simp
  next
    case (Inr resp)
    with f have f': "undisturbed E h h1" "fresh E resp h1" by simp_all
    show ?thesis
    proof (cases "redirect_behavior no_body (rq_method req) (rs_status resp)")
      case None
      with f' show ?thesis unfolding assms [symmetric] hop_no_body t Inr by simp
    next
      case (Some mb)
      obtain m ib where mb: "mb = (m, ib)" by (metis surj_pair)
      let ?loc = "header_get (rs_header resp) ''Location''"
      show ?thesis
      proof (cases "?loc = [] \<or> url_parse_ref (rq_url req) ?loc = None")
        case True
        with f' c [of "rs_body resp"] show ?thesis
          unfolding assms [symmetric] hop_no_body t Inr prod.case sum.case Some mb option.case Let_def
          by (cases "?loc = []") simp_all
      next
        case False
        then obtain u where u: "url_parse_ref (rq_url req) ?loc = Some u" and l: "?loc \<noteq> []" by auto
        show ?thesis
          unfolding assms [symmetric] hop_no_body t Inr prod.case sum.case Some mb option.case Let_def u
            if_not_P [OF l]
          using c [of "rs_body resp"]
          by (cases "check_redirect allow (next_request first (via @ [req]) u m ib) (via @ [req])") simp_all
      qed
    qed
  qed
qed

lemma loop_fresh:
  "client_loop E allow hooks first via req b h = (out, b', h') \<Longrightarrow> hooks = no_body \<Longrightarrow>
   undisturbed E h h' \<and> (case out of Inl e \<Rightarrow> True | Inr resp \<Rightarrow> fresh E resp h')"
proof (induction E allow hooks first via req b h arbitrary: out b' h' rule: client_loop.induct)
  case (1 E allow hooks first via req b h)
  note hop = hop_fresh [where E = E and allow = allow and first = first and via = via and req = req
      and b = b and h = h, OF refl]
  show ?case
  proof (cases "client_hop E allow hooks first via req b h")
    case (Inl res)
    with "1.prems" have "res = (out, b', h')"
      by (simp add: client_loop.simps [of E allow no_body first via req "()" h])
    with hop Inl "1.prems"(2) show ?thesis by simp
  next
    case (Inr res)
    obtain req' b1 h1 where res: "res = (req', b1, h1)" by (metis prod_cases3)
    have "client_loop E allow hooks first via req b h
        = client_loop E allow hooks first (via @ [req]) req' b1 h1"
      by (subst client_loop.simps) (use Inr res in simp)
    with "1.prems" have "client_loop E allow hooks first (via @ [req]) req' b1 h1 = (out, b', h')"
      by simp
    from "1.IH" [OF Inr [unfolded res] refl refl this "1.prems"(2)] hop Inr res "1.prems"(2)
    show ?thesis using undisturbed_trans by auto
  qed
qed

lemma registry_request_fresh:
  assumes "do_registry_request E allow no_body req b h = (out, b', h')"
  shows "undisturbed E h h' \<and> (case out of Inl e \<Rightarrow> True | Inr resp \<Rightarrow> fresh E resp h')"
proof -
  obtain out1 b1 h1 where d: "client_do E allow no_body
      (with_registry_origin req (Some (rq_url req))) b h = (out1, b1, h1)" by (metis prod_cases3)
  from loop_fresh [OF d [unfolded client_do_def] refl] assms d show ?thesis
    by (auto simp: do_registry_request_def split: sum.splits)
qed

section \<open>Streams\<close>

text \<open>\<open>stream_at E h s k\<close>: the next byte that \<open>s\<close> yields is byte \<open>k\<close> of the blob.\<close>

fun stream_at :: "env \<Rightarrow> history \<Rightarrow> stream \<Rightarrow> nat \<Rightarrow> bool" where
  "stream_at E h (Net b) k = (b < length h \<and> position E h b = k)"
| "stream_at E h (Coupled b) k = (b < length h \<and> position E h b = k)"
| "stream_at E h (Limited b rest) k = (b < length h \<and> position E h b = k)"
| "stream_at E h (Buffered b buf err) k = False"
| "stream_at E h NoBody k = True"

lemma stream_at_undisturbed: "stream_at E h s k \<Longrightarrow> undisturbed E h h' \<Longrightarrow> stream_at E h' s k"
  by (cases s) (auto simp: undisturbed_def)

lemma body_read_at:
  assumes "body_read E b n h = ((d, e), h')" and "serves E B" and "b < length h" and "position E h b = k"
  shows "d = window k (k + length d) B \<and> position E h' b = k + length d \<and> b < length h'"
proof -
  from assms(1) have d: "d = take n (fst (en_read E h b n))" and h': "h' = EvRead b n # h"
    by (auto simp: body_read_def split: prod.splits)
  from assms(2,4) d have "d = take (length d) (drop k B)"
    unfolding serves_def Let_def by metis
  moreover have "position E h' b = k + length d"
    using assms(3,4) d by (simp add: h' position_def event_taken_def)
  ultimately show ?thesis using assms(3) by (simp add: window_def h')
qed

lemma stream_read_at:
  assumes "stream_read E n s h = ((d, e), s', h')" and "serves E B" and "stream_at E h s k"
  shows "d = window k (k + length d) B \<and> stream_at E h' s' (k + length d)"
proof (cases s)
  case (Limited b rest)
  then show ?thesis
    using assms body_read_at [of E b "min n (nat rest)" h d e h' B k]
    by (auto simp: window_def split: if_splits prod.splits)
qed (use assms body_read_at [of E _ n h d e h' B k] in \<open>auto simp: window_def split: prod.splits\<close>)

lemma body_skip_at:
  assumes "body_skip E b (int k) h = (None, h')" and "fresh E resp h" and "b = rs_body resp"
    and "rs_status resp \<noteq> 206"
  shows "b < length h' \<and> position E h' b = k"
  using assms
  by (auto simp: body_skip_def fresh_def position_def answer_base_def event_taken_def split: if_splits)

lemma undisturbed_skip:
  "undisturbed E h h' \<Longrightarrow> length h \<le> b \<Longrightarrow> body_skip E b k h' = (r, h2) \<Longrightarrow> undisturbed E h h2"
  by (auto simp: body_skip_def intro: undisturbed_event split: if_splits)

section \<open>A server to run examples on\<close>

text \<open>
  It answers requests by \<open>trip\<close> and each body yields its first bytes of \<open>B\<close>, at most \<open>m\<close> of
  them, in one read; whatever is read after that fails with \<open>e\<close>.
\<close>

definition untouched :: "history \<Rightarrow> nat \<Rightarrow> bool" where
  "untouched h b \<longleftrightarrow>
     list_all (\<lambda>e. case e of EvRead b' n \<Rightarrow> b' \<noteq> b | EvSkip b' n \<Rightarrow> b' \<noteq> b | _ \<Rightarrow> True) h"

definition one_shot_env ::
    "(side \<Rightarrow> history \<Rightarrow> request \<Rightarrow> round_trip) \<Rightarrow> byte list \<Rightarrow> nat \<Rightarrow> goerr \<Rightarrow> env" where
  "one_shot_env trip B m e = quiet_env\<lparr>
     en_trip := trip,
     en_read := (\<lambda>h b n.
       if untouched h b then (take (min n m) (drop (base_of (quiet_env\<lparr>en_trip := trip\<rparr>) h b) B), None)
       else ([], Some e))\<rparr>"

lemma base_of_trip: "en_trip E = en_trip F \<Longrightarrow> base_of E h b = base_of F h b"
  by (induction h) (auto split: event.split)

lemma untouched_taken: "untouched h b \<Longrightarrow> taken E h b = 0"
  by (induction h) (auto simp: untouched_def event_taken_def split: event.splits)

lemma one_shot_serves: "serves (one_shot_env trip B m e) B"
proof -
  let ?E = "one_shot_env trip B m e"
  have b: "base_of (quiet_env\<lparr>en_trip := trip\<rparr>) h b = base_of ?E h b" for h b
    by (rule base_of_trip) (simp add: one_shot_env_def)
  have "en_read ?E h b n = (if untouched h b then (take (min n m) (drop (base_of ?E h b) B), None) else ([], Some e))"
    for h b n by (simp add: b [symmetric]) (simp add: one_shot_env_def)
  then show ?thesis
    by (auto simp: serves_def Let_def position_def untouched_taken min_def)
qed

lemma one_shot_contract: "ctx_contract (one_shot_env trip B m e)"
  by (simp add: ctx_contract_def one_shot_env_def quiet_env_def)

end
