(* ===== verification/Resumption.thy ===== *)
theory Resumption
  imports Resume Content
begin

text \<open>
  What the resuming reader guarantees: its requests stay inside the lifetime budget, no response
  body is lost, and across any number of reconnects it delivers consecutive bytes of the blob.
\<close>

section \<open>Runs of the reader\<close>

definition rm_owned :: "resume_reader \<Rightarrow> nat set" where
  "rm_owned r = (case rm_body r of Some s \<Rightarrow> stream_body s | None \<Rightarrow> {})"

text \<open>
  \<open>resume_run E r h K r' h' k\<close>: from \<open>r\<close> at \<open>h\<close> the reader got to \<open>r'\<close> at \<open>h'\<close>, with the bodies in
  \<open>K\<close> in hand besides its own; nothing was read from bodies that existed before, and the
  requests sent are covered by the attempts spent, but for \<open>k\<close>.
\<close>

definition resume_run ::
    "env \<Rightarrow> resume_reader \<Rightarrow> history \<Rightarrow> nat set \<Rightarrow> resume_reader \<Rightarrow> history \<Rightarrow> int \<Rightarrow> bool" where
  "resume_run E r h K r' h' k \<longleftrightarrow>
     passes E (rm_owned r) h (rm_owned r' \<union> K) h' \<and> undisturbed E h h' \<and>
     int (length (sent h')) - 10 * rm_attempts r' \<le> int (length (sent h)) - 10 * rm_attempts r + k"

lemma resume_run_refl: "resume_run E r h {} r h 0"
  by (simp add: resume_run_def)

lemma resume_run_trans:
  assumes "resume_run E r h {} r1 h1 k1" and "resume_run E r1 h1 {} r2 h2 k2"
  shows "resume_run E r h {} r2 h2 (k1 + k2)"
  using assms passes_trans undisturbed_trans by (force simp: resume_run_def)

lemma run_event:
  assumes "resume_run E r h K r1 h1 k" and "\<forall>s q. e \<noteq> EvSend s q" and "harmless (length h) e"
  shows "resume_run E r h K r1 (e # h1) k"
proof -
  have "sent (e # h1) = sent h1" using assms(2) by (cases e) auto
  with assms show ?thesis by (auto simp: resume_run_def intro: passes_event undisturbed_event)
qed

lemma run_ctx: "resume_run E r h K r1 h1 k \<Longrightarrow> ctx_err E h1 = (e, h2) \<Longrightarrow> resume_run E r h K r1 h2 k"
  by (auto simp: ctx_err_def intro: run_event)

lemma stream_close_sent: "sent (stream_close s h) = sent h"
  by (cases s) (auto simp: body_close_def)

lemma close_body_sent: "sent (close_body b h) = sent h"
  by (cases b) (simp_all add: close_body_def stream_close_sent)

lemma run_stream_close:
  "resume_run E r h (stream_body s \<union> K) r1 h1 k \<Longrightarrow> resume_run E r h K r1 (stream_close s h1) k"
  using passes_stream_close [of E "rm_owned r" h s "rm_owned r1 \<union> K" h1] undisturbed_stream_close [of E h h1 s]
  by (auto simp: resume_run_def stream_close_sent ac_simps)

lemma run_body_close:
  "resume_run E r h {b} r1 h1 k \<Longrightarrow> resume_run E r h {} r1 (body_close b h1) k"
  using run_stream_close [of E r h "Net b" "{}" r1 h1 k] by simp

lemma run_drain: "resume_run E r h K r1 h1 k \<Longrightarrow> resume_run E r h K r1 (body_drain b h1) k"
  by (auto simp: body_drain_def intro: run_event)

lemma run_drain_close:
  "resume_run E r h {b} r1 h1 k \<Longrightarrow> resume_run E r h {} r1 (drain_and_close b h1) k"
  by (simp add: drain_and_close_def run_body_close run_drain)

lemma run_close:
  assumes "resume_run E r h K r1 h1 k" and "resume_close r1 h1 = (r2, h2)"
  shows "resume_run E r h K r2 h2 k"
proof (cases "rm_closed r1")
  case True
  with assms show ?thesis by (simp add: resume_close_def)
next
  case False
  with assms(2) have r2: "r2 = r1\<lparr>rm_closed := True, rm_body := None\<rparr>"
    and h2: "h2 = close_body (rm_body r1) (EvCancel # h1)" by (auto simp: resume_close_def)
  have ev: "resume_run E r h K r1 (EvCancel # h1) k" by (rule run_event [OF assms(1)]) simp_all
  then have "passes E (rm_owned r) h K h2"
    unfolding h2 by (intro passes_close_body) (simp add: resume_run_def rm_owned_def)
  with ev show ?thesis
    by (simp add: resume_run_def r2 rm_owned_def h2 close_body_sent undisturbed_close_body)
qed

lemma run_yield:
  "resume_run E r h K r1 h1 k \<Longrightarrow> resume_yield E r1 h1 = (r2, h2) \<Longrightarrow> resume_run E r h K r2 h2 k"
  using run_close [of E r h K r1 "EvInterrupt # h1" k r2 h2] run_event [of E r h K r1 h1 k EvInterrupt]
  by (auto simp: resume_yield_def split: if_splits)

lemma run_state_error:
  assumes "resume_run E r h K r1 h1 k" and "resume_state_error E r1 h1 = (e, r2, h2)"
  shows "resume_run E r h K r2 h2 k"
proof -
  obtain r3 h3 where y: "resume_yield E r1 h1 = (r3, h3)" by (metis surj_pair)
  from run_yield [OF assms(1) y] assms(2) y show ?thesis
    by (auto simp: resume_state_error_def intro: run_ctx split: if_splits prod.splits)
qed

lemma run_known_total:
  "resume_run E r h K r1 h1 k \<Longrightarrow> known_total E r1 h1 = (t, r2, h2) \<Longrightarrow> resume_run E r h K r2 h2 k"
  by (auto simp: known_total_def dest: run_yield split: prod.splits)

text \<open>The same steps do not disturb the bodies that exist when they start.\<close>

lemma undisturbed_yield: "resume_yield E r h = (r', h') \<Longrightarrow> undisturbed E h h'"
  using run_yield [OF resume_run_refl] by (auto simp: resume_run_def)

lemma undisturbed_state_error: "resume_state_error E r h = (e, r', h') \<Longrightarrow> undisturbed E h h'"
  using run_state_error [OF resume_run_refl] by (auto simp: resume_run_def)

lemma undisturbed_known_total: "known_total E r h = (t, r', h') \<Longrightarrow> undisturbed E h h'"
  using run_known_total [OF resume_run_refl] by (auto simp: resume_run_def)

section \<open>One replacement request\<close>

lemma run_wait_effect:
  assumes "resume_run E r h K r1 h1 k" and "retry_wait E c n after h1 = (e, h2)"
  shows "resume_run E r h K r1 h2 k"
proof -
  have "passes E (rm_owned r) h (rm_owned r1 \<union> K) h2"
    using assms by (auto simp: resume_run_def retry_wait_def backoff_delay_def rand_n_def
        sleep_context_def ctx_err_def intro!: passes_event split: if_splits prod.splits)
  with assms show ?thesis
    using undisturbed_wait [of E h h1] retry_wait_sent [OF assms(2)] by (simp add: resume_run_def)
qed

lemma run_wait:
  assumes "wait_for_resume_attempt E c after r h = (q, r', h')"
  shows "resume_run E r h {} r' h' (if q = Reserved then -10 else 0)"
proof -
  obtain q1 r1 h1 where rv: "reserve_resume_attempt E c r h = (q1, r1, h1)" by (metis prod_cases3)
  obtain se r0 where st: "resume_state_error E r h = (se, r0, h1)"
    and r1: "r1 = (if q1 = Reserved then r0\<lparr>rm_attempts := rm_attempts r0 + 1\<rparr> else r0)"
    using rv by (auto simp: reserve_resume_attempt_def split: prod.splits option.splits if_splits)
  have s: "resume_run E r h {} r0 h1 0" by (rule run_state_error [OF resume_run_refl st])
  show ?thesis
  proof (cases "q1 = Reserved")
    case True
    have a: "resume_run E r h {} r1 h1 (-10)"
      using s by (simp add: r1 True resume_run_def rm_owned_def)
    obtain we h2 where w: "retry_wait E c (nat (rm_attempts r1 - 1)) after h1 = (we, h2)"
      by (metis surj_pair)
    note b = run_wait_effect [OF a w]
    have mono: "resume_run E r h {} x y (-10) \<Longrightarrow> resume_run E r h {} x y 0" for x y
      by (simp add: resume_run_def)
    show ?thesis
      using assms rv True w b run_state_error [OF b, THEN mono]
      by (auto simp: wait_for_resume_attempt_def split: option.splits prod.splits)
  next
    case False
    with assms rv s r1 show ?thesis
      by (auto simp: wait_for_resume_attempt_def split: reservation.splits)
  qed
qed

lemma run_operation_error:
  "resume_run E r h K r1 h1 k \<Longrightarrow> context_operation_error E e h1 = (e', h2) \<Longrightarrow>
   resume_run E r h K r1 h2 k"
  by (auto simp: context_operation_error_def ctx_err_def intro: run_event split: option.splits)

lemma run_request:
  assumes "request_resume E c target offset h1 = (out, h2)"
  shows "resume_run E r h1 (kept out) r h2 10 \<and>
    (case out of Inl e \<Rightarrow> True | Inr resp \<Rightarrow> fresh E resp h2 \<and> length h1 \<le> rs_body resp)"
proof (cases "new_request ''GET'' target")
  case (Inl e)
  with assms show ?thesis by (auto simp: request_resume_def resume_run_def)
next
  case (Inr req)
  let ?req = "req\<lparr>rq_header := header_set ''Range'' (resume_header offset) (rq_header req)\<rparr>"
  obtain out1 h3 where run: "do_registry_request E (cl_write_redirects c) no_body ?req () h1 = (out1, (), h3)"
    by (metis (full_types) prod_cases3 old.unit.exhaust)
  have base: "resume_run E r h1 (kept out1) r h3 10"
    using passes_frame [OF settled_registry_request [OF settling_no_body run], of "rm_owned r"]
      registry_request_fresh [OF run] registry_request_sent [OF run]
    by (simp add: resume_run_def)
  show ?thesis
  proof (cases out1)
    case (Inl e)
    with assms Inr run base run_operation_error [of E r h1 "{}" r h3 10 e] show ?thesis
      by (auto simp: request_resume_def split: prod.splits)
  next
    case (Inr resp)
    have "length h1 \<le> rs_body resp"
    proof -
      have "length h1 < length h3"
        using registry_request_sent [OF run] settled_extends [OF settled_registry_request [OF settling_no_body run]]
        by (auto simp: extends_def)
      with registry_request_fresh [OF run] Inr show ?thesis by (simp add: fresh_def)
    qed
    with assms \<open>new_request ''GET'' target = Inr req\<close> run base Inr registry_request_fresh [OF run]
    show ?thesis by (auto simp: request_resume_def)
  qed
qed

text \<open>
  A validated replacement continues at the offset: its bodies are in hand and its stream is at
  the right byte.
\<close>

definition positioned :: "env \<Rightarrow> history \<Rightarrow> int \<Rightarrow> goerr + resume_response \<Rightarrow> bool" where
  "positioned E h offset q \<longleftrightarrow>
     (case q of Inl e \<Rightarrow> True | Inr rep \<Rightarrow> stream_at E h (rs_stream rep) (nat offset))"

definition in_hand :: "goerr + resume_response \<Rightarrow> nat set" where
  "in_hand q = (case q of Inl e \<Rightarrow> {} | Inr rep \<Rightarrow> stream_body (rs_stream rep))"

lemmas outcome_defs = positioned_def in_hand_def

lemma run_partial:
  assumes "validate_partial_resume_response E resp offset r1 h1 = (q, r2, h2)"
    and "resume_run E r h {rs_body resp} r1 h1 k" and "fresh E resp h1" and "rs_status resp = 206"
  shows "resume_run E r h (in_hand q) r2 h2 k \<and> positioned E h2 offset q"
proof -
  obtain kt r3 h3 where t: "known_total E r1 h1 = (kt, r3, h3)" by (metis prod_cases3)
  note s = run_known_total [OF assms(2) t]
  have at: "rs_body resp < length h3 \<and> position E h3 (rs_body resp)
      = answer_base 206 (rs_header resp)"
    using assms(3,4) undisturbed_known_total [OF t] by (auto simp: fresh_def undisturbed_def)
  show ?thesis
    using assms(1) t s at run_body_close [OF assms(2)] run_body_close [OF s]
    by (auto simp: validate_partial_resume_response_def Let_def outcome_defs answer_base_def
        split: option.splits if_splits)
qed

lemma run_terminal:
  assumes "validate_terminal_resume_response E resp offset r1 h1 = (q, r2, h2)"
    and "resume_run E r h {rs_body resp} r1 h1 k"
  shows "resume_run E r h (in_hand q) r2 h2 k \<and> positioned E h2 offset q"
proof -
  let ?h = "drain_and_close (rs_body resp) h1"
  note d = run_drain_close [OF assms(2)]
  obtain kt r3 h3 where t: "known_total E r1 ?h = (kt, r3, h3)" by (metis prod_cases3)
  from assms(1) t d run_known_total [OF d t] show ?thesis
    by (auto simp: validate_terminal_resume_response_def Let_def outcome_defs split: if_splits)
qed

lemma run_skip:
  assumes "resume_run E r h K r1 h1 k" and "body_skip E b n h1 = (e, h2)" and "length h \<le> b"
  shows "resume_run E r h K r1 h2 k"
  using assms by (auto simp: body_skip_def intro: run_event split: if_splits)

lemma run_full:
  assumes "validate_full_resume_response E resp offset cause r1 h1 = (q, r2, h2)"
    and "resume_run E r h {rs_body resp} r1 h1 k" and "fresh E resp h1" and "rs_status resp = 200"
    and "length h \<le> rs_body resp"
  shows "resume_run E r h (in_hand q) r2 h2 k \<and> (0 \<le> offset \<longrightarrow> positioned E h2 offset q)"
proof -
  let ?b = "rs_body resp"
  obtain se h3 where sk: "body_skip E ?b offset h1 = (se, h3)" by (metis surj_pair)
  note s3 = run_skip [OF assms(2) sk assms(5)]
  show ?thesis
  proof (cases se)
    case (Some e)
    note c = run_body_close [OF s3]
    obtain te r4 h4 where st: "resume_state_error E r1 (body_close ?b h3) = (te, r4, h4)" by (metis prod_cases3)
    from assms(1) sk Some st run_state_error [OF c st] run_operation_error [OF run_state_error [OF c st]]
    show ?thesis
      by (auto simp: validate_full_resume_response_def outcome_defs split: option.splits prod.splits)
  next
    case None
    have at3: "0 \<le> offset \<longrightarrow> ?b < length h3 \<and> position E h3 ?b = nat offset"
      using body_skip_at [of E ?b "nat offset" h1 h3 resp] sk None assms(3,4) by simp
    obtain te r4 h4 where st: "resume_state_error E r1 h3 = (te, r4, h4)" by (metis prod_cases3)
    note s4 = run_state_error [OF s3 st]
    obtain kt r5 h5 where t: "known_total E r4 h4 = (kt, r5, h5)" by (metis prod_cases3)
    note s5 = run_known_total [OF s4 t]
    have at5: "0 \<le> offset \<longrightarrow> ?b < length h5 \<and> position E h5 ?b = nat offset"
      using at3 undisturbed_state_error [OF st] undisturbed_known_total [OF t]
      by (auto simp: undisturbed_def)
    from assms(1) sk None st t s5 at5 run_body_close [OF s4] show ?thesis
      by (auto simp: validate_full_resume_response_def outcome_defs split: option.splits if_splits)
  qed
qed

lemma run_validate:
  assumes "validate_resume_response E resp offset cause r1 h1 = (q, r2, h2)"
    and "resume_run E r h {rs_body resp} r1 h1 k" and "fresh E resp h1"
    and "length h \<le> rs_body resp"
  shows "resume_run E r h (in_hand q) r2 h2 k \<and> (0 \<le> offset \<longrightarrow> positioned E h2 offset q)"
proof (cases "rs_status resp = 206 \<or> rs_status resp = 416 \<or> rs_status resp = 200")
  case True
  with assms run_partial [OF _ assms(2,3)] run_terminal [OF _ assms(2)]
    run_full [OF _ assms(2,3) _ assms(4)]
  show ?thesis unfolding validate_resume_response_def by (metis)
next
  case False
  obtain e h3 where i: "interpret_error E resp h1 = (e, h3)" by (metis surj_pair)
  have "resume_run E r h {rs_body resp} r1 h3 k"
    using i assms(2) by (auto simp: interpret_error_def now_def body_drain_def intro!: run_event)
  from run_body_close [OF this] assms(1) i False show ?thesis
    by (auto simp: validate_resume_response_def outcome_defs split: if_splits)
qed

section \<open>Reconnecting\<close>

definition rm_at :: "env \<Rightarrow> history \<Rightarrow> resume_reader \<Rightarrow> bool" where
  "rm_at E h r \<longleftrightarrow> 0 \<le> rm_offset r \<and>
     (case rm_body r of Some s \<Rightarrow> stream_at E h s (nat (rm_offset r)) | None \<Rightarrow> True)"

lemma rm_at_same: "rm_at E h r \<Longrightarrow> resume_same r r' \<Longrightarrow> undisturbed E h h' \<Longrightarrow> rm_at E h' r'"
  by (auto simp: rm_at_def resume_same_def intro: stream_at_undisturbed split: option.splits)

definition result_body :: "goerr + resume_attempt_result \<Rightarrow> nat set" where
  "result_body q = (case q of Inr (Replacement rep) \<Rightarrow> stream_body (rs_stream rep) | _ \<Rightarrow> {})"

definition result_at :: "env \<Rightarrow> history \<Rightarrow> int \<Rightarrow> goerr + resume_attempt_result \<Rightarrow> bool" where
  "result_at E h offset q \<longleftrightarrow>
     (case q of Inr (Replacement rep) \<Rightarrow> stream_at E h (rs_stream rep) (nat offset) | _ \<Rightarrow> True)"

lemma run_execute:
  assumes "execute_resume_attempt E c target cause r h = (q, r', h')"
  shows "resume_run E r h (result_body q) r' h' 10 \<and> (0 \<le> rm_offset r \<longrightarrow> result_at E h' (rm_offset r) q)"
proof -
  obtain out h1 where rq: "request_resume E c target (rm_offset r) h = (out, h1)" by (metis surj_pair)
  note run = run_request [OF rq, of r]
  show ?thesis
  proof (cases out)
    case (Inl e)
    obtain se r1 h2 where st: "resume_state_error E r h1 = (se, r1, h2)" by (metis prod_cases3)
    from run Inl have "resume_run E r h {} r h1 10" by simp
    from run_state_error [OF this st] assms rq Inl st show ?thesis
      by (auto simp: execute_resume_attempt_def result_body_def result_at_def split: option.splits if_splits)
  next
    case (Inr resp)
    with run have base: "resume_run E r h {rs_body resp} r h1 10" and fr: "fresh E resp h1"
      and new: "length h \<le> rs_body resp" by simp_all
    show ?thesis
    proof (cases "retryable_status (rs_status resp)")
      case True
      obtain e h2 t where i: "interpret_error E resp h1 = (e, h2)" and t: "now E h2 = (t, EvNow # h2)"
        by (metis surj_pair now_def)
      have "resume_run E r h {rs_body resp} r (EvNow # h2) 10"
        using i base by (auto simp: interpret_error_def now_def body_drain_def intro!: run_event)
      from run_drain_close [OF this] assms rq Inr True i t show ?thesis
        by (auto simp: execute_resume_attempt_def result_body_def result_at_def)
    next
      case False
      obtain v r1 h2 where v: "validate_resume_response E resp (rm_offset r) cause r h1 = (v, r1, h2)"
        by (metis prod_cases3)
      from run_validate [OF v base fr new] assms rq Inr False v show ?thesis
        by (cases v) (auto simp: execute_resume_attempt_def result_body_def result_at_def outcome_defs)
    qed
  qed
qed

lemma run_replace:
  assumes "replace_body E rep r1 h1 = (e, r2, h2)"
    and "resume_run E r h (stream_body (rs_stream rep)) r1 h1 k"
  shows "resume_run E r h {} r2 h2 k \<and>
    (stream_at E h1 (rs_stream rep) (nat (rm_offset r1)) \<and> rm_at E h1 r1 \<longrightarrow> rm_at E h2 r2)"
proof -
  obtain se r3 h3 where st: "resume_state_error E r1 h1 = (se, r3, h3)" by (metis prod_cases3)
  note s = run_state_error [OF assms(2) st]
  note u = undisturbed_state_error [OF st] and same = resume_state_error_same [OF st]
  show ?thesis
  proof (cases se)
    case (Some x)
    have "undisturbed E h1 (stream_close (rs_stream rep) h3)" by (rule undisturbed_stream_close [OF u])
    from rm_at_same [OF _ same this] run_stream_close [of E r h "rs_stream rep" "{}" r3 h3 k]
      assms(1) st Some s show ?thesis by (auto simp: replace_body_def)
  next
    case None
    let ?h = "close_body (rm_body r3) h3"
    have r2: "rm_body r2 = Some (rs_stream rep)" "rm_offset r2 = rm_offset r1" "rm_attempts r2 = rm_attempts r3"
      and h2: "h2 = ?h" using assms(1) st None same by (auto simp: replace_body_def resume_same_def)
    have "passes E (rm_owned r) h (stream_body (rs_stream rep)) ?h"
      using s by (intro passes_close_body) (simp add: resume_run_def rm_owned_def)
    then have run: "resume_run E r h {} r2 h2 k"
      using s by (simp add: resume_run_def r2 rm_owned_def h2 close_body_sent undisturbed_close_body)
    from run stream_at_undisturbed [OF _ undisturbed_close_body [OF u]] show ?thesis
      by (simp add: rm_at_def r2 h2)
  qed
qed

lemma wait_offset:
  assumes "wait_for_resume_attempt E c after r h = (q, r', h')"
  shows "rm_offset r' = rm_offset r \<and> rm_body r' \<in> {rm_body r, None}"
proof -
  obtain q2 r2 h2 where rv: "reserve_resume_attempt E c r h = (q2, r2, h2)" by (metis prod_cases3)
  have "rm_offset r' = rm_offset r2 \<and> rm_body r' \<in> {rm_body r2, None}"
    using assms rv by (auto simp: wait_for_resume_attempt_def resume_same_def
        dest!: resume_state_error_same split: reservation.splits prod.splits option.splits)
  with reserve_same [OF rv] show ?thesis by (auto simp: resume_same_def split: if_splits)
qed

lemma run_at:
  assumes "resume_run E r h K r' h' k" and "rm_offset r' = rm_offset r \<and> rm_body r' \<in> {rm_body r, None}"
    and "rm_at E h r"
  shows "rm_at E h' r'"
  using assms by (auto simp: rm_at_def resume_run_def intro: stream_at_undisturbed split: option.splits)

text \<open>A reconnect leaves the reader at the byte where it broke, and pays for what it sends.\<close>

lemma run_turn:
  "case resume_turn E c target after cause r h of
      Inl (e, r', h') \<Rightarrow> resume_run E r h {} r' h' 0 \<and> (rm_at E h r \<longrightarrow> rm_at E h' r')
    | Inr (after', cause', r', h') \<Rightarrow> resume_run E r h {} r' h' 0 \<and> (rm_at E h r \<longrightarrow> rm_at E h' r')"
proof -
  obtain q r1 h1 where w: "wait_for_resume_attempt E c after r h = (q, r1, h1)" by (metis prod_cases3)
  note run1 = run_wait [OF w] and off1 = wait_offset [OF w]
  have at1: "rm_at E h r \<longrightarrow> rm_at E h1 r1" using run_at [OF run1 off1] by blast
  show ?thesis
  proof (cases "q = Reserved")
    case False
    with w run1 at1 show ?thesis unfolding resume_turn_def by (cases q) simp_all
  next
    case True
    obtain x r2 h2 where ex: "execute_resume_attempt E c target cause r1 h1 = (x, r2, h2)"
      by (metis prod_cases3)
    note run2 = run_execute [OF ex] and same2 = execute_same [OF ex]
    have "undisturbed E h1 h2" using run2 by (simp add: resume_run_def)
    from rm_at_same [OF _ same2 this] at1 have at2: "rm_at E h r \<longrightarrow> rm_at E h2 r2" by blast
    have comb: "resume_run E r h (result_body x) r2 h2 0"
      using run1 run2 [THEN conjunct1] True passes_trans undisturbed_trans by (force simp: resume_run_def)
    show ?thesis
    proof (cases "\<exists>rep. x = Inr (Replacement rep)")
      case True
      then obtain rep where x: "x = Inr (Replacement rep)" by blast
      obtain e r3 h3 where rp: "replace_body E rep r2 h2 = (e, r3, h3)" by (metis prod_cases3)
      have "rm_at E h r \<longrightarrow> stream_at E h2 (rs_stream rep) (nat (rm_offset r2))"
        using run2 at1 same2 by (auto simp: x result_at_def resume_same_def rm_at_def)
      with run_replace [OF rp, of r h 0] comb at2 show ?thesis
        unfolding resume_turn_def w \<open>q = Reserved\<close> ex prod.case reservation.case x sum.case
          resume_attempt_result.case rp by (simp add: x result_body_def)
    next
      case False
      with comb at2 show ?thesis
        unfolding resume_turn_def w \<open>q = Reserved\<close> ex prod.case reservation.case
        by (cases x) (auto simp: result_body_def split: resume_attempt_result.splits)
    qed
  qed
qed

lemma run_reestablish:
  "reestablish E c target after cause r h = (e, r', h') \<Longrightarrow>
   resume_run E r h {} r' h' 0 \<and> (rm_at E h r \<longrightarrow> rm_at E h' r')"
proof (induction E c target after cause r h arbitrary: e r' h' rule: reestablish.induct)
  case (1 E c target after cause r h)
  note turn = run_turn [where E = E and c = c and target = target and after = after and cause = cause and r = r and h = h]
  show ?case
  proof (cases "resume_turn E c target after cause r h")
    case (Inl q)
    with "1.prems" turn show ?thesis by (simp add: reestablish.simps [of E c target after cause r h])
  next
    case (Inr q)
    obtain a1 c1 r1 h1 where q: "q = (a1, c1, r1, h1)" by (metis prod_cases4)
    with "1.prems"(1) Inr have "reestablish E c target a1 c1 r1 h1 = (e, r', h')"
      by (simp add: reestablish.simps [of E c target after cause r h])
    from "1.IH" [OF Inr [unfolded q] refl refl refl this] turn Inr q show ?thesis
      using resume_run_trans [of E r h r1 h1 0 r' h' 0] by simp
  qed
qed

section \<open>Reading\<close>

text \<open>
  \<open>read_run E B r h d r' h'\<close>: the reader delivered \<open>d\<close>. No body is lost, what it sent is
  covered by the attempts it spent, and over a faithful server the bytes are the next of \<open>B\<close>.
\<close>

definition read_run ::
    "env \<Rightarrow> byte list \<Rightarrow> resume_reader \<Rightarrow> history \<Rightarrow> byte list \<Rightarrow> resume_reader \<Rightarrow> history \<Rightarrow> bool" where
  "read_run E B r h d r' h' \<longleftrightarrow>
     passes E (rm_owned r) h (rm_owned r') h' \<and>
     int (length (sent h')) - 10 * rm_attempts r' \<le> int (length (sent h)) - 10 * rm_attempts r \<and>
     (serves E B \<and> rm_at E h r \<longrightarrow>
        rm_at E h' r' \<and> rm_offset r' = rm_offset r + int (length d) \<and>
        d = window (nat (rm_offset r)) (nat (rm_offset r) + length d) B)"

lemma window_extend:
  assumes "d1 = window k (k + length d1) B" and "d2 = window (k + length d1) (k + length d1 + length d2) B"
  shows "d1 @ d2 = window k (k + length (d1 @ d2)) B"
proof -
  have "d1 @ d2 = window k (k + length d1) B @ window (k + length d1) (k + length d1 + length d2) B"
    using assms by simp
  also have "\<dots> = window k (k + length d1 + length d2) B" by (rule window_join) simp_all
  finally show ?thesis by (metis add.assoc length_append)
qed

lemma read_run_trans:
  assumes "read_run E B r h d1 r1 h1" and "read_run E B r1 h1 d2 r2 h2"
  shows "read_run E B r h (d1 @ d2) r2 h2"
proof -
  have p: "passes E (rm_owned r) h (rm_owned r2) h2"
    using assms passes_trans unfolding read_run_def by blast
  have s: "int (length (sent h2)) - 10 * rm_attempts r2 \<le> int (length (sent h)) - 10 * rm_attempts r"
    using assms unfolding read_run_def by linarith
  have "rm_at E h2 r2 \<and> rm_offset r2 = rm_offset r + int (length (d1 @ d2)) \<and>
      d1 @ d2 = window (nat (rm_offset r)) (nat (rm_offset r) + length (d1 @ d2)) B"
    if sv: "serves E B" and at: "rm_at E h r"
  proof -
    let ?k = "nat (rm_offset r)"
    from sv at assms(1) have 1: "rm_at E h1 r1" "rm_offset r1 = rm_offset r + int (length d1)"
      "d1 = window ?k (?k + length d1) B" unfolding read_run_def by blast+
    from sv 1(1) assms(2) have 2: "rm_at E h2 r2" "rm_offset r2 = rm_offset r1 + int (length d2)"
      "d2 = window (nat (rm_offset r1)) (nat (rm_offset r1) + length d2) B" unfolding read_run_def by blast+
    have "nat (rm_offset r1) = ?k + length d1" using 1(2) at by (simp add: rm_at_def nat_add_distrib)
    with window_extend [OF 1(3)] 2(3)
    have "d1 @ d2 = window ?k (?k + length (d1 @ d2)) B" by metis
    moreover have "rm_offset r2 = rm_offset r + int (length (d1 @ d2))" using 1(2) 2(2) by (simp only: length_append)
    ultimately show ?thesis using 2(1) by blast
  qed
  with p s show ?thesis unfolding read_run_def by blast
qed

lemma resume_run_read:
  "resume_run E r h {} r' h' 0 \<Longrightarrow> rm_at E h r \<longrightarrow> rm_at E h' r' \<Longrightarrow> rm_offset r' = rm_offset r \<Longrightarrow>
   read_run E B r h [] r' h'"
  by (simp add: resume_run_def read_run_def window_def)

lemma stream_read_sent: "stream_read E n s h = (q, s', h') \<Longrightarrow> sent h' = sent h"
  by (cases s) (auto simp: body_read_def split: prod.splits if_splits)

lemma run_body_read:
  assumes "rm_body r = Some s" and y: "resume_yield E r h = (r1, h1)"
    and rd: "stream_read E n s h1 = ((d, e), s', h2)" and rc: "record_read E d s' r1 h2 = (se, r2, h3)"
  shows "read_run E B r h d r2 h3"
proof -
  obtain r3 h4 where y2: "resume_yield E r1 h2 = (r3, h4)" by (metis surj_pair)
  have r2: "r2 = r3\<lparr>rm_offset := rm_offset r3 + int (length d),
      rm_body := (case rm_body r3 of Some _ \<Rightarrow> Some s' | None \<Rightarrow> None)\<rparr>"
    and h3: "h3 = h4 \<or> h3 = EvCtx # h4"
    using rc y2 by (auto simp: record_read_def Let_def ctx_err_def split: if_splits prod.splits)
  note same1 = resume_yield_same [OF y] and same2 = resume_yield_same [OF y2]
  note run1 = run_yield [OF resume_run_refl y]
  have run2: "resume_run E r1 h2 {} r3 h4 0" by (rule run_yield [OF resume_run_refl y2])
  have keep: "stream_body s' = stream_body s" by (rule stream_read_keeps [OF rd])
  have "rm_body r3 = Some s \<or> rm_body r3 = None"
    using same1 same2 assms(1) unfolding resume_same_def by metis
  then have owned: "rm_owned r3 = rm_owned r2" using keep by (auto simp: r2 rm_owned_def)
  have "passes E (rm_owned r1) h1 (rm_owned r1) h2"
    using passes_frame [OF stream_read_settled [OF rd, of "{}"], of "rm_owned r1"] by simp
  from passes_trans [OF passes_trans [OF _ this]] run1 run2
  have "passes E (rm_owned r) h (rm_owned r2) h4" by (simp add: resume_run_def owned)
  then have p3: "passes E (rm_owned r) h (rm_owned r2) h3" using h3 by (auto intro: passes_event)
  have sent: "int (length (sent h3)) - 10 * rm_attempts r2 \<le> int (length (sent h)) - 10 * rm_attempts r"
    using run1 run2 stream_read_sent [OF rd] h3 by (auto simp: resume_run_def r2)
  have "rm_at E h3 r2 \<and> rm_offset r2 = rm_offset r + int (length d) \<and>
      d = window (nat (rm_offset r)) (nat (rm_offset r) + length d) B"
    if sv: "serves E B" and at: "rm_at E h r"
  proof -
    let ?k = "nat (rm_offset r)"
    have "stream_at E h s ?k" and k: "0 \<le> rm_offset r" using at assms(1) by (auto simp: rm_at_def)
    moreover have "undisturbed E h h1" using run1 by (simp add: resume_run_def)
    ultimately have "stream_at E h1 s ?k" using stream_at_undisturbed by blast
    from stream_read_at [OF rd sv this]
    have d: "d = window ?k (?k + length d) B" and "stream_at E h2 s' (?k + length d)" by blast+
    moreover have "undisturbed E h2 h3"
      using run2 h3 by (auto simp: resume_run_def intro: undisturbed_event)
    ultimately have "stream_at E h3 s' (?k + length d)" using stream_at_undisturbed by blast
    moreover have o: "rm_offset r2 = rm_offset r + int (length d)"
      using same1 same2 by (simp add: r2 resume_same_def)
    moreover have "rm_body r2 = Some s' \<or> rm_body r2 = None" by (cases "rm_body r3") (simp_all add: r2)
    ultimately have "rm_at E h3 r2" using k by (auto simp: rm_at_def nat_add_distrib)
    with o d show ?thesis by blast
  qed
  with p3 sent show ?thesis unfolding read_run_def by blast
qed

lemma resume_run_same_read:
  assumes "resume_run E r h {} r' h' 0" and "resume_same r r'"
  shows "read_run E B r h [] r' h'"
proof (rule resume_run_read [OF assms(1)])
  show "rm_at E h r \<longrightarrow> rm_at E h' r'"
    using assms rm_at_same by (auto simp: resume_run_def)
qed (use assms(2) in \<open>simp add: resume_same_def\<close>)

lemma run_read_turn:
  "case resume_read_turn E c target n r h of
     Inl ((d, e), r', h') \<Rightarrow> read_run E B r h d r' h'
   | Inr (r', h') \<Rightarrow> read_run E B r h [] r' h'"
proof -
  obtain se r1 h1 where st: "resume_state_error E r h = (se, r1, h1)" by (metis prod_cases3)
  have a: "read_run E B r h [] r1 h1"
    by (rule resume_run_same_read [OF run_state_error [OF resume_run_refl st] resume_state_error_same [OF st]])
  show ?thesis
  proof (cases "se \<noteq> None \<or> rm_body r1 = None")
    case True
    with st a show ?thesis by (auto simp: resume_read_turn_def split: option.split)
  next
    case False
    then obtain s where b: "se = None" "rm_body r1 = Some s" by auto
    obtain r2 h2 where y: "resume_yield E r1 h1 = (r2, h2)" by (metis surj_pair)
    obtain d e s' h3 where rd: "stream_read E n s h2 = ((d, e), s', h3)" by (metis prod_cases4 surj_pair)
    obtain se2 r3 h4 where rc: "record_read E d s' r2 h3 = (se2, r3, h4)" by (metis prod_cases3)
    have c: "read_run E B r h d r3 h4"
      using read_run_trans [OF a run_body_read [OF b(2) y rd rc]] by simp
    let ?cl = "classify_resume_read_error e (rm_offset r3) (rm_body_end r3) (rm_total r3)"
    show ?thesis
    proof (cases "se2 = None \<and> (\<exists>cause. ?cl = Inr cause)")
      case False
      with st b y rd rc c show ?thesis
        by (auto simp: resume_read_turn_def split: option.split sum.split)
    next
      case True
      then obtain cause where cl: "se2 = None" "?cl = Inr cause" by blast
      obtain re r4 h5 where rest: "reestablish E c target 0 cause r3 h4 = (re, r4, h5)" by (metis prod_cases3)
      note run = run_reestablish [OF rest]
      have "read_run E B r3 h4 [] r4 h5"
        using run reestablish_attempts [OF rest] by (intro resume_run_read) blast+
      from read_run_trans [OF c this] have "read_run E B r h d r4 h5" by simp
      with st b y rd rc cl rest show ?thesis
        by (cases re) (auto simp: resume_read_turn_def)
    qed
  qed
qed

lemma run_loop: "resume_loop E c target n r h = ((d, e), r', h') \<Longrightarrow> read_run E B r h d r' h'"
proof (induction E c target n r h arbitrary: d e r' h' rule: resume_loop.induct)
  case (1 E c target n r h)
  note turn = run_read_turn [where E = E and c = c and target = target and n = n and r = r and h = h and B = B]
  show ?case
  proof (cases "resume_read_turn E c target n r h")
    case (Inl q)
    with "1.prems" turn show ?thesis by (simp add: resume_loop.simps [of E c target n r h])
  next
    case (Inr q)
    obtain r1 h1 where q: "q = (r1, h1)" by (metis surj_pair)
    with "1.prems" Inr have "resume_loop E c target n r1 h1 = ((d, e), r', h')"
      by (simp add: resume_loop.simps [of E c target n r h])
    from "1.IH" [OF Inr [unfolded q] refl this] turn Inr q read_run_trans [of E B r h "[]" r1 h1 d r' h']
    show ?thesis by simp
  qed
qed

lemma run_read:
  assumes "resume_read E c target n r h = ((d, e), r', h')"
  shows "read_run E B r h d r' h'"
proof (cases "n = 0")
  case True
  obtain se r1 h1 where st: "resume_state_error E r h = (se, r1, h1)" by (metis prod_cases3)
  with assms True resume_run_same_read [OF run_state_error [OF resume_run_refl st] resume_state_error_same [OF st]]
  show ?thesis by (simp add: resume_read_def)
next
  case False
  with assms run_loop show ?thesis by (simp add: resume_read_def)
qed

interpretation resume_bytes: byte_reader E "resume_read E c target" rm_owned for E c target
proof
  fix n r h d e r' h'
  assume r: "resume_read E c target n r h = ((d, e), r', h')"
  show "length d \<le> n" using resume_read_attempts [OF r] by simp
  show "passes E (rm_owned r) h (rm_owned r') h'"
    using run_read [OF r] unfolding read_run_def by blast
qed

section \<open>Guarantees of a read sequence\<close>

lemma run_seq:
  "read_seq (resume_read E c target) ns r h = ((d, e), r', h') \<Longrightarrow>
   read_run E B r h d r' h' \<and> rm_attempts r \<le> rm_attempts r' \<and>
   rm_attempts r' \<le> max (rm_attempts r) (attempts (cl_retry c))"
proof (induction ns arbitrary: r h d)
  case Nil
  then show ?case by (auto intro: resume_run_same_read resume_run_refl)
next
  case (Cons n ns)
  obtain d1 e1 r1 h1 where r: "resume_read E c target n r h = ((d1, e1), r1, h1)"
    by (metis prod_cases4 surj_pair)
  note first = run_read [OF r, of B] resume_read_attempts [OF r]
  show ?case
  proof (cases e1)
    case (Some x)
    with Cons.prems r first show ?thesis by auto
  next
    case None
    with Cons.prems r obtain d2 where
      q: "read_seq (resume_read E c target) ns r1 h1 = ((d2, e), r', h')" "d = d1 @ d2"
      by (auto split: prod.splits)
    from Cons.IH [OF q(1)] first read_run_trans [of E B r h d1 r1 h1 d2 r' h'] show ?thesis
      by (auto simp: q(2))
  qed
qed

lemma resume_close_passes:
  assumes "resume_close r h = (r', h')" and "rm_closed r \<longrightarrow> rm_body r = None"
  shows "passes E (rm_owned r) h {} h'"
proof -
  from run_close [OF resume_run_refl assms(1), of E]
  have "passes E (rm_owned r) h (rm_owned r') h'" by (simp add: resume_run_def)
  moreover have "rm_body r' = None" using assms by (auto simp: resume_close_def split: if_splits)
  ultimately show ?thesis by (simp add: rm_owned_def)
qed

text \<open>A closed reader has no body.\<close>

definition rm_shut :: "resume_reader \<Rightarrow> bool" where
  "rm_shut r \<longleftrightarrow> (rm_closed r \<longrightarrow> rm_body r = None)"

lemma shut_yield: "rm_shut r \<Longrightarrow> resume_yield E r h = (r', h') \<Longrightarrow> rm_shut r'"
  by (auto simp: rm_shut_def resume_yield_def resume_close_def split: if_splits)

lemma shut_state_error: "rm_shut r \<Longrightarrow> resume_state_error E r h = (e, r', h') \<Longrightarrow> rm_shut r' \<and> (e = None \<longrightarrow> \<not> rm_closed r')"
  by (auto simp: resume_state_error_def dest: shut_yield split: prod.splits if_splits)

lemma shut_total: "rm_shut r \<Longrightarrow> known_total E r h = (k, r', h') \<Longrightarrow> rm_shut r'"
  by (auto simp: known_total_def dest: shut_yield split: prod.splits)

lemma shut_wait: "rm_shut r \<Longrightarrow> wait_for_resume_attempt E c after r h = (q, r', h') \<Longrightarrow> rm_shut r'"
  by (auto simp: wait_for_resume_attempt_def reserve_resume_attempt_def rm_shut_def
      dest!: shut_state_error [unfolded rm_shut_def, rotated]
      split: prod.splits option.splits if_splits reservation.splits)

lemma shut_validate: "rm_shut r \<Longrightarrow> validate_resume_response E resp offset cause r h = (q, r', h') \<Longrightarrow> rm_shut r'"
  by (auto simp: validate_resume_response_def validate_partial_resume_response_def
      validate_terminal_resume_response_def validate_full_resume_response_def Let_def
      dest: shut_total shut_state_error split: if_splits prod.splits option.splits)

lemma shut_execute: "rm_shut r \<Longrightarrow> execute_resume_attempt E c target cause r h = (q, r', h') \<Longrightarrow> rm_shut r'"
  by (auto simp: execute_resume_attempt_def Let_def dest: shut_validate shut_state_error
      split: if_splits prod.splits option.splits sum.splits)

lemma shut_replace: "rm_shut r \<Longrightarrow> replace_body E rep r h = (e, r', h') \<Longrightarrow> rm_shut r'"
  by (auto simp: replace_body_def rm_shut_def dest!: shut_state_error [unfolded rm_shut_def, rotated]
      split: prod.splits option.splits)

lemma shut_turn:
  assumes "rm_shut r"
  shows "case resume_turn E c target after cause r h of
      Inl (e, r', h') \<Rightarrow> rm_shut r' | Inr (after', cause', r', h') \<Rightarrow> rm_shut r'"
proof -
  obtain q r1 h1 where w: "wait_for_resume_attempt E c after r h = (q, r1, h1)" by (metis prod_cases3)
  obtain x r2 h2 where ex: "execute_resume_attempt E c target cause r1 h1 = (x, r2, h2)" by (metis prod_cases3)
  note s1 = shut_wait [OF assms w]
  note s2 = shut_execute [OF s1 ex]
  show ?thesis
    using w ex s1 s2 shut_replace [OF s2]
    by (cases q) (auto simp: resume_turn_def split: sum.splits resume_attempt_result.splits)
qed

lemma shut_reestablish:
  "reestablish E c target after cause r h = (e, r', h') \<Longrightarrow> rm_shut r \<Longrightarrow> rm_shut r'"
proof (induction E c target after cause r h arbitrary: e r' h' rule: reestablish.induct)
  case (1 E c target after cause r h)
  note turn = shut_turn [OF "1.prems"(2), of E c target after cause h]
  show ?case
  proof (cases "resume_turn E c target after cause r h")
    case (Inl q)
    with "1.prems" turn show ?thesis by (simp add: reestablish.simps [of E c target after cause r h])
  next
    case (Inr q)
    obtain a1 c1 r1 h1 where q: "q = (a1, c1, r1, h1)" by (metis prod_cases4)
    with "1.prems"(1) Inr have "reestablish E c target a1 c1 r1 h1 = (e, r', h')"
      by (simp add: reestablish.simps [of E c target after cause r h])
    from "1.IH" [OF Inr [unfolded q] refl refl refl this] turn Inr q show ?thesis by simp
  qed
qed

lemma shut_record: "rm_shut r \<Longrightarrow> record_read E d s r h = (e, r', h') \<Longrightarrow> rm_shut r'"
  using shut_yield [of r E h]
  by (auto simp: record_read_def Let_def rm_shut_def split: prod.splits if_splits option.splits)

lemma shut_read_turn:
  assumes "rm_shut r"
  shows "case resume_read_turn E c target n r h of Inl (out, r', h') \<Rightarrow> rm_shut r' | Inr (r', h') \<Rightarrow> rm_shut r'"
proof -
  obtain se r1 h1 where st: "resume_state_error E r h = (se, r1, h1)" by (metis prod_cases3)
  note s1 = shut_state_error [OF assms st, THEN conjunct1]
  show ?thesis
  proof (cases "se \<noteq> None \<or> rm_body r1 = None")
    case True
    with st s1 show ?thesis by (auto simp: resume_read_turn_def split: option.split)
  next
    case False
    then obtain s where b: "se = None" "rm_body r1 = Some s" by auto
    obtain r2 h2 where y: "resume_yield E r1 h1 = (r2, h2)" by (metis surj_pair)
    obtain d e s' h3 where rd: "stream_read E n s h2 = ((d, e), s', h3)" by (metis prod_cases4 surj_pair)
    obtain se2 r3 h4 where rc: "record_read E d s' r2 h3 = (se2, r3, h4)" by (metis prod_cases3)
    note s3 = shut_record [OF shut_yield [OF s1 y] rc]
    show ?thesis
      using st b y rd rc s3 shut_reestablish [OF _ s3]
      by (auto simp: resume_read_turn_def split: option.split sum.split prod.split)
  qed
qed

lemma shut_loop: "resume_loop E c target n r h = (out, r', h') \<Longrightarrow> rm_shut r \<Longrightarrow> rm_shut r'"
proof (induction E c target n r h arbitrary: out r' h' rule: resume_loop.induct)
  case (1 E c target n r h)
  note turn = shut_read_turn [OF "1.prems"(2), of E c target n h]
  show ?case
  proof (cases "resume_read_turn E c target n r h")
    case (Inl q)
    with "1.prems" turn show ?thesis by (simp add: resume_loop.simps [of E c target n r h])
  next
    case (Inr q)
    obtain r1 h1 where q: "q = (r1, h1)" by (metis surj_pair)
    with "1.prems" Inr have "resume_loop E c target n r1 h1 = (out, r', h')"
      by (simp add: resume_loop.simps [of E c target n r h])
    from "1.IH" [OF Inr [unfolded q] refl this] turn Inr q show ?thesis by simp
  qed
qed

lemma shut_read: "resume_read E c target n r h = (out, r', h') \<Longrightarrow> rm_shut r \<Longrightarrow> rm_shut r'"
  using shut_loop [of E c target n r h] shut_state_error [of r E h]
  by (auto simp: resume_read_def split: if_splits prod.splits)

section \<open>The first response\<close>

lemma attempt_fresh:
  assumes "do_retry_attempt E c build final a h = (r, a', h')" and "rr_response r = Some resp"
  shows "fresh E resp h'"
proof (cases "build a")
  case (Pair b a1)
  show ?thesis
  proof (cases b)
    case (Inl e)
    with assms Pair show ?thesis by (auto simp: attempt_defs)
  next
    case (Inr req)
    obtain out h1 where run: "do_registry_request E (cl_write_redirects c) no_body req () h = (out, (), h1)"
      by (metis (full_types) prod_cases3 old.unit.exhaust)
    from registry_request_fresh [OF run] assms Pair Inr run show ?thesis
      by (cases out) (auto simp: attempt_defs now_def split: option.splits if_splits prod.splits)
  qed
qed

lemma do_retry_fresh:
  fixes build :: "'a \<Rightarrow> (goerr + request) \<times> 'a"
  assumes "do_retry E c build a h = (Inr resp, a', h')"
  shows "fresh E resp h'"
proof -
  let ?Q = "\<lambda>q :: (goerr + response) \<times> 'a \<times> history. \<forall>resp. fst q = Inr resp \<longrightarrow> fresh E resp (snd (snd q))"
  have "?Q (Inr resp, a', h')"
  proof (rule retry_loop.loop_rule [OF assms [unfolded do_retry_loop], where P = "\<lambda>k s. True" and Q = ?Q])
    fix j t and q :: "(goerr + response) \<times> 'a \<times> history"
    assume t: "retry_turn E c build j t = Inl q"
    obtain a2 h2 where s: "t = (a2, h2)" by (metis surj_pair)
    obtain out b h3 where q: "q = (out, b, h3)" by (metis prod_cases3)
    from t [unfolded s q] show "?Q q"
      by (cases rule: retry_turn_off)
        (auto simp: q retry_outcome_def dest: attempt_fresh split: option.splits)
  qed simp_all
  then show ?thesis by simp
qed

lemma get_fresh:
  assumes "get_after_attempts E c u [] spent h = (Inr (resp, n), h')"
  shows "fresh E resp h' \<and> rs_status resp = 200"
  using assms do_retry_fresh
  by (fastforce simp: get_after_attempts_def Let_def split: if_splits prod.splits sum.splits)


section \<open>The guarantees\<close>

lemma seq_shut:
  "read_seq (resume_read E c target) ns r h = (out, r', h') \<Longrightarrow> rm_shut r \<Longrightarrow> rm_shut r'"
proof (induction ns arbitrary: r h out)
  case (Cons n ns)
  obtain o1 r1 h1 where r: "resume_read E c target n r h = (o1, r1, h1)" by (metis prod_cases3)
  from Cons.IH [of r1 h1] shut_read [OF r Cons.prems(2)] Cons.prems(1) r show ?case
    by (auto split: prod.splits option.splits)
qed simp

lemma seq_offset:
  "read_seq (resume_read E c target) ns r h = ((d, e), r', h') \<Longrightarrow>
   rm_offset r' = rm_offset r + int (length d)"
proof (induction ns arbitrary: r h d)
  case (Cons n ns)
  obtain d1 e1 r1 h1 where r: "resume_read E c target n r h = ((d1, e1), r1, h1)"
    by (metis prod_cases4 surj_pair)
  with Cons.prems resume_read_attempts [OF r] show ?case
    by (cases e1) (fastforce split: prod.splits dest: Cons.IH)+
qed simp

text \<open>
  C36. The lifetime budget of a download: over any sequence of reads of a resuming reader, the
  requests that reconnects send stay within the policy's attempts that the first response left
  over, each followed through at most ten hops, and the reader's offset counts exactly the bytes
  it delivered, whatever broke and however often.
\<close>

theorem resume_budget:
  "case read_seq (resume_read E c target) ns (new_resume_reader body spent) h of
     ((d, e), r', h') \<Rightarrow>
       (let first = (case spent of Some n \<Rightarrow> max n 1 | None \<Rightarrow> 1) in
         first \<le> rm_attempts r' \<and> rm_attempts r' \<le> max first (attempts (cl_retry c)) \<and>
         int (length (sent h')) \<le> int (length (sent h)) + 10 * (rm_attempts r' - first)) \<and>
       rm_offset r' = int (length d)"
proof -
  let ?r = "new_resume_reader body spent"
  obtain d e r' h' where q: "read_seq (resume_read E c target) ns ?r h = ((d, e), r', h')"
    by (metis prod_cases4 surj_pair)
  have "read_run E [] ?r h d r' h'" and "rm_attempts ?r \<le> rm_attempts r'"
    and "rm_attempts r' \<le> max (rm_attempts ?r) (attempts (cl_retry c))"
    using run_seq [OF q] by blast+
  moreover have "rm_attempts ?r = (case spent of Some n \<Rightarrow> max n 1 | None \<Rightarrow> 1)" and "rm_offset ?r = 0"
    by (simp_all add: new_resume_reader_def)
  ultimately show ?thesis
    using seq_offset [OF q] unfolding q prod.case read_run_def Let_def by simp
qed

text \<open>
  A resumed download leaks nothing: after any sequence of reads and a \<open>Close\<close>, the body it
  was given and every body received by a reconnect are closed, wherever another \<open>Close\<close> ran in
  between.
\<close>

theorem resume_closed:
  "case read_seq (resume_read E c target) ns (new_resume_reader body spent) h of
     (out, r', h') \<Rightarrow> (case resume_close r' h' of (r'', h'') \<Rightarrow> passes E (stream_body body) h {} h'')"
proof -
  let ?r = "new_resume_reader body spent"
  obtain d e r' h' where q: "read_seq (resume_read E c target) ns ?r h = ((d, e), r', h')"
    by (metis prod_cases4 surj_pair)
  obtain r'' h'' where cl: "resume_close r' h' = (r'', h'')" by (metis surj_pair)
  have "rm_shut ?r" by (simp add: rm_shut_def new_resume_reader_def)
  from seq_shut [OF q this] have "passes E (rm_owned r') h' {} h''"
    using resume_close_passes [OF cl] by (simp add: rm_shut_def)
  moreover have "passes E (stream_body body) h (rm_owned r') h'"
    using resume_bytes.read_seq_passes [OF q] by (simp add: rm_owned_def new_resume_reader_def)
  ultimately show ?thesis using passes_trans by (simp add: q cl) 
qed

end
