(* ===== verification/Chunks.thy ===== *)
theory Chunks
  imports Resumption
begin

text \<open>
  parallel.go, the work of one fetcher: chunk buffers and their pool, exact reads, one ranged
  request with its retries, and the assembly of a chunk from the portions a server returns. The
  concurrent Close of the puller is seen through the environment: a body that arrives after it is
  refused by \<open>trackBody\<close>.
\<close>

section \<open>Buffers\<close>

text \<open>A slice with its capacity; the nil slice is None.\<close>

record buffer =
  bf_data :: "byte list"
  bf_cap :: int

definition buf_data :: "buffer option \<Rightarrow> byte list" where
  "buf_data b = (case b of None \<Rightarrow> [] | Some x \<Rightarrow> bf_data x)"

definition buf_cap :: "buffer option \<Rightarrow> int" where
  "buf_cap b = (case b of None \<Rightarrow> 0 | Some x \<Rightarrow> bf_cap x)"

definition buf_len :: "buffer option \<Rightarrow> int" where
  "buf_len b = int (length (buf_data b))"

definition buf_take :: "nat \<Rightarrow> buffer option \<Rightarrow> buffer option" where
  "buf_take n b = map_option (\<lambda>x. x\<lparr>bf_data := take n (bf_data x)\<rparr>) b"

text \<open>\<open>chunkBufferPool\<close>: a channel of reusable buffers.\<close>

record buffer_pool =
  bp_limit :: nat
  bp_buffers :: "buffer list"

definition pool_take :: "buffer_pool \<Rightarrow> buffer option \<times> buffer_pool" where
  "pool_take p =
     (case bp_buffers p of
        [] \<Rightarrow> (None, p)
      | b # bs \<Rightarrow> (Some (b\<lparr>bf_data := []\<rparr>), p\<lparr>bp_buffers := bs\<rparr>))"

definition pool_put :: "buffer option \<Rightarrow> buffer_pool \<Rightarrow> buffer_pool" where
  "pool_put b p =
     (case b of
        None \<Rightarrow> p
      | Some x \<Rightarrow>
          if length (bp_buffers p) < bp_limit p
          then p\<lparr>bp_buffers := bp_buffers p @ [x\<lparr>bf_data := []\<rparr>]\<rparr> else p)"

definition parallel_read_buffer_size :: int where
  "parallel_read_buffer_size = 32768"

text \<open>The doubling loop of \<open>growReadBuffer\<close>; it would not end on a capacity of zero.\<close>

partial_function (option) grow_loop :: "int \<Rightarrow> int \<Rightarrow> int \<Rightarrow> int option" where
  [code]: "grow_loop nxt needed target =
     (if nxt < needed then (if nxt > target div 2 then Some target else grow_loop (nxt * 2) needed target)
      else Some nxt)"

definition grow_read_buffer :: "buffer option \<Rightarrow> int \<Rightarrow> int \<Rightarrow> buffer option" where
  "grow_read_buffer b additional target =
     (if buf_cap b - buf_len b \<ge> additional then b
      else
        Some \<lparr>bf_data = buf_data b,
              bf_cap = the (grow_loop (min (max (buf_cap b) parallel_read_buffer_size) target)
                             (buf_len b + additional) target)\<rparr>)"

section \<open>Exact reads\<close>

text \<open>
  \<open>io.ReadFull\<close> on a response body: the short reads of the body are one answer of the
  environment; fewer bytes without an error stand for the end of the body.
\<close>

definition read_full :: "env \<Rightarrow> nat \<Rightarrow> nat \<Rightarrow> history \<Rightarrow> (byte list \<times> goerr option) \<times> history" where
  "read_full E b n h =
     (case body_read E b n h of
        ((d, e), h1) \<Rightarrow>
          if length d \<ge> n then ((d, None), h1)
          else
            (let x = (case e of Some y \<Rightarrow> y | None \<Rightarrow> eof) in
             ((d, Some (if d \<noteq> [] \<and> x = eof then Internal IoUnexpectedEOF else x)), h1)))"

definition append_step :: "buffer option \<Rightarrow> int \<Rightarrow> int" where
  "append_step b target = min (target - buf_len b) parallel_read_buffer_size"

definition buf_append :: "buffer option \<Rightarrow> byte list \<Rightarrow> buffer option" where
  "buf_append b d = map_option (\<lambda>x. x\<lparr>bf_data := bf_data x @ d\<rparr>) b"

lemma grown_append:
  assumes "0 < n"
  shows "buf_data (buf_append (grow_read_buffer b n target) d) = buf_data b @ d"
  using assms by (cases b) (auto simp: grow_read_buffer_def buf_append_def buf_data_def buf_cap_def buf_len_def)

lemma read_full_all: "read_full E b n h = ((d, None), h') \<Longrightarrow> length d = n"
  by (auto simp: read_full_def Let_def dest: body_read_length split: prod.splits if_splits)

text \<open>The loop of \<open>appendExactly\<close>: every read lands behind what is there.\<close>

function append_loop ::
    "env \<Rightarrow> nat \<Rightarrow> int \<Rightarrow> buffer option \<Rightarrow> history \<Rightarrow> (buffer option \<times> goerr option) \<times> history" where
  "append_loop E b target buf h =
     (if buf_len buf < target then
        (case read_full E b (nat (append_step buf target)) h of
           ((d, e), h1) \<Rightarrow>
             let buf1 = buf_append (grow_read_buffer buf (append_step buf target) target) d in
             (case e of
                Some x \<Rightarrow> ((buf1, Some x), h1)
              | None \<Rightarrow> append_loop E b target buf1 h1))
      else ((buf, None), h))"
  by pat_completeness auto

termination
proof (relation "measure (\<lambda>(E, b, target, buf, h). nat (target - buf_len buf))", goal_cases)
  case (2 E b target buf h x h1 d e buf1)
  have n: "0 < append_step buf target"
    using 2(1) by (simp add: append_step_def parallel_read_buffer_size_def)
  have "length d = nat (append_step buf target)" using read_full_all 2 by metis
  then have "buf_len buf1 = buf_len buf + append_step buf target"
    using 2 n by (simp add: buf_len_def grown_append)
  with 2(1) n show ?case by simp
qed simp

declare append_loop.simps [simp del]

definition append_exactly ::
    "env \<Rightarrow> buffer option \<Rightarrow> nat \<Rightarrow> int \<Rightarrow> history \<Rightarrow> (buffer option \<times> goerr option) \<times> history" where
  "append_exactly E buf b want h =
     (if want < 0 \<or> want > max_int64 - buf_len buf then
        ((buf, Some (Text (''range length '' @ fmt_d want @ '' exceeds addressable memory''))), h)
      else append_loop E b (buf_len buf + want) buf h)"

definition read_chunk_into ::
    "env \<Rightarrow> nat \<Rightarrow> int \<Rightarrow> buffer_pool \<Rightarrow> history
      \<Rightarrow> (goerr + buffer option) \<times> buffer_pool \<times> history" where
  "read_chunk_into E b want pool h =
     (case pool_take pool of
        (buf, pool1) \<Rightarrow>
          (case append_exactly E buf b want h of
             ((buf1, Some e), h1) \<Rightarrow> (Inl e, pool_put buf1 pool1, h1)
           | ((buf1, None), h1) \<Rightarrow> (Inr buf1, pool1, h1)))"

section \<open>One ranged request\<close>

definition range_request ::
    "env \<Rightarrow> client \<Rightarrow> url \<Rightarrow> string \<Rightarrow> history \<Rightarrow> (goerr + response) \<times> history" where
  "range_request E c target hdr h =
     (case new_request ''GET'' target of
        Inl e \<Rightarrow> (Inl (wrapf ''building ranged request'' e), h)
      | Inr req \<Rightarrow>
        (case do_registry_request E (cl_write_redirects c) no_body
                (req\<lparr>rq_header := header_set ''Range'' hdr (rq_header req)\<rparr>) () h of
           (Inl e, _, h1) \<Rightarrow>
             (case ctx_err E h1 of (Some ce, h2) \<Rightarrow> (Inl ce, h2) | (None, h2) \<Rightarrow> (Inl e, h2))
         | (Inr resp, _, h1) \<Rightarrow> (Inr resp, h1)))"

text \<open>A body is tracked unless the puller was closed before; closing it again has no effect.\<close>

definition track_body :: "env \<Rightarrow> nat \<Rightarrow> history \<Rightarrow> bool \<times> history" where
  "track_body E b h =
     (if en_interrupt E h then (False, body_close b (EvInterrupt # h)) else (True, h))"

definition untrack_and_close :: "nat \<Rightarrow> history \<Rightarrow> history" where
  "untrack_and_close b h = (if EvClose b \<in> set h then h else body_close b h)"

record range_part_result =
  rp_data :: "buffer option"
  rp_next :: int
  rp_err :: "goerr option"
  rp_retryable :: bool
  rp_after :: int

definition part_failed :: "buffer option \<Rightarrow> goerr \<Rightarrow> bool \<Rightarrow> int \<Rightarrow> range_part_result" where
  "part_failed buf e again after =
     \<lparr>rp_data = buf, rp_next = 0, rp_err = Some e, rp_retryable = again, rp_after = after\<rparr>"

definition unexpected_range_part ::
    "env \<Rightarrow> response \<Rightarrow> string \<Rightarrow> buffer option \<Rightarrow> history \<Rightarrow> range_part_result \<times> history" where
  "unexpected_range_part E resp hdr buf h =
     (if 200 \<le> rs_status resp \<and> rs_status resp < 300 then
        (part_failed buf (Text (''fetching chunk '' @ hdr
            @ '': registry stopped honoring range requests (status '' @ fmt_d (rs_status resp) @ '')''))
           False 0, drain_and_close (rs_body resp) h)
      else
        (case now E h of
           (t, h1) \<Rightarrow>
             (case interpret_error E resp h1 of
                (e, h2) \<Rightarrow>
                  (part_failed buf (wrapf (''fetching chunk '' @ hdr) e) (retryable_status (rs_status resp))
                     (retry_after_delay E (header_get (rs_header resp) ''Retry-After'') t),
                   body_close (rs_body resp) h2))))"

definition range_part_answer ::
    "env \<Rightarrow> response \<Rightarrow> string \<Rightarrow> int \<Rightarrow> int \<Rightarrow> int \<Rightarrow> buffer option \<Rightarrow> history
      \<Rightarrow> range_part_result \<times> history" where
  "range_part_answer E resp hdr start final whole buf h =
     (if rs_status resp \<noteq> 206 then unexpected_range_part E resp hdr buf h
      else
        (case parse_content_range (header_get (rs_header resp) ''Content-Range'') of
           None \<Rightarrow>
             (part_failed buf (Text (''fetching chunk '' @ hdr @ '': registry returned invalid Content-Range ''
                @ header_get (rs_header resp) ''Content-Range'')) False 0, drain_and_close (rs_body resp) h)
         | Some cr \<Rightarrow>
             if cr_start cr \<noteq> start \<or> cr_end cr > final \<or> cr_total cr \<noteq> whole then
               (part_failed buf (Text (''fetching chunk '' @ hdr @ '': registry returned invalid Content-Range ''
                  @ header_get (rs_header resp) ''Content-Range'')) False 0, drain_and_close (rs_body resp) h)
             else
               (case append_exactly E buf (rs_body resp) (cr_end cr - cr_start cr + 1) h of
                  ((buf1, Some e), h1) \<Rightarrow>
                    (part_failed (buf_take (length (buf_data buf)) buf1) (wrapf (''reading chunk '' @ hdr) e)
                       True 0, h1)
                | ((buf1, None), h1) \<Rightarrow>
                    (\<lparr>rp_data = buf1, rp_next = cr_end cr + 1, rp_err = None, rp_retryable = False,
                      rp_after = 0\<rparr>, h1))))"

definition fetch_range_part_once ::
    "env \<Rightarrow> client \<Rightarrow> url \<Rightarrow> string \<Rightarrow> int \<Rightarrow> int \<Rightarrow> int \<Rightarrow> buffer option \<Rightarrow> history
      \<Rightarrow> range_part_result \<times> history" where
  "fetch_range_part_once E c target hdr start final whole buf h =
     (case range_request E c target hdr h of
        (Inl e, h1) \<Rightarrow>
          (case ctx_err E h1 of
             (ce, h2) \<Rightarrow>
               let e' = (case ce of Some x \<Rightarrow> x | None \<Rightarrow> e) in
               (case ctx_err E h2 of
                  (ce2, h3) \<Rightarrow>
                    (part_failed buf (wrapf (''fetching chunk '' @ hdr) e')
                       (ce2 = None \<and> retryable_request_error e') 0, h3)))
      | (Inr resp, h1) \<Rightarrow>
          (case track_body E (rs_body resp) h1 of
             (False, h2) \<Rightarrow> (part_failed buf (Internal ErrParallelPullClosed) False 0, h2)
           | (True, h2) \<Rightarrow>
               (case range_part_answer E resp hdr start final whole buf h2 of
                  (r, h3) \<Rightarrow> (r, untrack_and_close (rs_body resp) h3))))"

section \<open>A part with its retries\<close>

type_synonym part_outcome = "(goerr + int) \<times> buffer option \<times> history"

definition part_turn ::
    "env \<Rightarrow> client \<Rightarrow> url \<Rightarrow> int \<Rightarrow> int \<Rightarrow> int \<Rightarrow> nat \<Rightarrow> nat \<Rightarrow> buffer option \<times> history
      \<Rightarrow> part_outcome + (buffer option \<times> history)" where
  "part_turn E c target start final whole tries k s =
     (case s of (buf, h) \<Rightarrow>
     (case fetch_range_part_once E c target (range_header start final) start final whole buf h of
        (r, h1) \<Rightarrow>
          (case rp_err r of
             None \<Rightarrow> Inl (Inr (rp_next r), rp_data r, h1)
           | Some e \<Rightarrow>
               (case ctx_err E h1 of
                  (Some ce, h2) \<Rightarrow> Inl (Inl ce, rp_data r, h2)
                | (None, h2) \<Rightarrow>
                    if \<not> rp_retryable r \<or> k = tries then Inl (Inl e, rp_data r, h2)
                    else
                      (case retry_wait E c k (rp_after r) h2 of
                         (Some we, h3) \<Rightarrow> Inl (Inl we, rp_data r, h3)
                       | (None, h3) \<Rightarrow> Inr (rp_data r, h3))))))"

definition fetch_range_part ::
    "env \<Rightarrow> client \<Rightarrow> url \<Rightarrow> int \<Rightarrow> int \<Rightarrow> int \<Rightarrow> nat \<Rightarrow> buffer option \<Rightarrow> history \<Rightarrow> part_outcome" where
  "fetch_range_part E c target start final whole tries buf h =
     the (attempt_loop (part_turn E c target start final whole tries) tries 1 (buf, h))"

section \<open>A chunk\<close>

text \<open>\<open>left\<close> counts the portions that may still come, from \<open>maxRangeParts\<close> down.\<close>

fun chunk_loop ::
    "env \<Rightarrow> client \<Rightarrow> url \<Rightarrow> int \<Rightarrow> int \<Rightarrow> int \<Rightarrow> nat \<Rightarrow> nat \<Rightarrow> int \<Rightarrow> buffer option \<Rightarrow> history
      \<Rightarrow> goerr option \<times> buffer option \<times> history" where
  "chunk_loop E c target start final whole tries left cursor buf h =
     (if cursor > final then (None, buf, h)
      else
        (case left of
           0 \<Rightarrow>
             (Some (Text (''fetching chunk '' @ range_header start final
                @ '': registry split the range across more than '' @ fmt_d max_range_parts
                @ '' partial responses'')), buf, h)
         | Suc l \<Rightarrow>
             (case fetch_range_part E c target cursor final whole tries buf h of
                (Inl e, buf1, h1) \<Rightarrow> (Some e, buf1, h1)
              | (Inr nxt, buf1, h1) \<Rightarrow> chunk_loop E c target start final whole tries l nxt buf1 h1)))"

declare chunk_loop.simps [simp del]

definition fetch_chunk ::
    "env \<Rightarrow> client \<Rightarrow> url \<Rightarrow> int \<Rightarrow> int \<Rightarrow> int \<Rightarrow> nat \<Rightarrow> buffer_pool \<Rightarrow> history
      \<Rightarrow> (goerr + buffer option) \<times> buffer_pool \<times> history" where
  "fetch_chunk E c target start want whole tries pool h =
     (case pool_take pool of
        (buf, pool1) \<Rightarrow>
          (case chunk_loop E c target start (start + want - 1) whole tries (nat max_range_parts) start buf h of
             (Some e, buf1, h1) \<Rightarrow> (Inl e, pool_put buf1 pool1, h1)
           | (None, buf1, h1) \<Rightarrow> (Inr buf1, pool1, h1)))"

record chunk_task =
  ct_index :: int
  ct_start :: int
  ct_want :: int
  ct_total :: int
  ct_probe :: "nat option"
  ct_probe_attempts :: int

definition fetch_task ::
    "env \<Rightarrow> client \<Rightarrow> url \<Rightarrow> chunk_task \<Rightarrow> buffer_pool \<Rightarrow> history
      \<Rightarrow> (goerr + buffer option) \<times> buffer_pool \<times> history" where
  "fetch_task E c target t pool h =
     (case ct_probe t of
        None \<Rightarrow> fetch_chunk E c target (ct_start t) (ct_want t) (ct_total t) (max_attempts c) pool h
      | Some b \<Rightarrow>
          (case read_chunk_into E b (ct_want t) pool h of
             (Inr buf, pool1, h1) \<Rightarrow> (Inr buf, pool1, untrack_and_close b h1)
           | (Inl e, pool1, h1) \<Rightarrow>
               (case ctx_err E (untrack_and_close b h1) of
                  (Some ce, h2) \<Rightarrow> (Inl ce, pool1, h2)
                | (None, h2) \<Rightarrow>
                    let remaining = attempts (cl_retry c) - ct_probe_attempts t in
                    if remaining \<le> 0 then (Inl (wrapf ''reading probe range'' e), pool1, h2)
                    else fetch_chunk E c target (ct_start t) (ct_want t) (ct_total t) (nat remaining)
                           pool1 h2)))"

section \<open>What is read\<close>

text \<open>
  \<open>carries E B b h d h'\<close>: reading body \<open>b\<close> from \<open>h\<close> to \<open>h'\<close> gave \<open>d\<close>; from a faithful server
  these are the next bytes of the blob.
\<close>

definition carries :: "env \<Rightarrow> byte list \<Rightarrow> nat \<Rightarrow> history \<Rightarrow> byte list \<Rightarrow> history \<Rightarrow> bool" where
  "carries E B b h d h' \<longleftrightarrow>
     settled E {} h h' \<and> sent h' = sent h \<and>
     (serves E B \<and> b < length h \<longrightarrow>
        b < length h' \<and> position E h' b = position E h b + length d \<and>
        d = window (position E h b) (position E h b + length d) B)"

lemma carries_refl: "carries E B b h [] h"
  by (simp add: carries_def window_def)

lemma carries_trans:
  assumes "carries E B b h d1 h1" and "carries E B b h1 d2 h2"
  shows "carries E B b h (d1 @ d2) h2"
proof -
  have "b < length h2 \<and> position E h2 b = position E h b + length (d1 @ d2) \<and>
      d1 @ d2 = window (position E h b) (position E h b + length (d1 @ d2)) B"
    if "serves E B" "b < length h"
  proof -
    from that assms(1) have 1: "b < length h1" "position E h1 b = position E h b + length d1"
      "d1 = window (position E h b) (position E h b + length d1) B" unfolding carries_def by blast+
    from that(1) 1(1) assms(2) have 2: "b < length h2" "position E h2 b = position E h1 b + length d2"
      "d2 = window (position E h1 b) (position E h1 b + length d2) B" unfolding carries_def by blast+
    from window_extend [OF 1(3)] 2(3) 1(2)
    have "d1 @ d2 = window (position E h b) (position E h b + length (d1 @ d2)) B" by metis
    moreover have "position E h2 b = position E h b + length (d1 @ d2)"
      using 1(2) 2(2) by (simp only: length_append)
    ultimately show ?thesis using 2(1) by blast
  qed
  moreover have "settled E {} h h2" "sent h2 = sent h"
    using assms settled_then unfolding carries_def by (blast, metis)
  ultimately show ?thesis unfolding carries_def by blast
qed

lemma read_full_carries:
  assumes "read_full E b n h = ((d, e), h')" shows "carries E B b h d h'"
proof -
  obtain e1 where r: "body_read E b n h = ((d, e1), h')"
    using assms by (auto simp: read_full_def Let_def split: prod.splits if_splits)
  have "sent h' = sent h" using r by (auto simp: body_read_def split: prod.splits)
  with body_read_settled [OF r] body_read_at [OF r] show ?thesis by (auto simp: carries_def)
qed

lemma append_step_pos: "buf_len buf < target \<Longrightarrow> 0 < append_step buf target"
  by (simp add: append_step_def parallel_read_buffer_size_def)

lemma append_loop_carries:
  "append_loop E b target buf h = ((buf', e), h') \<Longrightarrow> buf_len buf \<le> target \<Longrightarrow>
   \<exists>d. buf_data buf' = buf_data buf @ d \<and> carries E B b h d h' \<and> (e = None \<longrightarrow> buf_len buf' = target)"
proof (induction E b target buf h arbitrary: buf' e h' rule: append_loop.induct)
  case (1 E b target buf h)
  show ?case
  proof (cases "buf_len buf < target")
    case False
    with "1.prems" have "buf' = buf \<and> e = None \<and> h' = h"
      by (simp add: append_loop.simps [of E b target buf h])
    with False "1.prems"(2) carries_refl show ?thesis by force
  next
    case True
    let ?s = "append_step buf target"
    obtain d1 e1 h1 where r: "read_full E b (nat ?s) h = ((d1, e1), h1)" by (metis surj_pair)
    let ?buf1 = "buf_append (grow_read_buffer buf ?s target) d1"
    have d1: "buf_data ?buf1 = buf_data buf @ d1" by (rule grown_append [OF append_step_pos [OF True]])
    note c1 = read_full_carries [OF r, of B]
    show ?thesis
    proof (cases e1)
      case (Some x)
      with "1.prems"(1) True r have "buf' = ?buf1 \<and> e = Some x \<and> h' = h1"
        by (simp add: append_loop.simps [of E b target buf h])
      with d1 c1 show ?thesis by auto
    next
      case None
      with "1.prems"(1) True r have run: "append_loop E b target ?buf1 h1 = ((buf', e), h')"
        by (simp add: append_loop.simps [of E b target buf h])
      have "length d1 = nat ?s" using r None read_full_all by metis
      then have "buf_len ?buf1 = buf_len buf + ?s"
        using append_step_pos [OF True] unfolding buf_len_def d1 by simp
      then have "buf_len ?buf1 \<le> target" by (simp add: append_step_def)
      from "1.IH" [OF True r [symmetric] refl refl None run this]
      obtain d2 where "buf_data buf' = buf_data ?buf1 @ d2" "carries E B b h1 d2 h'"
        "e = None \<longrightarrow> buf_len buf' = target" by blast
      with d1 carries_trans [OF c1] show ?thesis by (intro exI [of _ "d1 @ d2"]) simp
    qed
  qed
qed

lemma append_exactly_carries:
  assumes "append_exactly E buf b want h = ((buf', e), h')"
  obtains d where "buf_data buf' = buf_data buf @ d" "carries E B b h d h'" "e = None \<Longrightarrow> int (length d) = want"
proof (cases "want < 0 \<or> want > max_int64 - buf_len buf")
  case True
  with assms that [of "[]"] carries_refl show ?thesis by (auto simp: append_exactly_def)
next
  case False
  with assms have run: "append_loop E b (buf_len buf + want) buf h = ((buf', e), h')"
    by (simp add: append_exactly_def)
  from append_loop_carries [OF run, of B] False obtain d where
    d: "buf_data buf' = buf_data buf @ d" "carries E B b h d h'" "e = None \<longrightarrow> buf_len buf' = buf_len buf + want"
    by auto
  with that [of d] show ?thesis by (auto simp: buf_len_def)
qed

section \<open>One part\<close>

lemma settled_untrack: "settled E {b} h h1 \<Longrightarrow> settled E {} h (untrack_and_close b h1)"
  using settled_consumed(1) [of E b h h1] by (cases "EvClose b \<in> set h1") (auto simp: untrack_and_close_def settled_def)

lemma range_request_runs:
  assumes "range_request E c target hdr h = (out, h')"
  shows "settled E (kept out) h h' \<and> length (sent h') \<le> length (sent h) + 10 \<and>
    (case out of Inl e \<Rightarrow> True
     | Inr resp \<Rightarrow> fresh E resp h' \<and> length (sent h) < length (sent h'))"
proof (cases "new_request ''GET'' target")
  case (Inl e)
  with assms show ?thesis by (auto simp: range_request_def)
next
  case (Inr req)
  obtain out1 h1 where run: "do_registry_request E (cl_write_redirects c) no_body
      (req\<lparr>rq_header := header_set ''Range'' hdr (rq_header req)\<rparr>) () h = (out1, (), h1)"
    by (metis (full_types) prod_cases3 old.unit.exhaust)
  show ?thesis
    using assms Inr run settled_registry_request [OF settling_no_body run] registry_request_sent [OF run]
      registry_request_fresh [OF run]
    by (cases out1) (auto simp: range_request_def ctx_err_def intro: settled_event split: option.splits)
qed


text \<open>\<open>part_run\<close>: what one attempt or all attempts of a part do to the buffer.\<close>

definition part_data ::
    "env \<Rightarrow> byte list \<Rightarrow> int \<Rightarrow> int \<Rightarrow> buffer option \<Rightarrow> goerr + int \<Rightarrow> buffer option \<Rightarrow> bool" where
  "part_data E B start final buf out buf' \<longleftrightarrow>
     (case out of
        Inl e \<Rightarrow> buf_data buf' = buf_data buf
      | Inr nxt \<Rightarrow>
          start < nxt \<and> nxt \<le> final + 1 \<and>
          (\<exists>d. buf_data buf' = buf_data buf @ d \<and> int (length d) = nxt - start \<and>
             (serves E B \<and> 0 \<le> start \<longrightarrow> d = window (nat start) (nat nxt) B)))"

definition part_out :: "range_part_result \<Rightarrow> goerr + int" where
  "part_out r = (case rp_err r of Some e \<Rightarrow> Inl e | None \<Rightarrow> Inr (rp_next r))"

lemma part_failed_out [simp]:
  "part_out (part_failed buf e again after) = Inl e" "rp_data (part_failed buf e again after) = buf"
  by (simp_all add: part_out_def part_failed_def)

lemma unexpected_part_runs:
  assumes "unexpected_range_part E resp hdr buf h = (r, h')" and "settled E {rs_body resp} h0 h"
  shows "settled E {} h0 h' \<and> sent h' = sent h \<and> part_data E B start final buf (part_out r) (rp_data r)"
proof -
  obtain t e h2 where n: "now E h = (t, EvNow # h)" and i: "interpret_error E resp (EvNow # h) = (e, h2)"
    by (metis surj_pair now_def)
  have "settled E {rs_body resp} h0 (EvNow # h)" using assms(2) by (auto intro: settled_event)
  from settled_rejected [OF this i] settled_consumed(3) [OF assms(2)] assms(1) n i show ?thesis
    by (auto simp: unexpected_range_part_def part_data_def interpret_error_def now_def body_drain_def
        drain_and_close_def body_close_def split: if_splits)
qed

lemma part_answer_runs:
  assumes "range_part_answer E resp hdr start final whole buf h = (r, h')" and "fresh E resp h"
    and "settled E {rs_body resp} h0 h"
  shows "settled E {} h0 (untrack_and_close (rs_body resp) h') \<and> sent h' = sent h \<and>
    part_data E B start final buf (part_out r) (rp_data r)"
proof -
  let ?b = "rs_body resp"
  have drained: "settled E {} h0 (untrack_and_close ?b (drain_and_close ?b h))"
    using settled_consumed(3) [OF assms(3)] by (simp add: untrack_and_close_def drain_and_close_def body_close_def)
  have weak: "settled E {} h0 g \<Longrightarrow> settled E {} h0 (untrack_and_close ?b g)" for g
    using settled_untrack settled_mono by blast
  show ?thesis
  proof (cases "rs_status resp = 206")
    case False
    with assms(1) have "unexpected_range_part E resp hdr buf h = (r, h')" by (simp add: range_part_answer_def)
    from unexpected_part_runs [OF this assms(3)] weak show ?thesis by blast
  next
    case True
    show ?thesis
    proof (cases "parse_content_range (header_get (rs_header resp) ''Content-Range'')")
      case None
      with assms(1) True drained show ?thesis
        by (auto simp: range_part_answer_def part_data_def drain_and_close_def body_close_def body_drain_def)
    next
      case (Some cr)
      show ?thesis
      proof (cases "cr_start cr \<noteq> start \<or> cr_end cr > final \<or> cr_total cr \<noteq> whole")
        case bad: True
        with assms(1) True Some drained show ?thesis
          by (auto simp: range_part_answer_def part_data_def drain_and_close_def body_close_def body_drain_def)
      next
        case False
        let ?n = "cr_end cr - cr_start cr + 1"
        obtain buf1 e h1 where ap: "append_exactly E buf ?b ?n h = ((buf1, e), h1)" by (metis surj_pair)
        obtain d where d: "buf_data buf1 = buf_data buf @ d" "carries E B ?b h d h1" "e = None \<Longrightarrow> int (length d) = ?n"
          using append_exactly_carries [OF ap] by blast
        have pos: "?b < length h" "position E h ?b = nat start"
          using assms(2) True Some False by (auto simp: fresh_def answer_base_def)
        have "settled E {?b} h0 h1"
          using settled_trans [OF assms(3), of "{?b}" h1] d(2) settled_mono [of E "{}" h h1 "{?b}"]
          by (auto simp: carries_def)
        note s = settled_untrack [OF this]
        show ?thesis
        proof (cases e)
          case (Some x)
          have "buf_data (buf_take (length (buf_data buf)) buf1) = buf_data buf"
            using d(1) by (cases buf1) (auto simp: buf_take_def buf_data_def)
          with assms(1) True \<open>parse_content_range _ = Some cr\<close> False ap Some s d(2) show ?thesis
            by (auto simp: range_part_answer_def part_data_def carries_def)
        next
          case None
          have r: "r = \<lparr>rp_data = buf1, rp_next = cr_end cr + 1, rp_err = None, rp_retryable = False, rp_after = 0\<rparr>"
            and h': "h' = h1" using assms(1) True Some False ap None by (auto simp: range_part_answer_def)
          have b: "cr_start cr \<le> cr_end cr" using parse_content_range_bounds [OF Some] by simp
          have "d = window (nat start) (nat (cr_end cr + 1)) B" if "serves E B" "0 \<le> start"
          proof -
            from d(2) that pos have w: "d = window (nat start) (nat start + length d) B"
              unfolding carries_def by metis
            have "nat start + length d = nat (cr_end cr + 1)" using d(3) [OF None] that False b by simp
            with w show ?thesis by simp
          qed
          with s d False b None show ?thesis by (auto simp: r h' part_data_def part_out_def carries_def)
        qed
      qed
    qed
  qed
qed


lemma part_once_runs:
  assumes "fetch_range_part_once E c target hdr start final whole buf h = (r, h')"
  shows "settled E {} h h' \<and> length (sent h') \<le> length (sent h) + 10 \<and>
    part_data E B start final buf (part_out r) (rp_data r)"
proof -
  obtain out h1 where rq: "range_request E c target hdr h = (out, h1)" by (metis surj_pair)
  note run = range_request_runs [OF rq]
  show ?thesis
  proof (cases out)
    case (Inl e)
    obtain ce h2 ce2 h3 where c: "ctx_err E h1 = (ce, h2)" "ctx_err E h2 = (ce2, h3)" by (metis surj_pair)
    then have h3: "h3 = EvCtx # EvCtx # h1" by (simp add: ctx_err_def)
    have "settled E {} h h3" using run Inl by (auto simp: h3 intro!: settled_event)
    with assms rq Inl c run show ?thesis
      by (auto simp: fetch_range_part_once_def part_data_def Let_def h3)
  next
    case (Inr resp)
    let ?b = "rs_body resp"
    from run Inr have s: "settled E {?b} h h1" and f: "fresh E resp h1" by simp_all
    show ?thesis
    proof (cases "en_interrupt E h1")
      case True
      then have t: "track_body E ?b h1 = (False, body_close ?b (EvInterrupt # h1))" by (simp add: track_body_def)
      have "settled E {?b} h (EvInterrupt # h1)" using s by (auto intro: settled_event)
      from settled_consumed(1) [OF this] assms rq Inr t run show ?thesis
        by (auto simp: fetch_range_part_once_def part_data_def body_close_def)
    next
      case False
      then have t: "track_body E ?b h1 = (True, h1)" by (simp add: track_body_def)
      obtain r2 h2 where a: "range_part_answer E resp hdr start final whole buf h1 = (r2, h2)" by (metis surj_pair)
      have "sent (untrack_and_close ?b h2) = sent h2" by (simp add: untrack_and_close_def body_close_def)
      with part_answer_runs [OF a f s, of B] assms rq Inr t a run show ?thesis
        by (auto simp: fetch_range_part_once_def)
    qed
  qed
qed


section \<open>The retries of a part\<close>

lemma part_turn_cases:
  assumes "part_turn E c target start final whole tries k (buf, h) = res"
  obtains r h1 where "fetch_range_part_once E c target (range_header start final) start final whole buf h = (r, h1)"
    "case res of
       Inl (out, buf', h') \<Rightarrow> settled E {} h1 h' \<and> sent h' = sent h1 \<and> buf' = rp_data r \<and>
         (out = part_out r \<or> (\<exists>e x. out = Inl x \<and> part_out r = Inl e))
     | Inr (buf', h') \<Rightarrow> settled E {} h1 h' \<and> sent h' = sent h1 \<and> buf' = rp_data r \<and> k \<noteq> tries \<and>
         (\<exists>e. part_out r = Inl e)"
proof -
  obtain r h1 where o: "fetch_range_part_once E c target (range_header start final) start final whole buf h = (r, h1)"
    by (metis surj_pair)
  obtain ce h2 where c: "ctx_err E h1 = (ce, h2)" by (metis surj_pair)
  obtain we h3 where w: "retry_wait E c k (rp_after r) h2 = (we, h3)" by (metis surj_pair)
  have s2: "settled E {} h1 h2" "sent h2 = sent h1" using settled_ctx [OF c] sent_ctx [OF c] by simp_all
  have s3: "settled E {} h1 h3" "sent h3 = sent h1"
    using settled_wait [OF s2(1) w] retry_wait_sent [OF w] s2(2) by simp_all
  show ?thesis
  proof (rule that [OF o])
    show "case res of
       Inl (out, buf', h') \<Rightarrow> settled E {} h1 h' \<and> sent h' = sent h1 \<and> buf' = rp_data r \<and>
         (out = part_out r \<or> (\<exists>e x. out = Inl x \<and> part_out r = Inl e))
     | Inr (buf', h') \<Rightarrow> settled E {} h1 h' \<and> sent h' = sent h1 \<and> buf' = rp_data r \<and> k \<noteq> tries \<and>
         (\<exists>e. part_out r = Inl e)"
      unfolding assms [symmetric] part_turn_def prod.case o c w
      using s2 s3 by (cases "rp_err r"; cases ce; cases we) (auto simp: part_out_def)
  qed
qed


interpretation part_loop: settling_attempts
  "part_turn E c target start final whole (Suc n)" "Suc n" E snd "\<lambda>q. snd (snd q)" "\<lambda>q. {}" 10
  for E :: env and c :: client and target :: url and start final whole :: int and n :: nat
proof unfold_locales
  fix s s' :: "buffer option \<times> history" and k and q :: part_outcome
  let ?turn = "part_turn E c target start final whole (Suc n)"
  obtain b h b' h' out b2 h2 where s: "s = (b, h)" and s': "s' = (b', h')" and q: "q = (out, b2, h2)"
    by (metis prod_cases3 surj_pair)
  show "?turn (Suc n) s \<noteq> Inr s'"
    using part_turn_cases [of E c target start final whole "Suc n" "Suc n" b h "Inr s'"] by (auto simp: s s')
  show "0 < Suc n" by simp
  {
    assume "?turn k s = Inr s'"
    then have "part_turn E c target start final whole (Suc n) k (b, h) = Inr s'" by (simp add: s)
    then obtain r h1 where o: "fetch_range_part_once E c target (range_header start final) start final whole b h = (r, h1)"
      and r: "settled E {} h1 h'" "sent h' = sent h1" by (rule part_turn_cases) (auto simp: s')
    from part_once_runs [OF o] have f: "settled E {} h h1" "length (sent h1) \<le> length (sent h) + 10" by blast+
    show "settled E {} (snd s) (snd s')" and "length (sent (snd s')) \<le> length (sent (snd s)) + 10"
      using settled_then [OF f(1) r(1)] f(2) r(2) by (simp_all add: s s')
  }
  assume "?turn k s = Inl q"
  then have "part_turn E c target start final whole (Suc n) k (b, h) = Inl q" by (simp add: s)
  then obtain r h1 where o: "fetch_range_part_once E c target (range_header start final) start final whole b h = (r, h1)"
    and r: "settled E {} h1 h2" "sent h2 = sent h1" by (rule part_turn_cases) (auto simp: q)
  from part_once_runs [OF o] have f: "settled E {} h h1" "length (sent h1) \<le> length (sent h) + 10" by blast+
  show "settled E {} (snd s) (snd (snd q))" and "length (sent (snd (snd q))) \<le> length (sent (snd s)) + 10"
    using settled_then [OF f(1) r(1)] f(2) r(2) by (simp_all add: s q)
qed

lemma part_data_turn:
  assumes "part_turn E c target start final whole tries k (buf, h) = res"
  shows "case res of
      Inl (out, buf', h') \<Rightarrow> part_data E B start final buf out buf'
    | Inr (buf', h') \<Rightarrow> buf_data buf' = buf_data buf"
proof -
  from assms obtain r h1 where o: "fetch_range_part_once E c target (range_header start final) start final whole buf h = (r, h1)"
    and res: "case res of
       Inl (out, buf', h') \<Rightarrow> settled E {} h1 h' \<and> sent h' = sent h1 \<and> buf' = rp_data r \<and>
         (out = part_out r \<or> (\<exists>e x. out = Inl x \<and> part_out r = Inl e))
     | Inr (buf', h') \<Rightarrow> settled E {} h1 h' \<and> sent h' = sent h1 \<and> buf' = rp_data r \<and> k \<noteq> tries \<and>
         (\<exists>e. part_out r = Inl e)" by (rule part_turn_cases)
  have "part_data E B start final buf (part_out r) (rp_data r)" using part_once_runs [OF o] by blast
  with res show ?thesis by (auto simp: part_data_def split: sum.splits prod.splits)
qed

lemma part_data_cong: "buf_data b = buf_data buf \<Longrightarrow> part_data E B start final b = part_data E B start final buf"
  by (simp add: part_data_def fun_eq_iff split: sum.split)

lemma fetch_part_runs:
  assumes "fetch_range_part E c target start final whole (Suc n) buf h = (out, buf', h')"
  shows "settled E {} h h' \<and> length (sent h') \<le> length (sent h) + 10 * Suc n \<and>
    part_data E B start final buf out buf'"
proof -
  have run: "attempt_loop (part_turn E c target start final whole (Suc n)) (Suc n) 1 (buf, h) = Some (out, buf', h')"
    using part_loop.loop_total [of E c target start final whole n "(buf, h)"] assms
    by (auto simp: fetch_range_part_def)
  have "case (out, buf', h') of (out, buf', h') \<Rightarrow> part_data E B start final buf out buf'"
  proof (rule part_loop.loop_rule [OF run, where P = "\<lambda>k s. buf_data (fst s) = buf_data buf"
        and Q = "\<lambda>q. case q of (out, buf', h') \<Rightarrow> part_data E B start final buf out buf'"])
    fix j and t t' :: "buffer option \<times> history" and q :: part_outcome
    obtain b g where t: "t = (b, g)" by (metis surj_pair)
    assume eq: "buf_data (fst t) = buf_data buf"
    show "part_turn E c target start final whole (Suc n) j t = Inr t' \<Longrightarrow> buf_data (fst t') = buf_data buf"
      using part_data_turn [of E c target start final whole "Suc n" j b g "Inr t'"] eq
      by (auto simp: t split: prod.splits)
    show "part_turn E c target start final whole (Suc n) j t = Inl q \<Longrightarrow>
        case q of (out, buf', h') \<Rightarrow> part_data E B start final buf out buf'"
      using part_data_turn [of E c target start final whole "Suc n" j b g "Inl q" B] eq part_data_cong [of b buf]
      by (auto simp: t split: prod.splits)
  qed simp
  with part_loop.loop_settled [OF run] part_loop.loop_price [OF run] show ?thesis by (simp add: ac_simps)
qed

section \<open>A chunk\<close>

definition chunk_data ::
    "env \<Rightarrow> byte list \<Rightarrow> int \<Rightarrow> int \<Rightarrow> buffer option \<Rightarrow> buffer option \<Rightarrow> bool" where
  "chunk_data E B cursor final buf buf' \<longleftrightarrow>
     (\<exists>d. buf_data buf' = buf_data buf @ d \<and> int (length d) = final + 1 - cursor \<and>
        (serves E B \<longrightarrow> d = window (nat cursor) (nat (final + 1)) B))"

lemma chunk_loop_runs:
  "chunk_loop E c target start final whole (Suc n) left cursor buf h = (e, buf', h') \<Longrightarrow>
   0 \<le> cursor \<Longrightarrow> cursor \<le> final + 1 \<Longrightarrow>
   settled E {} h h' \<and> length (sent h') \<le> length (sent h) + left * (10 * Suc n) \<and>
   (e = None \<longrightarrow> chunk_data E B cursor final buf buf')"
proof (induction left arbitrary: cursor buf h)
  case 0
  then have "e = None \<longrightarrow> cursor = final + 1 \<and> buf' = buf" and "h' = h"
    by (auto simp: chunk_loop.simps split: if_splits)
  then show ?case by (auto simp: chunk_data_def)
next
  case (Suc left)
  show ?case
  proof (cases "cursor > final")
    case True
    with Suc.prems have "e = None \<and> cursor = final + 1 \<and> buf' = buf \<and> h' = h"
      by (simp add: chunk_loop.simps)
    then show ?thesis by (auto simp: chunk_data_def)
  next
    case False
    obtain out buf1 h1 where p: "fetch_range_part E c target cursor final whole (Suc n) buf h = (out, buf1, h1)"
      by (metis prod_cases3)
    note part = fetch_part_runs [OF p, of B]
    show ?thesis
    proof (cases out)
      case (Inl x)
      with Suc.prems(1) False p have "e = Some x \<and> h' = h1" by (simp add: chunk_loop.simps [of _ _ _ _ _ _ _ "Suc left"])
      with part show ?thesis by auto
    next
      case (Inr nxt)
      with Suc.prems(1) False p
      have run: "chunk_loop E c target start final whole (Suc n) left nxt buf1 h1 = (e, buf', h')"
        by (simp add: chunk_loop.simps [of _ _ _ _ _ _ _ "Suc left"])
      from part Inr obtain d where n: "cursor < nxt" "nxt \<le> final + 1"
        and d: "buf_data buf1 = buf_data buf @ d" "int (length d) = nxt - cursor"
        and w: "serves E B \<longrightarrow> d = window (nat cursor) (nat nxt) B"
        using Suc.prems(2) by (auto simp: part_data_def)
      have rest: "settled E {} h1 h' \<and> length (sent h') \<le> length (sent h1) + left * (10 * Suc n) \<and>
          (e = None \<longrightarrow> chunk_data E B nxt final buf1 buf')"
        by (rule Suc.IH [OF run]) (use n Suc.prems(2) in simp_all)
      have "chunk_data E B cursor final buf buf'" if tail: "chunk_data E B nxt final buf1 buf'"
      proof -
        from tail obtain d2 where d2: "buf_data buf' = buf_data buf1 @ d2" "int (length d2) = final + 1 - nxt"
          "serves E B \<longrightarrow> d2 = window (nat nxt) (nat (final + 1)) B" by (auto simp: chunk_data_def)
        have "window (nat cursor) (nat nxt) B @ window (nat nxt) (nat (final + 1)) B
            = window (nat cursor) (nat (final + 1)) B" by (rule window_join) (use n Suc.prems(2) in auto)
        with d d2 w show ?thesis by (auto simp: chunk_data_def intro!: exI [of _ "d @ d2"])
      qed
      with part rest settled_then show ?thesis by auto
    qed
  qed
qed


lemma pool_take_empty: "pool_take pool = (buf, pool') \<Longrightarrow> buf_data buf = []"
  by (auto simp: pool_take_def buf_data_def split: list.splits)

lemma fetch_chunk_runs:
  assumes "fetch_chunk E c target start want whole (Suc n) pool h = (out, pool', h')"
    and "0 \<le> start" and "0 \<le> want"
  shows "settled E {} h h' \<and> length (sent h') \<le> length (sent h) + 160 * Suc n \<and>
    (case out of Inl e \<Rightarrow> True
     | Inr buf \<Rightarrow> int (length (buf_data buf)) = want \<and>
         (serves E B \<longrightarrow> buf_data buf = window (nat start) (nat (start + want)) B))"
proof -
  obtain buf pool1 where t: "pool_take pool = (buf, pool1)" by (metis surj_pair)
  obtain e buf1 h1 where l: "chunk_loop E c target start (start + want - 1) whole (Suc n)
      (nat max_range_parts) start buf h = (e, buf1, h1)" by (metis prod_cases3)
  have b: "0 \<le> start" "start \<le> (start + want - 1) + 1" using assms(2,3) by simp_all
  note loop = chunk_loop_runs [OF l b, of B]
  have "nat max_range_parts * (10 * Suc n) = 160 * Suc n" by (simp add: max_range_parts_def)
  with loop have s: "settled E {} h h1" "length (sent h1) \<le> length (sent h) + 160 * Suc n" by simp_all
  show ?thesis
  proof (cases e)
    case (Some x)
    with assms(1) t l have "out = Inl x \<and> h' = h1" by (simp add: fetch_chunk_def)
    with s show ?thesis by simp
  next
    case None
    with assms(1) t l have "out = Inr buf1 \<and> h' = h1" by (simp add: fetch_chunk_def)
    moreover from loop None have "chunk_data E B start (start + want - 1) buf buf1" by blast
    ultimately show ?thesis using s pool_take_empty [OF t] by (auto simp: chunk_data_def)
  qed
qed

lemma read_chunk_runs:
  assumes "read_chunk_into E b want pool h = (out, pool', h')"
  shows "settled E {} h h' \<and> sent h' = sent h \<and>
    (case out of Inl e \<Rightarrow> True
     | Inr buf \<Rightarrow> int (length (buf_data buf)) = want \<and>
         (serves E B \<and> b < length h \<longrightarrow>
            buf_data buf = window (position E h b) (position E h b + nat want) B))"
proof -
  obtain buf pool1 where t: "pool_take pool = (buf, pool1)" by (metis surj_pair)
  obtain buf1 e h1 where a: "append_exactly E buf b want h = ((buf1, e), h1)" by (metis surj_pair)
  obtain d where d: "buf_data buf1 = buf_data buf @ d" "carries E B b h d h1" "e = None \<Longrightarrow> int (length d) = want"
    using append_exactly_carries [OF a] by blast
  from assms t a have h': "h' = h1" and out: "out = (case e of Some x \<Rightarrow> Inl x | None \<Rightarrow> Inr buf1)"
    by (auto simp: read_chunk_into_def split: option.splits)
  from d pool_take_empty [OF t] show ?thesis
    by (auto simp: h' out carries_def split: option.split)
qed

text \<open>The bytes a finished task holds.\<close>

definition task_ok :: "env \<Rightarrow> history \<Rightarrow> chunk_task \<Rightarrow> bool" where
  "task_ok E h t \<longleftrightarrow> 0 \<le> ct_start t \<and> 0 \<le> ct_want t \<and>
     (case ct_probe t of None \<Rightarrow> True
      | Some b \<Rightarrow> b < length h \<and> position E h b = nat (ct_start t))"

definition task_bytes :: "byte list \<Rightarrow> chunk_task \<Rightarrow> byte list" where
  "task_bytes B t = window (nat (ct_start t)) (nat (ct_start t + ct_want t)) B"

lemma fetch_task_runs:
  assumes "fetch_task E c target t pool h = (out, pool', h')" and "task_ok E h t"
  shows "passes E (set_option (ct_probe t)) h {} h' \<and>
    length (sent h') \<le> length (sent h) + 160 * nat (max (attempts (cl_retry c)) (attempts (cl_retry c) - ct_probe_attempts t)) \<and>
    (case out of Inl e \<Rightarrow> True
     | Inr buf \<Rightarrow> int (length (buf_data buf)) = ct_want t \<and> (serves E B \<longrightarrow> buf_data buf = task_bytes B t))"
proof -
  have b: "0 \<le> ct_start t" "0 \<le> ct_want t" using assms(2) by (simp_all add: task_ok_def)
  have "0 < attempts (cl_retry c)" by (simp add: attempts_def)
  then obtain m where m: "max_attempts c = Suc m" "int (Suc m) = attempts (cl_retry c)"
    by (cases "max_attempts c") (auto simp: max_attempts_def)
  show ?thesis
  proof (cases "ct_probe t")
    case None
    with assms(1) have "fetch_chunk E c target (ct_start t) (ct_want t) (ct_total t) (Suc m) pool h = (out, pool', h')"
      by (simp add: fetch_task_def m(1))
    from fetch_chunk_runs [OF this b, of B] m(2) None show ?thesis
      by (auto simp: task_bytes_def passes_def split: sum.splits)
  next
    case (Some p)
    obtain o1 pool1 h1 where r: "read_chunk_into E p (ct_want t) pool h = (o1, pool1, h1)" by (metis prod_cases3)
    note rd = read_chunk_runs [OF r, of B]
    have us: "passes E {p} h {} (untrack_and_close p h1)"
      using settled_untrack [of E p h h1] settled_mono [of E "{}" h h1 "{p}"] rd
      by (simp add: passes_def untrack_and_close_def body_close_def)
    have su: "sent (untrack_and_close p h1) = sent h" using rd by (simp add: untrack_and_close_def body_close_def)
    show ?thesis
    proof (cases o1)
      case (Inr buf)
      with assms(1) Some r have "out = Inr buf \<and> h' = untrack_and_close p h1" by (simp add: fetch_task_def)
      with rd Inr assms(2) Some us su b show ?thesis
        by (auto simp: task_bytes_def task_ok_def nat_add_distrib)
    next
      case (Inl e)
      obtain ce h2 where ct: "ctx_err E (untrack_and_close p h1) = (ce, h2)" by (metis surj_pair)
      have s2: "sent h2 = sent h" "passes E {p} h {} h2"
        using sent_ctx [OF ct] su passes_event [OF _ us] ct by (auto simp: ctx_err_def)
      let ?rem = "attempts (cl_retry c) - ct_probe_attempts t"
      show ?thesis
      proof (cases "ce = None \<and> 0 < ?rem")
        case False
        with assms(1) Some r Inl ct s2 show ?thesis
          by (auto simp: fetch_task_def Let_def split: option.splits)
      next
        case True
        then obtain k where k: "nat ?rem = Suc k" by (cases "nat ?rem") auto
        from assms(1) Some r Inl ct True k
        have "fetch_chunk E c target (ct_start t) (ct_want t) (ct_total t) (Suc k) pool1 h2 = (out, pool', h')"
          by (simp add: fetch_task_def Let_def)
        note f = fetch_chunk_runs [OF this b, of B]
        have "passes E {p} h {} h'" using passes_trans [OF s2(2) passes_settled] f by blast
        with f s2 k Some show ?thesis by (auto simp: task_bytes_def split: sum.splits)
      qed
    qed
  qed
qed


section \<open>Growing a buffer\<close>

text \<open>A capacity of at least one is doubled until it is enough, without passing the target.\<close>

lemma grow_loop_returns:
  "0 < nxt \<Longrightarrow> needed \<le> target \<Longrightarrow> nxt \<le> target \<Longrightarrow>
   \<exists>k. grow_loop nxt needed target = Some k \<and> needed \<le> k \<and> nxt \<le> k \<and> k \<le> target"
proof (induction "nat (target - nxt)" arbitrary: nxt rule: less_induct)
  case less
  show ?case
  proof (cases "nxt < needed \<and> \<not> nxt > target div 2")
    case False
    with less.prems show ?thesis by (subst grow_loop.simps) auto
  next
    case True
    then have "nat (target - nxt * 2) < nat (target - nxt)" "nxt * 2 \<le> target" using less.prems by auto
    from less.hyps [OF this(1) _ less.prems(2) this(2)] less.prems(1) True show ?thesis
      by (subst grow_loop.simps) auto
  qed
qed

text \<open>
  C7. A worker's result is exact: whatever portions a faithful server splits the range into, with
  which failures and repetitions, a task that ends without an error holds exactly the bytes of
  its window, also when it started from the probe's body and had to fetch again; every body
  it received is closed, and it sent at most sixteen portions' worth of attempts.
\<close>

theorem fetch_task_exact:
  assumes "task_ok E h t" and "serves E B"
  shows "case fetch_task E c target t pool h of
    (out, pool', h') \<Rightarrow>
      passes E (set_option (ct_probe t)) h {} h' \<and>
      length (sent h') \<le> length (sent h) + 160 * nat (max (attempts (cl_retry c)) (attempts (cl_retry c) - ct_probe_attempts t)) \<and>
      (case out of Inl e \<Rightarrow> True
       | Inr buf \<Rightarrow> int (length (buf_data buf)) = ct_want t \<and> buf_data buf = task_bytes B t)"
proof -
  obtain out pool' h' where run: "fetch_task E c target t pool h = (out, pool', h')" by (metis prod_cases3)
  from fetch_task_runs [OF run assms(1), of B] assms(2) show ?thesis
    by (auto simp: run split: sum.splits)
qed

text \<open>A server that answers three bytes in two portions.\<close>

definition portion_env :: env where
  "portion_env = one_shot_env
     (\<lambda>s h req.
        if header_get (rq_header req) ''Range'' = ''bytes=2-4'' then
          Reply 206 [(''Content-Range'', ''bytes 2-3/6'')] 2
        else Reply 206 [(''Content-Range'', ''bytes 4-4/6'')] 1)
     [1, 2, 3, 4, 5, 6] 8 eof"

definition portion_task :: chunk_task where
  "portion_task = \<lparr>ct_index = 1, ct_start = 2, ct_want = 3, ct_total = 6, ct_probe = None, ct_probe_attempts = 0\<rparr>"

lemma fetch_task_exact_witness:
  "\<exists>buf. fst (fetch_task portion_env sample_client sample_url portion_task \<lparr>bp_limit = 1, bp_buffers = []\<rparr> [])
      = Inr buf \<and> buf_data buf = [3, 4, 5]"
proof -
  let ?run = "fetch_task portion_env sample_client sample_url portion_task \<lparr>bp_limit = 1, bp_buffers = []\<rparr> []"
  have ok: "task_ok portion_env [] portion_task" by (simp add: task_ok_def portion_task_def)
  have "serves portion_env [1, 2, 3, 4, 5, 6]" by (simp add: portion_env_def one_shot_serves)
  note exact = fetch_task_exact [OF ok this, of sample_client sample_url "\<lparr>bp_limit = 1, bp_buffers = []\<rparr>"]
  have f: "map_sum (\<lambda>e. ()) buf_data (fst ?run) = Inr [3, 4, 5]" by code_simp
  then obtain buf where "fst ?run = Inr buf" by (cases "fst ?run") auto
  with exact show ?thesis by (auto simp: task_bytes_def portion_task_def window_def split: prod.splits)
qed

text \<open>
  C37. Buffers grow with what is read, not with what is declared: making room for the next read
  ends, keeps the contents, gives room for it, and never goes beyond the validated length of the
  response (or the capacity the buffer had), so that the doubling cannot overflow.
\<close>

theorem grow_read_buffer_bounds:
  assumes "0 < n" and "buf_len b + n \<le> target" and "0 \<le> buf_cap b"
  shows "buf_data (grow_read_buffer b n target) = buf_data b \<and>
    buf_len b + n \<le> buf_cap (grow_read_buffer b n target) \<and>
    buf_cap (grow_read_buffer b n target) \<le> max (buf_cap b) target"
proof (cases "buf_cap b - buf_len b \<ge> n")
  case True
  then show ?thesis by (simp add: grow_read_buffer_def)
next
  case False
  let ?first = "min (max (buf_cap b) parallel_read_buffer_size) target"
  have len: "0 \<le> buf_len b" by (simp add: buf_len_def)
  have "0 < ?first" using assms len by (simp add: parallel_read_buffer_size_def)
  from grow_loop_returns [OF this assms(2)] obtain k where
    k: "grow_loop ?first (buf_len b + n) target = Some k" "buf_len b + n \<le> k" "k \<le> target" by auto
  with False show ?thesis
    by (simp add: grow_read_buffer_def) (simp add: buf_data_def buf_cap_def)
qed

lemma grow_read_buffer_bounds_witness:
  "buf_cap (grow_read_buffer (Some \<lparr>bf_data = [1], bf_cap = 32768\<rparr>) 32768 100000) \<le> 100000 \<and>
   32769 \<le> buf_cap (grow_read_buffer (Some \<lparr>bf_data = [1], bf_cap = 32768\<rparr>) 32768 100000)"
  using grow_read_buffer_bounds [of 32768 "Some \<lparr>bf_data = [1], bf_cap = 32768\<rparr>" 100000]
  by (simp add: buf_len_def buf_data_def buf_cap_def)

end
