(* ===== verification/ParallelPull.thy ===== *)
theory ParallelPull
  imports Chunks "HOL-Library.Signed_Division"
begin

text \<open>
  parallel.go, the opening of a parallel pull: the probe under the retry budget, the fall-backs to
  a single stream, the size of the worker set and the schedule of chunk tasks; and \<open>Pull\<close>, which
  puts the digest check on top of whichever stream was opened.
\<close>

section \<open>A single stream\<close>

definition single_stream_after_attempts ::
    "env \<Rightarrow> client \<Rightarrow> url \<Rightarrow> progress_tracker option \<Rightarrow> int \<Rightarrow> history
      \<Rightarrow> (goerr + resume_reader \<times> progress_tracker option) \<times> history" where
  "single_stream_after_attempts E c target tracker spent h =
     (case get_after_attempts E c target [] spent h of
        (Inl e, h1) \<Rightarrow> (Inl e, h1)
      | (Inr (resp, n), h1) \<Rightarrow>
          (Inr (new_resume_reader (Net (rs_body resp)) (Some n), tracker_set_total (rs_length resp) tracker), h1))"

section \<open>The probe\<close>

type_synonym probe_outcome = "(goerr + response) \<times> nat \<times> history"

definition probe_turn ::
    "env \<Rightarrow> client \<Rightarrow> url \<Rightarrow> string \<Rightarrow> nat \<Rightarrow> history \<Rightarrow> probe_outcome + history" where
  "probe_turn E c target hdr k h =
     (case range_request E c target hdr h of
        (Inl e, h1) \<Rightarrow>
          (case ctx_err E h1 of
             (Some ce, h2) \<Rightarrow> Inl (Inl ce, k, h2)
           | (None, h2) \<Rightarrow>
               if \<not> retryable_request_error e \<or> k = max_attempts c then Inl (Inl e, k, h2)
               else
                 (case retry_wait E c k 0 h2 of
                    (Some we, h3) \<Rightarrow> Inl (Inl we, k, h3)
                  | (None, h3) \<Rightarrow> Inr h3))
      | (Inr resp, h1) \<Rightarrow>
          if \<not> retryable_status (rs_status resp) \<or> k = max_attempts c then Inl (Inr resp, k, h1)
          else
            (case now E h1 of
               (t, h2) \<Rightarrow>
                 (case retry_wait E c k (retry_after_delay E (header_get (rs_header resp) ''Retry-After'') t)
                         (drain_and_close (rs_body resp) h2) of
                    (Some we, h3) \<Rightarrow> Inl (Inl we, k, h3)
                  | (None, h3) \<Rightarrow> Inr h3)))"

definition parallel_probe :: "env \<Rightarrow> client \<Rightarrow> url \<Rightarrow> string \<Rightarrow> history \<Rightarrow> probe_outcome" where
  "parallel_probe E c target hdr h = the (attempt_loop (probe_turn E c target hdr) (max_attempts c) 1 h)"

section \<open>The worker set and the schedule\<close>

text \<open>The dispatcher's loop; with a chunk size that is not positive it would not end.\<close>

partial_function (option) chunk_tasks :: "int \<Rightarrow> int \<Rightarrow> int \<Rightarrow> int \<Rightarrow> chunk_task list option" where
  [code]: "chunk_tasks chunk index start whole =
     (if start < whole then
        Option.bind (chunk_tasks chunk (index + 1) (start + min chunk (whole - start)) whole)
          (\<lambda>ts. Some (\<lparr>ct_index = index, ct_start = start, ct_want = min chunk (whole - start),
                      ct_total = whole, ct_probe = None, ct_probe_attempts = 0\<rparr> # ts))
      else Some [])"

definition probe_task :: "content_range \<Rightarrow> nat \<Rightarrow> int \<Rightarrow> chunk_task" where
  "probe_task cr body spent =
     \<lparr>ct_index = 0, ct_start = cr_start cr, ct_want = cr_end cr - cr_start cr + 1,
      ct_total = cr_total cr, ct_probe = Some body, ct_probe_attempts = spent\<rparr>"

text \<open>What \<open>dispatch\<close> enqueues when nothing stops it.\<close>

definition dispatch_tasks :: "int \<Rightarrow> content_range \<Rightarrow> nat \<Rightarrow> int \<Rightarrow> chunk_task list option" where
  "dispatch_tasks chunk cr body spent =
     map_option (\<lambda>ts. probe_task cr body spent # ts) (chunk_tasks chunk 1 (cr_end cr + 1) (cr_total cr))"

definition parallel_worker_count :: "int \<Rightarrow> int \<Rightarrow> int \<Rightarrow> int \<Rightarrow> int" where
  "parallel_worker_count configured chunk first whole =
     (let remaining = whole - first;
          chunks = 1 + (if remaining > 0
                        then remaining sdiv chunk + (if remaining smod chunk \<noteq> 0 then 1 else 0) else 0)
      in if chunks \<ge> configured then configured else chunks)"

section \<open>Opening\<close>

text \<open>A puller as \<open>parallelPull\<close> hands it to its dispatcher.\<close>

record puller_start =
  pk_workers :: int
  pk_range :: content_range
  pk_body :: nat
  pk_attempts :: int

datatype pull_source = SingleStream resume_reader | ParallelChunks puller_start

definition parallel_pull ::
    "env \<Rightarrow> client \<Rightarrow> url \<Rightarrow> progress_tracker option \<Rightarrow> history
      \<Rightarrow> (goerr + pull_source \<times> progress_tracker option) \<times> history" where
  "parallel_pull E c target tracker h =
     (let hdr = range_header 0 (cl_pull_chunk c - 1) in
      case parallel_probe E c target hdr h of
        (Inl e, _, h1) \<Rightarrow> (Inl e, EvCancel # h1)
      | (Inr probe, spent, h1) \<Rightarrow>
          let cr_text = header_get (rs_header probe) ''Content-Range'' in
          if rs_status probe = 416 then
            (let h2 = EvCancel # drain_and_close (rs_body probe) h1 in
             if unsatisfied_range_total cr_text = 0 then
               (Inr (SingleStream (new_resume_reader NoBody (Some (int spent))), tracker_set_total 0 tracker), h2)
             else
               (case single_stream_after_attempts E c target tracker (int spent) h2 of
                  (Inl e, h3) \<Rightarrow> (Inl e, h3)
                | (Inr (r, t), h3) \<Rightarrow> (Inr (SingleStream r, t), h3)))
          else if rs_status probe \<noteq> 200 \<and> rs_status probe \<noteq> 206 then
            (case interpret_error E probe (EvCancel # h1) of
               (e, h2) \<Rightarrow> (Inl e, body_close (rs_body probe) h2))
          else if rs_status probe \<noteq> 206 then
            (Inr (SingleStream (new_resume_reader (Coupled (rs_body probe)) (Some (int spent))),
                  tracker_set_total (rs_length probe) tracker), h1)
          else
            (case parse_content_range cr_text of
               Some cr \<Rightarrow>
                 if cr_start cr \<noteq> 0 \<or> cr_end cr \<ge> cl_pull_chunk c then
                   (Inl (Text (''parallel pull probe '' @ hdr @ '': registry returned invalid Content-Range ''
                      @ cr_text)), EvCancel # drain_and_close (rs_body probe) h1)
                 else
                   (Inr (ParallelChunks
                           \<lparr>pk_workers = parallel_worker_count (cl_pull_workers c) (cl_pull_chunk c)
                                          (cr_end cr + 1) (cr_total cr),
                            pk_range = cr, pk_body = rs_body probe, pk_attempts = int spent\<rparr>,
                         tracker_set_total (cr_total cr) tracker), h1)
             | None \<Rightarrow>
                 (Inl (Text (''parallel pull probe '' @ hdr @ '': registry returned invalid Content-Range ''
                    @ cr_text)), EvCancel # drain_and_close (rs_body probe) h1)))"

section \<open>Pull\<close>

text \<open>The stream under the digest check: \<open>progressify\<close> around the source.\<close>

type_synonym pulled = "pull_source progress_reader verify_reader"

definition open_source ::
    "env \<Rightarrow> client \<Rightarrow> url \<Rightarrow> progress_tracker option \<Rightarrow> history
      \<Rightarrow> (goerr + pull_source \<times> progress_tracker option) \<times> history" where
  "open_source E c target tracker h =
     (if cl_pull_workers c > 0 then parallel_pull E c target tracker h
      else
        (case single_stream_after_attempts E c target tracker 0 h of
           (Inl e, h1) \<Rightarrow> (Inl e, h1)
         | (Inr (r, t), h1) \<Rightarrow> (Inr (SingleStream r, t), h1)))"

definition pull ::
    "env \<Rightarrow> (string \<Rightarrow> goerr option) \<Rightarrow> client \<Rightarrow> repository \<Rightarrow> string
      \<Rightarrow> transfer_option option list \<Rightarrow> history \<Rightarrow> (goerr + pulled) \<times> history" where
  "pull E digest_check c repo dgst opts h =
     (case validate_target digest_check repo dgst of
        Some e \<Rightarrow> (Inl e, h)
      | None \<Rightarrow>
          let tracker = new_progress_tracker (tc_progress (apply_transfer_options opts) \<noteq> None) (-1);
              target = blob_url (client_scheme c) repo dgst;
              label = ''pulling blob '' @ dgst @ '' from '' @ repo_host repo @ ''/'' @ repo_name repo
          in (case open_source E c target tracker h of
                (Inl e, h1) \<Rightarrow> (Inl (wrapf label e), h1)
              | (Inr (src, t), h1) \<Rightarrow>
                  (Inr (new_verify_reader \<lparr>pr_body = src, pr_tracker = t\<rparr> dgst), h1)))"

section \<open>The schedule\<close>

definition tasks_cover :: "int \<Rightarrow> int \<Rightarrow> int \<Rightarrow> chunk_task list \<Rightarrow> bool" where
  "tasks_cover index start whole ts \<longleftrightarrow>
     map ct_index ts = map (\<lambda>i. index + int i) [0..<length ts] \<and>
     (\<forall>B. concat (map (task_bytes B) ts) = window (nat start) (nat whole) B)"

lemma chunk_tasks_schedule:
  assumes "0 < chunk"
  shows "0 \<le> start \<Longrightarrow> start \<le> whole \<Longrightarrow>
    \<exists>ts. chunk_tasks chunk index start whole = Some ts \<and> tasks_cover index start whole ts \<and>
      list_all (\<lambda>t. 0 < ct_want t \<and> ct_want t \<le> chunk \<and> ct_probe t = None \<and> 0 \<le> ct_start t \<and> ct_total t = whole) ts \<and>
      int (length ts) = (whole - start + chunk - 1) div chunk"
proof (induction "nat (whole - start)" arbitrary: index start rule: less_induct)
  case less
  show ?case
  proof (cases "start < whole")
    case False
    with less.prems assms show ?thesis
      by (subst chunk_tasks.simps) (simp add: tasks_cover_def)
  next
    case True
    let ?want = "min chunk (whole - start)"
    have w: "0 < ?want" using True assms by simp
    then have "nat (whole - (start + ?want)) < nat (whole - start)" and
      b: "0 \<le> start + ?want" "start + ?want \<le> whole" using True less.prems by auto
    from less.hyps [OF this] obtain ts where
      ts: "chunk_tasks chunk (index + 1) (start + ?want) whole = Some ts"
      and cov: "tasks_cover (index + 1) (start + ?want) whole ts"
      and each: "list_all (\<lambda>t. 0 < ct_want t \<and> ct_want t \<le> chunk \<and> ct_probe t = None \<and> 0 \<le> ct_start t \<and> ct_total t = whole) ts"
      and len: "int (length ts) = (whole - (start + ?want) + chunk - 1) div chunk" by blast
    let ?t = "\<lparr>ct_index = index, ct_start = start, ct_want = ?want, ct_total = whole,
               ct_probe = None, ct_probe_attempts = 0\<rparr>"
    have "task_bytes B ?t @ window (nat (start + ?want)) (nat whole) B = window (nat start) (nat whole) B" for B
      unfolding task_bytes_def chunk_task.simps by (rule window_join) (use less.prems w b in auto)
    moreover have "map ct_index (?t # ts) = map (\<lambda>i. index + int i) [0..<length (?t # ts)]"
      using cov by (simp add: tasks_cover_def map_upt_Suc del: upt_Suc)
    ultimately have "tasks_cover index start whole (?t # ts)"
      using cov by (simp add: tasks_cover_def del: upt_Suc)
    moreover have "int (length (?t # ts)) = (whole - start + chunk - 1) div chunk"
    proof -
      have "(whole - start + chunk - 1) div chunk = ((whole - start - 1) + chunk) div chunk"
        by (simp add: algebra_simps)
      then have q: "(whole - start + chunk - 1) div chunk = (whole - start - 1) div chunk + 1"
        using div_add_self2 [of chunk "whole - start - 1"] assms by linarith
      show ?thesis
      proof (cases "chunk \<le> whole - start")
        case True
        with len q show ?thesis by (simp add: algebra_simps)
      next
        case False
        with True have "(whole - start - 1) div chunk = 0" by simp
        with False len q assms show ?thesis by simp
      qed
    qed
    ultimately show ?thesis
      using ts each w less.prems by (subst chunk_tasks.simps) (simp add: True)
  qed
qed


lemma round_up_div:
  assumes "0 < m" and "m < chunk" shows "(m + (chunk - 1)) div chunk = (1 :: int)"
proof -
  have "(m + (chunk - 1)) div chunk = ((m - 1) + chunk) div chunk" by (simp add: algebra_simps)
  also have "\<dots> = (m - 1) div chunk + 1" by (rule div_add_self2) (use assms in simp)
  finally show ?thesis using assms by simp
qed

lemma worker_count_chunks:
  assumes "0 < chunk" and "first \<le> whole"
  shows "parallel_worker_count configured chunk first whole
    = min configured (1 + (whole - first + chunk - 1) div chunk)"
proof (cases "first < whole")
  case False
  with assms show ?thesis by (simp add: parallel_worker_count_def min_def)
next
  case True
  let ?n = "whole - first"
  have pos: "0 < ?n" using True by simp
  have s: "?n sdiv chunk = ?n div chunk" "?n smod chunk = ?n mod chunk"
    using pos assms(1) by (simp_all add: signed_divide_int_def signed_modulo_int_def)
  have "(?n + chunk - 1) div chunk = ?n div chunk + (if ?n mod chunk \<noteq> 0 then 1 else 0)"
  proof -
    have e: "?n + chunk - 1 = (?n div chunk) * chunk + (?n mod chunk + (chunk - 1))" by simp
    have "(?n + chunk - 1) div chunk = ((?n div chunk) * chunk + (?n mod chunk + (chunk - 1))) div chunk"
      by (rule arg_cong [OF e])
    also have "\<dots> = ?n div chunk + (?n mod chunk + (chunk - 1)) div chunk"
      by (rule div_mult_self3) (use assms(1) in simp)
    finally have "(?n + chunk - 1) div chunk = ?n div chunk + (?n mod chunk + (chunk - 1)) div chunk" .
    moreover have "(?n mod chunk + (chunk - 1)) div chunk = (if ?n mod chunk \<noteq> 0 then 1 else 0)"
    proof (cases "?n mod chunk = 0")
      case False
      then have "0 < ?n mod chunk" "?n mod chunk < chunk"
        using pos_mod_sign [of chunk ?n] pos_mod_bound [of chunk ?n] assms(1) by linarith+
      then have "(?n mod chunk + (chunk - 1)) div chunk = 1" by (rule round_up_div)
      with False show ?thesis by simp
    qed (use assms(1) in simp)
    ultimately show ?thesis by simp
  qed
  with pos show ?thesis by (simp add: parallel_worker_count_def s Let_def min_def)
qed


lemma dispatch_tasks_run:
  assumes "0 < chunk" and "cr_start cr = 0" and "0 \<le> cr_end cr" and "cr_end cr < chunk"
    and "cr_end cr < cr_total cr"
  obtains ts where "dispatch_tasks chunk cr body spent = Some ts"
    and "map ct_index ts = map int [0..<length ts]"
    and "\<And>B. concat (map (task_bytes B) ts) = take (nat (cr_total cr)) B"
    and "list_all (\<lambda>t. 0 < ct_want t \<and> ct_want t \<le> chunk \<and> 0 \<le> ct_start t \<and> ct_total t = cr_total cr) ts"
    and "ts = probe_task cr body spent # tl ts" and "list_all (\<lambda>t. ct_probe t = None) (tl ts)"
    and "int (length ts) = 1 + (cr_total cr - (cr_end cr + 1) + chunk - 1) div chunk"
proof -
  from chunk_tasks_schedule [OF assms(1), of "cr_end cr + 1" "cr_total cr" 1] assms obtain ts where
    ts: "chunk_tasks chunk 1 (cr_end cr + 1) (cr_total cr) = Some ts"
    and cov: "tasks_cover 1 (cr_end cr + 1) (cr_total cr) ts"
    and each: "list_all (\<lambda>t. 0 < ct_want t \<and> ct_want t \<le> chunk \<and> ct_probe t = None \<and> 0 \<le> ct_start t \<and> ct_total t = cr_total cr) ts"
    and len: "int (length ts) = (cr_total cr - (cr_end cr + 1) + chunk - 1) div chunk" by auto
  let ?p = "probe_task cr body spent"
  have "concat (map (task_bytes B) (?p # ts)) = take (nat (cr_total cr)) B" for B
  proof -
    have "task_bytes B ?p = window 0 (nat (cr_end cr + 1)) B"
      using assms(2) by (simp add: task_bytes_def probe_task_def)
    moreover have "window 0 (nat (cr_end cr + 1)) B @ window (nat (cr_end cr + 1)) (nat (cr_total cr)) B
        = window 0 (nat (cr_total cr)) B" by (rule window_join) (use assms in auto)
    ultimately show ?thesis using cov by (simp add: tasks_cover_def window_def)
  qed
  moreover have "map ct_index (?p # ts) = map int [0..<length (?p # ts)]"
    using cov by (simp add: tasks_cover_def probe_task_def map_upt_Suc del: upt_Suc)
  moreover have "list_all (\<lambda>t. 0 < ct_want t \<and> ct_want t \<le> chunk \<and> 0 \<le> ct_start t \<and> ct_total t = cr_total cr) (?p # ts)"
    using each assms by (auto simp: list_all_iff probe_task_def)
  moreover have "list_all (\<lambda>t. ct_probe t = None) ts" using each by (auto simp: list_all_iff)
  ultimately show ?thesis
    using that [of "?p # ts"] ts len by (simp add: dispatch_tasks_def)
qed

text \<open>
  C35. The schedule of a parallel pull tiles the blob: the dispatcher's loop ends, its tasks are
  numbered consecutively from the probe's, none asks for more than a chunk, their windows put
  one after the other are the whole blob, and the worker set is exactly as large as the smaller
  of the configured number and the number of tasks.
\<close>

theorem dispatch_schedule:
  assumes "0 < chunk" and "cr_start cr = 0" and "0 \<le> cr_end cr" and "cr_end cr < chunk"
    and "cr_end cr < cr_total cr"
  shows "\<exists>ts. dispatch_tasks chunk cr body spent = Some ts \<and>
    map ct_index ts = map int [0..<length ts] \<and>
    (\<forall>B. concat (map (task_bytes B) ts) = take (nat (cr_total cr)) B) \<and>
    list_all (\<lambda>t. 0 < ct_want t \<and> ct_want t \<le> chunk \<and> ct_total t = cr_total cr) ts \<and>
    parallel_worker_count configured chunk (cr_end cr + 1) (cr_total cr) = min configured (int (length ts))"
proof -
  obtain ts where ts: "dispatch_tasks chunk cr body spent = Some ts"
    "map ct_index ts = map int [0..<length ts]"
    "\<And>B. concat (map (task_bytes B) ts) = take (nat (cr_total cr)) B"
    "list_all (\<lambda>t. 0 < ct_want t \<and> ct_want t \<le> chunk \<and> 0 \<le> ct_start t \<and> ct_total t = cr_total cr) ts"
    "int (length ts) = 1 + (cr_total cr - (cr_end cr + 1) + chunk - 1) div chunk"
    using dispatch_tasks_run [OF assms] by blast
  with worker_count_chunks [OF assms(1), of "cr_end cr + 1" "cr_total cr" configured] assms(5)
  show ?thesis by (auto simp: list_all_iff)
qed

lemma dispatch_schedule_witness:
  "\<exists>ts. dispatch_tasks 4 \<lparr>cr_start = 0, cr_end = 2, cr_total = 10\<rparr> 0 1 = Some ts \<and>
    length ts = 3 \<and> concat (map (task_bytes [1, 2, 3, 4, 5, 6, 7, 8, 9, 10]) ts) = [1, 2, 3, 4, 5, 6, 7, 8, 9, 10]"
proof -
  have l: "map_option length (dispatch_tasks 4 \<lparr>cr_start = 0, cr_end = 2, cr_total = 10\<rparr> 0 1) = Some 3"
    by code_simp
  from dispatch_schedule [of 4 "\<lparr>cr_start = 0, cr_end = 2, cr_total = 10\<rparr>" 0 1 8] l show ?thesis by fastforce
qed

section \<open>The probe is a bounded attempt loop\<close>

lemma probe_turn_runs:
  assumes "probe_turn E c target hdr k h = res"
  shows "case res of
      Inl (out, n, h') \<Rightarrow> settled E (kept out) h h' \<and> length (sent h') \<le> length (sent h) + 10 \<and> n = k \<and>
        (case out of Inl e \<Rightarrow> True | Inr resp \<Rightarrow> fresh E resp h')
    | Inr h' \<Rightarrow> settled E {} h h' \<and> length (sent h') \<le> length (sent h) + 10 \<and> k \<noteq> max_attempts c"
proof -
  obtain out h1 where rq: "range_request E c target hdr h = (out, h1)" by (metis surj_pair)
  note run = range_request_runs [OF rq]
  show ?thesis
  proof (cases out)
    case (Inl e)
    obtain ce h2 where ct: "ctx_err E h1 = (ce, h2)" by (metis surj_pair)
    obtain we h3 where w: "retry_wait E c k 0 h2 = (we, h3)" by (metis surj_pair)
    have s2: "settled E {} h h2" "sent h2 = sent h1"
      using run Inl settled_then [OF _ settled_ctx [OF ct], of h] sent_ctx [OF ct] by auto
    have s3: "settled E {} h h3" "sent h3 = sent h1" using settled_wait [OF s2(1) w] retry_wait_sent [OF w] s2(2) by simp_all
    show ?thesis
      unfolding assms [symmetric] probe_turn_def rq Inl prod.case sum.case ct
      using s2 s3 run w by (cases ce; cases we) auto
  next
    case (Inr resp)
    obtain t h2 where n: "now E h1 = (t, h2)" by (metis surj_pair)
    let ?d = "drain_and_close (rs_body resp) h2"
    let ?after = "retry_after_delay E (header_get (rs_header resp) ''Retry-After'') t"
    obtain we h3 where w: "retry_wait E c k ?after ?d = (we, h3)" by (metis surj_pair)
    have "settled E {rs_body resp} h h2" using run Inr n by (auto simp: now_def intro: settled_event)
    then have s2: "settled E {} h ?d" by (rule settled_consumed(3))
    have "sent ?d = sent h1" using n by (auto simp: now_def drain_and_close_def body_close_def body_drain_def)
    with settled_wait [OF s2 w] retry_wait_sent [OF w]
    have s3: "settled E {} h h3" "sent h3 = sent h1" by simp_all
    show ?thesis
      unfolding assms [symmetric] probe_turn_def rq Inr prod.case sum.case n w
      using s3 run Inr by (cases we) auto
  qed
qed

interpretation probe_loop: settling_attempts
  "probe_turn E c target hdr" "max_attempts c" E "\<lambda>h. h" "\<lambda>q. snd (snd q)" "\<lambda>q. kept (fst q)" 10
  for E :: env and c :: client and target :: url and hdr :: string
proof unfold_locales
  fix s s' :: history and k and q :: probe_outcome
  show "probe_turn E c target hdr (max_attempts c) s \<noteq> Inr s'"
    using probe_turn_runs [of E c target hdr "max_attempts c" s "Inr s'"] by auto
  show "0 < max_attempts c" by simp
  {
    assume "probe_turn E c target hdr k s = Inr s'"
    from probe_turn_runs [OF this] show "settled E {} s s'" and "length (sent s') \<le> length (sent s) + 10"
      by simp_all
  }
  assume "probe_turn E c target hdr k s = Inl q"
  from probe_turn_runs [OF this] show "settled E (kept (fst q)) s (snd (snd q))"
    and "length (sent (snd (snd q))) \<le> length (sent s) + 10" by (auto split: prod.splits)
qed

lemma probe_runs:
  assumes "parallel_probe E c target hdr h = (out, n, h')"
  shows "settled E (kept out) h h' \<and> 1 \<le> n \<and> n \<le> max_attempts c \<and>
    length (sent h') \<le> length (sent h) + 10 * max_attempts c \<and>
    (case out of Inl e \<Rightarrow> True | Inr resp \<Rightarrow> fresh E resp h')"
proof -
  have run: "attempt_loop (probe_turn E c target hdr) (max_attempts c) 1 h = Some (out, n, h')"
    using probe_loop.loop_total [of E c target hdr h] assms by (auto simp: parallel_probe_def)
  have "case (out, n, h') of (out, n, h') \<Rightarrow>
      1 \<le> n \<and> n \<le> max_attempts c \<and> (case out of Inl e \<Rightarrow> True | Inr resp \<Rightarrow> fresh E resp h')"
  proof (rule probe_loop.loop_rule [OF run, where P = "\<lambda>k s. True" and Q = "\<lambda>(out, n, h').
        1 \<le> n \<and> n \<le> max_attempts c \<and> (case out of Inl e \<Rightarrow> True | Inr resp \<Rightarrow> fresh E resp h')"])
    fix j t and q :: probe_outcome
    assume "1 \<le> j" "j \<le> max_attempts c" "probe_turn E c target hdr j t = Inl q"
    with probe_turn_runs [OF this(3)] show "case q of (out, n, h') \<Rightarrow>
        1 \<le> n \<and> n \<le> max_attempts c \<and> (case out of Inl e \<Rightarrow> True | Inr resp \<Rightarrow> fresh E resp h')"
      by (auto split: prod.splits)
  qed simp_all
  with probe_loop.loop_settled [OF run] probe_loop.loop_price [OF run] show ?thesis
    by (simp add: mult.commute)
qed

section \<open>What is opened\<close>

definition source_owned :: "pull_source \<Rightarrow> nat set" where
  "source_owned s = (case s of SingleStream r \<Rightarrow> rm_owned r | ParallelChunks k \<Rightarrow> {pk_body k})"

text \<open>A source at the first byte of the blob.\<close>

definition source_ready :: "env \<Rightarrow> client \<Rightarrow> history \<Rightarrow> pull_source \<Rightarrow> bool" where
  "source_ready E c h s \<longleftrightarrow>
     (case s of
        SingleStream r \<Rightarrow> rm_at E h r \<and> rm_offset r = 0 \<and> rm_shut r
      | ParallelChunks k \<Rightarrow>
          pk_body k < length h \<and> position E h (pk_body k) = 0 \<and>
          cr_start (pk_range k) = 0 \<and> 0 \<le> cr_end (pk_range k) \<and> cr_end (pk_range k) < cl_pull_chunk c \<and>
          cr_end (pk_range k) < cr_total (pk_range k) \<and> 1 \<le> pk_attempts k \<and>
          pk_attempts k \<le> attempts (cl_retry c) \<and>
          pk_workers k = parallel_worker_count (cl_pull_workers c) (cl_pull_chunk c)
            (cr_end (pk_range k) + 1) (cr_total (pk_range k)))"

definition opened_ok :: "env \<Rightarrow> client \<Rightarrow> history \<Rightarrow> goerr + pull_source \<Rightarrow> history \<Rightarrow> bool" where
  "opened_ok E c h out h' \<longleftrightarrow>
     (case out of
        Inl e \<Rightarrow> settled E {} h h'
      | Inr s \<Rightarrow> settled E (source_owned s) h h' \<and> source_ready E c h' s)"

lemma new_reader_owned: "rm_owned (new_resume_reader s n) = stream_body s"
  by (simp add: rm_owned_def new_resume_reader_def)

lemma new_reader_ready: "stream_at E h s 0 \<Longrightarrow> source_ready E c h (SingleStream (new_resume_reader s n))"
  by (simp add: source_ready_def rm_at_def rm_shut_def new_resume_reader_def)

lemma single_stream_opened:
  assumes "single_stream_after_attempts E c target tracker spent h = (out, h')"
  shows "opened_ok E c h (case out of Inl e \<Rightarrow> Inl e | Inr (r, t) \<Rightarrow> Inr (SingleStream r)) h'"
proof -
  obtain res h1 where g: "get_after_attempts E c target [] spent h = (res, h1)" by (metis surj_pair)
  note s = get_settled [OF g]
  show ?thesis
  proof (cases res)
    case (Inl e)
    with assms g s show ?thesis by (auto simp: single_stream_after_attempts_def opened_ok_def)
  next
    case (Inr q)
    obtain resp n where q: "q = (resp, n)" by (metis surj_pair)
    from get_fresh [OF g [unfolded Inr q]] have "stream_at E h1 (Net (rs_body resp)) 0"
      by (simp add: fresh_def answer_base_def)
    with assms g s Inr q new_reader_ready show ?thesis
      by (auto simp: single_stream_after_attempts_def opened_ok_def source_owned_def new_reader_owned)
  qed
qed

lemma opened_after: "settled E {} h h1 \<Longrightarrow> opened_ok E c h1 out h' \<Longrightarrow> opened_ok E c h out h'"
  using settled_then by (auto simp: opened_ok_def split: sum.splits)

definition source_of :: "goerr + pull_source \<times> progress_tracker option \<Rightarrow> goerr + pull_source" where
  "source_of out = (case out of Inl e \<Rightarrow> Inl e | Inr (s, t) \<Rightarrow> Inr s)"

lemma parallel_pull_opened:
  assumes "parallel_pull E c target tracker h = (out, h')" 
  shows "opened_ok E c h (source_of out) h'"
proof -
  let ?hdr = "range_header 0 (cl_pull_chunk c - 1)"
  obtain res n h1 where p: "parallel_probe E c target ?hdr h = (res, n, h1)" by (metis prod_cases3)
  note run = probe_runs [OF p]
  show ?thesis
  proof (cases res)
    case (Inl e)
    have "settled E {} h (EvCancel # h1)" using run Inl by (auto intro: settled_event)
    with assms p Inl show ?thesis by (auto simp: parallel_pull_def opened_ok_def source_of_def)
  next
    case (Inr probe)
    let ?b = "rs_body probe"
    let ?cr = "header_get (rs_header probe) ''Content-Range''"
    from run Inr have s: "settled E {?b} h h1" and f: "fresh E probe h1" by simp_all
    have cd: "settled E {} h (EvCancel # drain_and_close ?b h1)"
      using settled_consumed(3) [OF s] by (auto intro: settled_event)
    have ce: "settled E {?b} h (EvCancel # h1)" using s by (auto intro: settled_event)
    consider "rs_status probe = 416" | "rs_status probe \<noteq> 416" "rs_status probe \<noteq> 200" "rs_status probe \<noteq> 206"
      | "rs_status probe = 200" | "rs_status probe = 206" by blast
    then show ?thesis
    proof cases
      case 1
      obtain sres h2 where ss: "single_stream_after_attempts E c target tracker (int n)
          (EvCancel # drain_and_close ?b h1) = (sres, h2)" by (metis surj_pair)
      from opened_after [OF cd single_stream_opened [OF ss]] cd assms p Inr 1 ss show ?thesis
        by (auto simp: parallel_pull_def Let_def opened_ok_def source_of_def source_owned_def new_reader_owned
            new_reader_ready split: sum.splits prod.splits if_splits)
    next
      case 2
      obtain e h2 where i: "interpret_error E probe (EvCancel # h1) = (e, h2)" by (metis surj_pair)
      from settled_rejected [OF ce i] assms p Inr 2 i show ?thesis
        by (auto simp: parallel_pull_def Let_def opened_ok_def source_of_def)
    next
      case 3
      then have "stream_at E h1 (Coupled ?b) 0" using f by (simp add: fresh_def answer_base_def)
      from new_reader_ready [OF this] assms p Inr 3 s show ?thesis
        by (auto simp: parallel_pull_def Let_def opened_ok_def source_of_def source_owned_def new_reader_owned)
    next
      case 4
      show ?thesis
      proof (cases "parse_content_range ?cr")
        case None
        with assms p Inr 4 cd show ?thesis by (auto simp: parallel_pull_def Let_def opened_ok_def source_of_def)
      next
        case (Some cr)
        note b = parse_content_range_bounds [OF Some]
        have "position E h1 ?b = nat (cr_start cr)" "?b < length h1"
          using f 4 Some by (simp_all add: fresh_def answer_base_def)
        moreover have "int n \<le> attempts (cl_retry c)" "1 \<le> n"
          using run by (auto simp: max_attempts_def attempts_def)
        ultimately show ?thesis
          using assms p Inr 4 Some cd s b
          by (auto simp: parallel_pull_def Let_def opened_ok_def source_of_def source_owned_def source_ready_def
              split: if_splits)
      qed
    qed
  qed
qed

lemma open_source_opened:
  assumes "open_source E c target tracker h = (out, h')"
  shows "opened_ok E c h (source_of out) h'"
proof (cases "cl_pull_workers c > 0")
  case True
  with assms parallel_pull_opened show ?thesis by (simp add: open_source_def)
next
  case False
  obtain o1 h2 where ss: "single_stream_after_attempts E c target tracker 0 h = (o1, h2)" by (metis surj_pair)
  from single_stream_opened [OF ss] False assms ss show ?thesis
    by (cases o1) (auto simp: open_source_def source_of_def)
qed

lemma pull_opened:
  assumes "pull E digest_check c repo dgst opts h = (out, h')"
  shows "opened_ok E c h (case out of Inl e \<Rightarrow> Inl e | Inr v \<Rightarrow> Inr (pr_body (vr_body v))) h' \<and>
    (case out of Inl e \<Rightarrow> True | Inr v \<Rightarrow> vr_expected v = dgst \<and> vr_written v = [])"
proof (cases "validate_target digest_check repo dgst")
  case (Some e)
  with assms show ?thesis by (auto simp: pull_def opened_ok_def)
next
  case None
  obtain res h1 where r: "open_source E c (blob_url (client_scheme c) repo dgst)
      (new_progress_tracker (tc_progress (apply_transfer_options opts) \<noteq> None) (-1)) h = (res, h1)"
    by (metis surj_pair)
  note ok = open_source_opened [OF r]
  show ?thesis
  proof (cases res)
    case (Inl e)
    then have "out = Inl (wrapf (''pulling blob '' @ dgst @ '' from '' @ repo_host repo @ ''/'' @ repo_name repo) e) \<and> h' = h1"
      using assms unfolding pull_def None option.case Let_def r Inl prod.case sum.case by simp
    with ok Inl show ?thesis by (simp add: opened_ok_def source_of_def)
  next
    case (Inr q)
    obtain s t where q: "q = (s, t)" by (metis surj_pair)
    have "out = Inr (new_verify_reader \<lparr>pr_body = s, pr_tracker = t\<rparr> dgst) \<and> h' = h1"
      using assms unfolding pull_def None option.case Let_def r Inr q prod.case sum.case by simp
    with ok Inr q show ?thesis by (simp add: opened_ok_def source_of_def new_verify_reader_def)
  qed
qed

section \<open>Reading a single stream\<close>

type_synonym single_stream = "resume_reader progress_reader verify_reader"

definition single_stream :: "pulled \<Rightarrow> single_stream option" where
  "single_stream v =
     (case pr_body (vr_body v) of
        SingleStream r \<Rightarrow>
          Some \<lparr>vr_body = \<lparr>pr_body = r, pr_tracker = pr_tracker (vr_body v)\<rparr>,
                vr_written = vr_written v, vr_expected = vr_expected v\<rparr>
      | ParallelChunks k \<Rightarrow> None)"

definition stream_reader :: "env \<Rightarrow> (string \<Rightarrow> byte list \<Rightarrow> bool) \<Rightarrow> client \<Rightarrow> url \<Rightarrow> single_stream reader" where
  "stream_reader E verified c target = verify_read verified (progress_read (resume_read E c target))"

interpretation pulled_bytes: byte_reader E "stream_reader E verified c target" "\<lambda>v. rm_owned (pr_body (vr_body v))"
  for E verified c target
  unfolding stream_reader_def
  by (intro verify_reader_contract progress_reader_contract resume_bytes.byte_reader_axioms)

lemma read_run_event:
  assumes "read_run E B r h d r' h'" and "\<forall>s q. e \<noteq> EvSend s q" and "harmless (length h') e"
  shows "read_run E B r h d r' (e # h')"
proof -
  have "sent (e # h') = sent h'" using assms(2) by (cases e) auto
  moreover have "rm_at E h' r' \<Longrightarrow> rm_at E (e # h') r'"
    using rm_at_same [OF _ resume_same_refl undisturbed_event [OF undisturbed_refl assms(3)]] .
  ultimately show ?thesis
    using assms(1) passes_event [OF assms(2)] unfolding read_run_def by auto
qed

lemma stream_reader_run:
  assumes "stream_reader E verified c target n v h = ((d, e), v', h')"
  shows "read_run E B (pr_body (vr_body v)) h d (pr_body (vr_body v')) h' \<and>
    (rm_shut (pr_body (vr_body v)) \<longrightarrow> rm_shut (pr_body (vr_body v')))"
proof -
  obtain e1 where pr: "progress_read (resume_read E c target) n (vr_body v) h = ((d, e1), vr_body v', h')"
    using verify_read_error [OF assms [unfolded stream_reader_def]] by blast
  obtain d2 e2 r1 h1 where rd2: "resume_read E c target n (pr_body (vr_body v)) h = ((d2, e2), r1, h1)"
    by (metis prod_cases4 surj_pair)
  obtain t h2 where t2: "tracker_add (int (length d2)) (pr_tracker (vr_body v)) h1 = (t, h2)" by (metis surj_pair)
  from pr rd2 t2 have eq: "d2 = d" "e2 = e1" "h2 = h'" "vr_body v' = (vr_body v)\<lparr>pr_body := r1, pr_tracker := t\<rparr>"
    by (simp_all add: progress_read_def)
  from eq(4) have r1: "pr_body (vr_body v') = r1" by simp
  note rd = rd2 [unfolded eq] and t = t2 [unfolded eq]
  have "h' = h1 \<or> (\<exists>x y. h' = EvProgress x y # h1)"
    using t by (auto simp: tracker_add_def split: option.splits if_splits)
  with run_read [OF rd, of B] shut_read [OF rd] show ?thesis
    by (auto simp: r1 intro: read_run_event)
qed

lemma stream_seq_run:
  "read_seq (stream_reader E verified c target) ns v h = ((d, e), v', h') \<Longrightarrow>
   read_run E B (pr_body (vr_body v)) h d (pr_body (vr_body v')) h' \<and>
   (rm_shut (pr_body (vr_body v)) \<longrightarrow> rm_shut (pr_body (vr_body v')))"
proof (induction ns arbitrary: v h d)
  case Nil
  then show ?case by (auto intro: resume_run_same_read resume_run_refl)
next
  case (Cons n ns)
  obtain d1 e1 v1 h1 where r: "stream_reader E verified c target n v h = ((d1, e1), v1, h1)"
    by (metis prod_cases4 surj_pair)
  note first = stream_reader_run [OF r, of B]
  show ?case
  proof (cases e1)
    case (Some x)
    with Cons.prems r first show ?thesis by auto
  next
    case None
    with Cons.prems r obtain d2 where
      q: "read_seq (stream_reader E verified c target) ns v1 h1 = ((d2, e), v', h')" "d = d1 @ d2"
      by (auto split: prod.splits)
    from Cons.IH [OF q(1)] first read_run_trans q(2) show ?thesis by blast
  qed
qed

lemma pull_delivers:
  assumes "pull E digest_check c repo dgst opts h = (Inr p, h1)" and "single_stream p = Some v"
    and "read_seq (stream_reader E verified c target) ns v h1 = ((d, e), v', h2)" and "serves E B"
  shows "d = take (length d) B \<and> (is_eof e \<longrightarrow> verified dgst d)"
proof -
  from assms(2) obtain r where r: "pr_body (vr_body p) = SingleStream r" and v: "pr_body (vr_body v) = r"
    "vr_expected v = vr_expected p" "vr_written v = vr_written p"
    by (auto simp: single_stream_def split: pull_source.splits)
  from pull_opened [OF assms(1)] r have at: "rm_at E h1 r" "rm_offset r = 0"
    and x: "vr_expected p = dgst" "vr_written p = []" by (auto simp: opened_ok_def source_ready_def)
  from stream_seq_run [OF assms(3), of B] assms(4) at v(1)
  have "d = window 0 (0 + length d) B" unfolding read_run_def by auto
  moreover have "is_eof e \<longrightarrow> verified dgst d"
    using verify_seq_written [OF assms(3) [unfolded stream_reader_def]] by (auto simp: v x)
  ultimately show ?thesis by (simp add: window_def)
qed

text \<open>
  C3. What \<open>Pull\<close> delivers over a single stream is a prefix of the blob: if the server serves
  \<open>B\<close> in consecutive bytes, then however often the stream breaks and is resumed, with a 206 or
  with a 200 whose start is skipped, and wherever a Close interferes, the bytes read so far are
  the first bytes of \<open>B\<close>, without a gap and without a repetition; and a read that reports
  \<open>io.EOF\<close> has delivered content of the requested digest.
\<close>

theorem pull_prefix:
  assumes "pull E digest_check c repo dgst opts h = (Inr p, h1)" and "single_stream p = Some v"
    and "read_seq (stream_reader E verified c target) ns v h1 = ((d, e), v', h2)" and "serves E B"
  shows "d = take (length d) B \<and> (is_eof e \<longrightarrow> verified dgst d)"
  by (rule pull_delivers [OF assms])

text \<open>
  C34. \<open>Pull\<close> leaks nothing: after a failed call, or after any sequence of reads of a single
  stream followed by \<open>Close\<close>, every response body received on the way, by the first request, by
  the probe or by a reconnect, is closed, and every request was sent by its proper transport.
\<close>

theorem pull_closed:
  "case pull E digest_check c repo dgst opts h of
     (Inl e, h1) \<Rightarrow> settled E {} h h1
   | (Inr p, h1) \<Rightarrow>
       (case single_stream p of
          None \<Rightarrow> settled E (source_owned (pr_body (vr_body p))) h h1
        | Some v \<Rightarrow>
            (case read_seq (stream_reader E verified c target) ns v h1 of
               (out, v', h2) \<Rightarrow>
                 (case resume_close (pr_body (vr_body v')) h2 of (r, h3) \<Rightarrow> settled E {} h h3)))"
proof -
  obtain out h1 where p: "pull E digest_check c repo dgst opts h = (out, h1)" by (metis surj_pair)
  note ok = pull_opened [OF p, THEN conjunct1]
  show ?thesis
  proof (cases out)
    case (Inl e)
    with p ok show ?thesis by (simp add: opened_ok_def)
  next
    case (Inr q)
    show ?thesis
    proof (cases "pr_body (vr_body q)")
      case (ParallelChunks k)
      with p ok Inr show ?thesis by (simp add: opened_ok_def single_stream_def)
    next
      case (SingleStream r)
      then obtain v where v: "single_stream q = Some v" "pr_body (vr_body v) = r" by (simp add: single_stream_def)
      obtain d e v' h2 where rd: "read_seq (stream_reader E verified c target) ns v h1 = ((d, e), v', h2)"
        by (metis prod_cases4 surj_pair)
      obtain r' h3 where cl: "resume_close (pr_body (vr_body v')) h2 = (r', h3)" by (metis surj_pair)
      from ok Inr SingleStream have s: "settled E (rm_owned r) h h1" "rm_shut r"
        by (simp_all add: opened_ok_def source_owned_def source_ready_def)
      have "rm_shut (pr_body (vr_body v'))" using stream_seq_run [OF rd] s(2) v(2) by blast
      then have "passes E (rm_owned (pr_body (vr_body v'))) h2 {} h3"
        using resume_close_passes [OF cl] by (simp add: rm_shut_def)
      with pulled_bytes.read_seq_passes [OF rd] passes_settled [OF s(1)] v(2)
      have "passes E {} h {} h3" using passes_trans by blast
      with p Inr v(1) rd cl passes_settledD show ?thesis by simp
    qed
  qed
qed


text \<open>A blob of six bytes; every body breaks after two.\<close>

definition breaking_trip :: "side \<Rightarrow> history \<Rightarrow> request \<Rightarrow> round_trip" where
  "breaking_trip s h req =
     (if header_get (rq_header req) ''Range'' = ''bytes=2-'' then
        Reply 206 [(''Content-Range'', ''bytes 2-5/6'')] 4
      else if header_get (rq_header req) ''Range'' = ''bytes=4-'' then
        Reply 206 [(''Content-Range'', ''bytes 4-5/6'')] 2
      else Reply 200 [] 6)"

definition breaking_env :: env where
  "breaking_env = one_shot_env breaking_trip [1, 2, 3, 4, 5, 6] 2 (Opaque 0)"

definition six_bytes :: "string \<Rightarrow> byte list \<Rightarrow> bool" where
  "six_bytes d bytes \<longleftrightarrow> bytes = [1, 2, 3, 4, 5, 6]"

definition stream_run :: "env \<Rightarrow> client \<Rightarrow> nat list \<Rightarrow> (byte list \<times> goerr option) option" where
  "stream_run E c ns =
     (case pull E (\<lambda>d. None) c sample_repo ''sha256:x'' [] [] of
        (Inr p, h) \<Rightarrow>
          (case single_stream p of
             Some v \<Rightarrow> Some (fst (read_seq (stream_reader E six_bytes c sample_url) ns v h))
           | None \<Rightarrow> None)
      | (Inl e, h) \<Rightarrow> None)"

lemma breaking_run: "stream_run breaking_env sample_client [8, 8, 8, 8] = Some ([1, 2, 3, 4, 5, 6], Some eof)"
  by code_simp

lemma pull_prefix_witness:
  "\<exists>d. stream_run breaking_env sample_client [8, 8, 8, 8] = Some (d, Some eof) \<and>
    d = take (length d) [1, 2, 3, 4, 5, 6] \<and> six_bytes ''sha256:x'' d"
proof -
  obtain out h1 where run: "pull breaking_env (\<lambda>d. None) sample_client sample_repo ''sha256:x'' [] [] = (out, h1)"
    by (metis surj_pair)
  with breaking_run obtain p where p: "out = Inr p" by (cases out) (auto simp: stream_run_def)
  with breaking_run run obtain v where v: "single_stream p = Some v"
    by (cases "single_stream p") (auto simp: stream_run_def)
  obtain d e v' h2 where rd: "read_seq (stream_reader breaking_env six_bytes sample_client sample_url) [8, 8, 8, 8] v h1
      = ((d, e), v', h2)" by (metis prod_cases4 surj_pair)
  have served: "serves breaking_env [1, 2, 3, 4, 5, 6]" by (simp add: breaking_env_def one_shot_serves)
  have de: "d = [1, 2, 3, 4, 5, 6]" "e = Some eof"
    using breaking_run unfolding stream_run_def run p prod.case sum.case v option.case rd fst_conv by simp_all
  have "is_eof e" by (simp add: de(2) is_eof_def errors_is_def eof_def)
  with pull_prefix [OF run [unfolded p] v rd served] breaking_run de(1) show ?thesis by blast
qed

text \<open>The same server, but every request after the first finds its connection closed.\<close>

definition severed_env :: env where
  "severed_env = breaking_env\<lparr>en_trip := (\<lambda>s h req.
     if header_get (rq_header req) ''Range'' = [] then Reply 200 [] 6 else Fail (Internal IoEOF))\<rparr>"

text \<open>
  A lost connection can be reported as corruption: \<open>Pull\<close> promises \<open>ErrDigestMismatch\<close> for
  content that does not hash to the digest, but when the reconnects fail with a transport error
  that wraps \<open>io.EOF\<close> (a peer that closes the connection), that error becomes the result of the
  read, the digest check takes it for the end of the stream, and the caller sees a mismatch for
  a stream that merely broke after two bytes.
\<close>

lemma pull_eof_masquerades:
  "stream_run severed_env sample_client [8, 8] = Some ([1, 2], Some (digest_mismatch ''sha256:x''))"
  by code_simp

end
