(* ===== verification/Puller.thy ===== *)
theory Puller
  imports ParallelPull "HOL-Library.Multiset" "HOL-Library.Sublist"
begin

text \<open>
  parallel.go, the coordination of a parallel pull: one dispatcher, a fixed set of workers, the
  reader that emits chunks in order and \<open>Close\<close>, each a goroutine of its own. A state holds the
  channels, the fields that the lock guards and where each goroutine stands; a step is one
  critical section or one communication of one of them. The fetch of a task is a parameter \<open>F\<close>:
  the outcomes it may have.
\<close>

section \<open>State\<close>

record chunk_result =
  re_index :: int
  re_data :: "goerr + byte list"
  re_slot :: bool

text \<open>The result with all fields zero.\<close>

definition no_result :: chunk_result where
  "no_result = \<lparr>re_index = 0, re_data = Inr [], re_slot = False\<rparr>"

datatype dispatcher = DProbe chunk_task | DLoop | DSend chunk_task | DClosing | DExit

text \<open>
  Where \<open>Read\<close> is, with the size of its buffer: in \<open>readCurrent\<close>, at \<open>takePending\<close>, behind it
  with a result, in the \<open>select\<close>, with a received result before the context check, before
  \<open>resultIsNext\<close>, before \<open>storePending\<close>, with the result of \<open>nextResult\<close>, before \<open>terminalError\<close>.
\<close>

datatype read_pc =
    RIdle
  | RCurrent nat
  | RTake nat
  | RTaken nat chunk_result
  | RSelect nat
  | RGot nat chunk_result
  | RMatch nat chunk_result
  | RStore nat chunk_result
  | RHave nat chunk_result
  | REnd goerr

datatype close_pc = CNone | CCancel "chunk_result list" | CRelease "chunk_result list" | CDrain | CDone

text \<open>
  The workers are alike, so the state counts the idle ones and lists what the others hold.
  \<open>pl_returned\<close> is the error of the latest \<open>Read\<close>, \<open>pl_out\<close> what all reads delivered.
\<close>

record puller =
  pl_limit :: nat
  pl_disp :: dispatcher
  pl_left :: "chunk_task list"
  pl_tasks :: "chunk_task list"
  pl_idle :: nat
  pl_fetching :: "chunk_task list"
  pl_sending :: "chunk_result list"
  pl_results :: "chunk_result list"
  pl_slots :: nat
  pl_pending :: "chunk_result list"
  pl_next :: int
  pl_current :: "byte list"
  pl_current_slot :: bool
  pl_pos :: nat
  pl_err :: "goerr option"
  pl_closed :: bool
  pl_ctx :: "goerr option"
  pl_reader :: read_pc
  pl_closer :: close_pc
  pl_out :: "byte list"
  pl_returned :: "goerr option"

definition start_puller :: "nat \<Rightarrow> chunk_task list \<Rightarrow> puller" where
  "start_puller w ts =
     \<lparr>pl_limit = w, pl_disp = DProbe (hd ts), pl_left = tl ts, pl_tasks = [], pl_idle = w,
      pl_fetching = [], pl_sending = [], pl_results = [], pl_slots = 1, pl_pending = [], pl_next = 0,
      pl_current = [], pl_current_slot = False, pl_pos = 0, pl_err = None, pl_closed = False,
      pl_ctx = None, pl_reader = RIdle, pl_closer = CNone, pl_out = [], pl_returned = None\<rparr>"

definition release_result :: "chunk_result \<Rightarrow> puller \<Rightarrow> puller" where
  "release_result r s = s\<lparr>pl_slots := pl_slots s - (if re_slot r then 1 else 0)\<rparr>"

definition release_current :: "puller \<Rightarrow> puller" where
  "release_current s =
     s\<lparr>pl_slots := pl_slots s - (if pl_current_slot s then 1 else 0),
       pl_current := [], pl_pos := 0, pl_current_slot := False\<rparr>"

text \<open>\<open>results\<close> is closed when the dispatcher has gone, the task channel when it is closing.\<close>

section \<open>Steps\<close>

inductive dispatch_step :: "puller \<Rightarrow> puller \<Rightarrow> bool" where
  dispatch_probe:
    "pl_disp s = DProbe t \<Longrightarrow> length (pl_tasks s) < pl_limit s \<Longrightarrow>
     dispatch_step s (s\<lparr>pl_tasks := pl_tasks s @ [t], pl_disp := DLoop\<rparr>)"
| dispatch_probe_canceled:
    "pl_disp s = DProbe t \<Longrightarrow> pl_ctx s \<noteq> None \<Longrightarrow>
     dispatch_step s (s\<lparr>pl_slots := pl_slots s - 1, pl_disp := DClosing\<rparr>)"
| dispatch_slot:
    "pl_disp s = DLoop \<Longrightarrow> pl_left s = t # ts \<Longrightarrow> pl_slots s < pl_limit s \<Longrightarrow>
     dispatch_step s (s\<lparr>pl_slots := pl_slots s + 1, pl_left := ts, pl_disp := DSend t\<rparr>)"
| dispatch_slot_canceled:
    "pl_disp s = DLoop \<Longrightarrow> pl_left s \<noteq> [] \<Longrightarrow> pl_ctx s \<noteq> None \<Longrightarrow>
     dispatch_step s (s\<lparr>pl_disp := DClosing\<rparr>)"
| dispatch_send:
    "pl_disp s = DSend t \<Longrightarrow> length (pl_tasks s) < pl_limit s \<Longrightarrow>
     dispatch_step s (s\<lparr>pl_tasks := pl_tasks s @ [t], pl_disp := DLoop\<rparr>)"
| dispatch_send_canceled:
    "pl_disp s = DSend t \<Longrightarrow> pl_ctx s \<noteq> None \<Longrightarrow>
     dispatch_step s (s\<lparr>pl_slots := pl_slots s - 1, pl_disp := DClosing\<rparr>)"
| dispatch_end:
    "pl_disp s = DLoop \<Longrightarrow> pl_left s = [] \<Longrightarrow> dispatch_step s (s\<lparr>pl_disp := DClosing\<rparr>)"
| dispatch_close:
    "pl_disp s = DClosing \<Longrightarrow> pl_idle s = 0 \<Longrightarrow> pl_fetching s = [] \<Longrightarrow> pl_sending s = [] \<Longrightarrow>
     dispatch_step s (s\<lparr>pl_disp := DExit\<rparr>)"

inductive work_step :: "(chunk_task \<Rightarrow> goerr + byte list \<Rightarrow> bool) \<Rightarrow> puller \<Rightarrow> puller \<Rightarrow> bool"
  for F :: "chunk_task \<Rightarrow> goerr + byte list \<Rightarrow> bool" where
  work_take:
    "0 < pl_idle s \<Longrightarrow> pl_tasks s = t # ts \<Longrightarrow>
     work_step F s (s\<lparr>pl_idle := pl_idle s - 1, pl_tasks := ts, pl_fetching := t # pl_fetching s\<rparr>)"
| work_exit:
    "0 < pl_idle s \<Longrightarrow> pl_tasks s = [] \<Longrightarrow> pl_disp s = DClosing \<Longrightarrow>
     work_step F s (s\<lparr>pl_idle := pl_idle s - 1\<rparr>)"
| work_finish:
    "pl_fetching s = xs @ t # ys \<Longrightarrow> F t out \<Longrightarrow>
     work_step F s
       (s\<lparr>pl_fetching := xs @ ys,
          pl_sending := \<lparr>re_index = ct_index t, re_data = out, re_slot = True\<rparr> # pl_sending s\<rparr>)"
| work_send:
    "pl_sending s = xs @ r # ys \<Longrightarrow> length (pl_results s) < pl_limit s \<Longrightarrow>
     work_step F s
       (s\<lparr>pl_sending := xs @ ys, pl_results := pl_results s @ [r], pl_idle := pl_idle s + 1\<rparr>)"
| work_drop:
    "pl_sending s = xs @ r # ys \<Longrightarrow> pl_ctx s \<noteq> None \<Longrightarrow>
     work_step F s (release_result r (s\<lparr>pl_sending := xs @ ys, pl_idle := pl_idle s + 1\<rparr>))"

text \<open>One \<open>Read\<close> at a time, as \<open>io.Reader\<close> has it.\<close>

inductive read_step :: "puller \<Rightarrow> puller \<Rightarrow> bool" where
  read_call: "pl_reader s = RIdle \<Longrightarrow> read_step s (s\<lparr>pl_reader := RCurrent n\<rparr>)"
| read_sticky:
    "pl_reader s = RCurrent n \<Longrightarrow> pl_err s = Some e \<Longrightarrow>
     read_step s (s\<lparr>pl_reader := RIdle, pl_returned := Some e\<rparr>)"
| read_canceled:
    "pl_reader s = RCurrent n \<Longrightarrow> pl_err s = None \<Longrightarrow> pl_ctx s = Some e \<Longrightarrow>
     read_step s (s\<lparr>pl_reader := RIdle, pl_err := Some e, pl_returned := Some e\<rparr>)"
| read_empty:
    "pl_reader s = RCurrent 0 \<Longrightarrow> pl_err s = None \<Longrightarrow> pl_ctx s = None \<Longrightarrow>
     read_step s (s\<lparr>pl_reader := RIdle, pl_returned := None\<rparr>)"
| read_serve:
    "pl_reader s = RCurrent n \<Longrightarrow> pl_err s = None \<Longrightarrow> pl_ctx s = None \<Longrightarrow> 0 < n \<Longrightarrow>
     pl_pos s < length (pl_current s) \<Longrightarrow>
     read_step s
       (s\<lparr>pl_reader := RIdle, pl_returned := None,
          pl_out := pl_out s @ take n (drop (pl_pos s) (pl_current s)),
          pl_pos := pl_pos s + length (take n (drop (pl_pos s) (pl_current s)))\<rparr>)"
| read_exhausted:
    "pl_reader s = RCurrent n \<Longrightarrow> pl_err s = None \<Longrightarrow> pl_ctx s = None \<Longrightarrow> 0 < n \<Longrightarrow>
     length (pl_current s) \<le> pl_pos s \<Longrightarrow>
     read_step s (release_current (s\<lparr>pl_reader := RTake n\<rparr>))"
| take_pending:
    "pl_reader s = RTake n \<Longrightarrow> pl_pending s = xs @ r # ys \<Longrightarrow> re_index r = pl_next s \<Longrightarrow>
     read_step s (s\<lparr>pl_pending := xs @ ys, pl_reader := RTaken n r\<rparr>)"
| take_none:
    "pl_reader s = RTake n \<Longrightarrow> list_all (\<lambda>r. re_index r \<noteq> pl_next s) (pl_pending s) \<Longrightarrow>
     read_step s (s\<lparr>pl_reader := RSelect n\<rparr>)"
| taken_ok:
    "pl_reader s = RTaken n r \<Longrightarrow> pl_ctx s = None \<Longrightarrow> read_step s (s\<lparr>pl_reader := RHave n r\<rparr>)"
| taken_canceled:
    "pl_reader s = RTaken n r \<Longrightarrow> pl_ctx s = Some e \<Longrightarrow>
     read_step s (release_result r (s\<lparr>pl_reader := REnd e\<rparr>))"
| select_receive:
    "pl_reader s = RSelect n \<Longrightarrow> pl_results s = r # rs \<Longrightarrow>
     read_step s (s\<lparr>pl_results := rs, pl_reader := RGot n r\<rparr>)"
| select_closed:
    "pl_reader s = RSelect n \<Longrightarrow> pl_results s = [] \<Longrightarrow> pl_disp s = DExit \<Longrightarrow>
     read_step s (s\<lparr>pl_reader := REnd eof\<rparr>)"
| select_done:
    "pl_reader s = RSelect n \<Longrightarrow> pl_ctx s = Some e \<Longrightarrow> read_step s (s\<lparr>pl_reader := REnd e\<rparr>)"
| got_ok: "pl_reader s = RGot n r \<Longrightarrow> pl_ctx s = None \<Longrightarrow> read_step s (s\<lparr>pl_reader := RMatch n r\<rparr>)"
| got_canceled:
    "pl_reader s = RGot n r \<Longrightarrow> pl_ctx s = Some e \<Longrightarrow>
     read_step s (release_result r (s\<lparr>pl_reader := REnd e\<rparr>))"
| match_next:
    "pl_reader s = RMatch n r \<Longrightarrow> re_index r = pl_next s \<Longrightarrow>
     read_step s (s\<lparr>pl_reader := RHave n r\<rparr>)"
| match_later:
    "pl_reader s = RMatch n r \<Longrightarrow> re_index r \<noteq> pl_next s \<Longrightarrow>
     read_step s (s\<lparr>pl_reader := RStore n r\<rparr>)"
| store_pending:
    "pl_reader s = RStore n r \<Longrightarrow> \<not> pl_closed s \<Longrightarrow>
     read_step s
       (s\<lparr>pl_pending := r # filter (\<lambda>x. re_index x \<noteq> re_index r) (pl_pending s), pl_reader := RTake n\<rparr>)"
| store_closed:
    "pl_reader s = RStore n r \<Longrightarrow> pl_closed s \<Longrightarrow>
     read_step s
       (release_result r
          (s\<lparr>pl_reader := (case pl_ctx s of Some e \<Rightarrow> REnd e | None \<Rightarrow> RHave n no_result)\<rparr>))"
| have_error:
    "pl_reader s = RHave n r \<Longrightarrow> re_data r = Inl e \<Longrightarrow>
     read_step s (release_result r (s\<lparr>pl_reader := REnd e\<rparr>))"
| adopt_result:
    "pl_reader s = RHave n r \<Longrightarrow> re_data r = Inr d \<Longrightarrow> \<not> pl_closed s \<Longrightarrow> pl_ctx s = None \<Longrightarrow>
     read_step s
       (s\<lparr>pl_current := d, pl_current_slot := re_slot r, pl_pos := 0, pl_next := pl_next s + 1,
          pl_reader := RCurrent n\<rparr>)"
| adopt_closed:
    "pl_reader s = RHave n r \<Longrightarrow> re_data r = Inr d \<Longrightarrow> pl_closed s \<Longrightarrow>
     read_step s (release_result r (s\<lparr>pl_reader := REnd (Internal ErrParallelPullClosed)\<rparr>))"
| adopt_canceled:
    "pl_reader s = RHave n r \<Longrightarrow> re_data r = Inr d \<Longrightarrow> \<not> pl_closed s \<Longrightarrow> pl_ctx s = Some e \<Longrightarrow>
     read_step s (release_result r (s\<lparr>pl_reader := REnd e\<rparr>))"
| terminal_error:
    "pl_reader s = REnd e \<Longrightarrow>
     read_step s
       (s\<lparr>pl_err := Some (case pl_err s of None \<Rightarrow> e | Some x \<Rightarrow> x),
          pl_returned := Some (case pl_err s of None \<Rightarrow> e | Some x \<Rightarrow> x), pl_reader := RIdle\<rparr>)"

inductive close_step :: "puller \<Rightarrow> puller \<Rightarrow> bool" where
  close_call:
    "pl_closer s = CNone \<Longrightarrow>
     close_step s
       (release_current
          (s\<lparr>pl_closed := True,
             pl_err := Some (case pl_err s of None \<Rightarrow> Internal ErrParallelPullClosed | Some x \<Rightarrow> x),
             pl_pending := [], pl_closer := CCancel (pl_pending s)\<rparr>))"
| close_cancel:
    "pl_closer s = CCancel rs \<Longrightarrow>
     close_step s
       (s\<lparr>pl_ctx := Some (case pl_ctx s of None \<Rightarrow> Internal CtxCanceled | Some x \<Rightarrow> x),
          pl_closer := CRelease rs\<rparr>)"
| close_release:
    "pl_closer s = CRelease (r # rs) \<Longrightarrow>
     close_step s (release_result r (s\<lparr>pl_closer := CRelease rs\<rparr>))"
| close_return: "pl_closer s = CRelease [] \<Longrightarrow> close_step s (s\<lparr>pl_closer := CDrain\<rparr>)"
| drain_result:
    "pl_closer s = CDrain \<Longrightarrow> pl_results s = r # rs \<Longrightarrow>
     close_step s (release_result r (s\<lparr>pl_results := rs\<rparr>))"
| drain_end:
    "pl_closer s = CDrain \<Longrightarrow> pl_results s = [] \<Longrightarrow> pl_disp s = DExit \<Longrightarrow>
     close_step s (s\<lparr>pl_closer := CDone\<rparr>)"

text \<open>The goroutines interleave; the caller's context may end at any time.\<close>

inductive pull_step :: "(chunk_task \<Rightarrow> goerr + byte list \<Rightarrow> bool) \<Rightarrow> puller \<Rightarrow> puller \<Rightarrow> bool"
  for F :: "chunk_task \<Rightarrow> goerr + byte list \<Rightarrow> bool" where
  by_dispatcher: "dispatch_step s s' \<Longrightarrow> pull_step F s s'"
| by_worker: "work_step F s s' \<Longrightarrow> pull_step F s s'"
| by_reader: "read_step s s' \<Longrightarrow> pull_step F s s'"
| by_closer: "close_step s s' \<Longrightarrow> pull_step F s s'"
| by_caller:
    "pl_ctx s = None \<Longrightarrow> e = Internal CtxCanceled \<or> e = Internal CtxDeadlineExceeded \<Longrightarrow>
     pull_step F s (s\<lparr>pl_ctx := Some e\<rparr>)"

inductive reached :: "(chunk_task \<Rightarrow> goerr + byte list \<Rightarrow> bool) \<Rightarrow> nat \<Rightarrow> chunk_task list \<Rightarrow> puller \<Rightarrow> bool"
  for F :: "chunk_task \<Rightarrow> goerr + byte list \<Rightarrow> bool" and w :: nat and ts :: "chunk_task list" where
  start: "reached F w ts (start_puller w ts)"
| onward: "reached F w ts s \<Longrightarrow> pull_step F s s' \<Longrightarrow> reached F w ts s'"

section \<open>Who holds what\<close>

fun disp_holds :: "dispatcher \<Rightarrow> chunk_task list" where
  "disp_holds (DProbe t) = [t]"
| "disp_holds (DSend t) = [t]"
| "disp_holds d = []"

fun reader_holds :: "read_pc \<Rightarrow> chunk_result list" where
  "reader_holds (RTaken n r) = [r]"
| "reader_holds (RGot n r) = [r]"
| "reader_holds (RMatch n r) = [r]"
| "reader_holds (RStore n r) = [r]"
| "reader_holds (RHave n r) = [r]"
| "reader_holds p = []"

fun closer_holds :: "close_pc \<Rightarrow> chunk_result list" where
  "closer_holds (CCancel rs) = rs"
| "closer_holds (CRelease rs) = rs"
| "closer_holds p = []"

definition tasks_of :: "puller \<Rightarrow> chunk_task list" where
  "tasks_of s = disp_holds (pl_disp s) @ pl_tasks s @ pl_fetching s"

definition results_of :: "puller \<Rightarrow> chunk_result list" where
  "results_of s = pl_sending s @ pl_results s @ pl_pending s @ reader_holds (pl_reader s) @ closer_holds (pl_closer s)"

text \<open>\<open>Read\<close> waits for a chunk.\<close>

fun awaiting :: "read_pc \<Rightarrow> bool" where
  "awaiting RIdle = False"
| "awaiting (RCurrent n) = False"
| "awaiting (REnd e) = False"
| "awaiting p = True"

lemmas holds_defs = tasks_of_def results_of_def release_result_def release_current_def no_result_def

lemmas steps_cases = dispatch_step.cases work_step.cases read_step.cases close_step.cases

text \<open>An invariant of every goroutine's steps is one of the machine.\<close>

lemma pull_step_rule:
  assumes "pull_step F s s'"
    and "dispatch_step s s' \<Longrightarrow> Q" and "work_step F s s' \<Longrightarrow> Q" and "read_step s s' \<Longrightarrow> Q"
    and "close_step s s' \<Longrightarrow> Q"
    and "\<And>e. pl_ctx s = None \<Longrightarrow> s' = s\<lparr>pl_ctx := Some e\<rparr> \<Longrightarrow> Q"
  shows Q
  using assms(1)
proof cases
  case (by_caller e)
  then show ?thesis by (intro assms(6))
qed (blast intro: assms)+

section \<open>The simple invariants\<close>

text \<open>\<open>Close\<close>, its context and the sticky error belong together, and a waiting \<open>Read\<close> has no chunk.\<close>

definition close_inv :: "puller \<Rightarrow> bool" where
  "close_inv s \<longleftrightarrow>
     (pl_closed s \<longleftrightarrow> pl_closer s \<noteq> CNone) \<and> (pl_closed s \<longrightarrow> pl_err s \<noteq> None) \<and>
     ((\<forall>rs. pl_closer s \<noteq> CCancel rs) \<and> pl_closed s \<longrightarrow> pl_ctx s \<noteq> None) \<and>
     (awaiting (pl_reader s) \<longrightarrow> pl_current s = [] \<and> \<not> pl_current_slot s \<and> pl_pos s = 0 \<and> (pl_err s \<noteq> None \<longrightarrow> pl_closed s)) \<and>
     pl_pos s \<le> length (pl_current s) \<and> (pl_closed s \<longrightarrow> pl_current s = [] \<and> \<not> pl_current_slot s)"

lemma close_inv_step: "pull_step F s s' \<Longrightarrow> close_inv s \<Longrightarrow> close_inv s'"
proof (erule pull_step_rule)
  assume i: "close_inv s"
  {
    assume "dispatch_step s s'"
    then show "close_inv s'" using i by cases (auto simp: close_inv_def)
  next
    assume "work_step F s s'"
    then show "close_inv s'" using i by cases (auto simp: close_inv_def release_result_def)
  next
    assume "read_step s s'"
    then show "close_inv s'"
      using i by cases (auto simp: close_inv_def release_result_def release_current_def split: option.splits)
  next
    assume "close_step s s'"
    then show "close_inv s'"
      using i by cases (auto simp: close_inv_def release_result_def release_current_def)
  next
    fix e assume "s' = s\<lparr>pl_ctx := Some e\<rparr>"
    then show "close_inv s'" using i by (auto simp: close_inv_def)
  }
qed

lemma close_inv_reached: "reached F w ts s \<Longrightarrow> close_inv s"
proof (induction rule: reached.induct)
  case start
  show ?case by (simp add: close_inv_def start_puller_def)
next
  case (onward s s')
  then show ?case by (blast intro: close_inv_step)
qed


lemma reached_inv:
  assumes "reached F w ts s" and "I (start_puller w ts)"
    and "\<And>s s'. reached F w ts s \<Longrightarrow> pull_step F s s' \<Longrightarrow> I s \<Longrightarrow> I s'"
  shows "I s"
  using assms by (induction rule: reached.induct) auto

section \<open>Order\<close>

text \<open>
  What the machine relies on of the fetches: a task of the schedule has an outcome, its data are
  the bytes of its window, and a failure is not the value \<open>io.EOF\<close> itself.
\<close>

locale chunk_fetches =
  fixes F :: "chunk_task \<Rightarrow> goerr + byte list \<Rightarrow> bool"
    and B :: "byte list"
    and good :: "chunk_task \<Rightarrow> bool"
  assumes fetch_exact: "good t \<Longrightarrow> F t (Inr d) \<Longrightarrow> d = task_bytes B t"
    and fetch_not_eof: "good t \<Longrightarrow> F t (Inl e) \<Longrightarrow> e \<noteq> eof"
    and fetch_returns: "good t \<Longrightarrow> \<exists>out. F t out"

definition scheduled :: "(chunk_task \<Rightarrow> bool) \<Rightarrow> chunk_task list \<Rightarrow> bool" where
  "scheduled good ts \<longleftrightarrow> ts \<noteq> [] \<and> map ct_index ts = map int [0..<length ts] \<and> list_all good ts"

definition task_in :: "chunk_task list \<Rightarrow> chunk_task \<Rightarrow> bool" where
  "task_in ts t \<longleftrightarrow> 0 \<le> ct_index t \<and> ct_index t < int (length ts) \<and> ts ! nat (ct_index t) = t"

definition result_in :: "byte list \<Rightarrow> chunk_task list \<Rightarrow> chunk_result \<Rightarrow> bool" where
  "result_in B ts r \<longleftrightarrow>
     re_slot r \<and> 0 \<le> re_index r \<and> re_index r < int (length ts) \<and>
     (case re_data r of Inr d \<Rightarrow> d = task_bytes B (ts ! nat (re_index r)) | Inl e \<Rightarrow> e \<noteq> eof)"

fun reader_in :: "byte list \<Rightarrow> chunk_task list \<Rightarrow> int \<Rightarrow> bool \<Rightarrow> read_pc \<Rightarrow> bool" where
  "reader_in B ts nxt closed (RTaken n r) \<longleftrightarrow> result_in B ts r \<and> re_index r = nxt"
| "reader_in B ts nxt closed (RHave n r) \<longleftrightarrow>
     (result_in B ts r \<and> re_index r = nxt) \<or> (r = no_result \<and> closed)"
| "reader_in B ts nxt closed (RGot n r) \<longleftrightarrow> result_in B ts r"
| "reader_in B ts nxt closed (RMatch n r) \<longleftrightarrow> result_in B ts r"
| "reader_in B ts nxt closed (RStore n r) \<longleftrightarrow> result_in B ts r"
| "reader_in B ts nxt closed p \<longleftrightarrow> True"

lemma reader_in_closed: "reader_in B ts nxt closed p \<Longrightarrow> reader_in B ts nxt True p"
  by (cases p) auto

definition order_inv :: "byte list \<Rightarrow> chunk_task list \<Rightarrow> puller \<Rightarrow> bool" where
  "order_inv B ts s \<longleftrightarrow>
     list_all (task_in ts) (disp_holds (pl_disp s) @ pl_left s @ pl_tasks s @ pl_fetching s) \<and>
     list_all (result_in B ts) (pl_sending s @ pl_results s @ pl_pending s @ closer_holds (pl_closer s)) \<and>
     reader_in B ts (pl_next s) (pl_closed s) (pl_reader s) \<and> 0 \<le> pl_next s \<and> pl_next s \<le> int (length ts)"

text \<open>What has been emitted, and what of the current chunk is left.\<close>

definition emitted_inv :: "byte list \<Rightarrow> chunk_task list \<Rightarrow> puller \<Rightarrow> bool" where
  "emitted_inv B ts s \<longleftrightarrow>
     (\<exists>rest. pl_out s @ rest = concat (map (task_bytes B) (take (nat (pl_next s)) ts)) \<and>
       (\<not> pl_closed s \<longrightarrow> rest = drop (pl_pos s) (pl_current s)))"

lemma scheduled_in:
  assumes "scheduled good ts" and "t \<in> set ts"
  shows "task_in ts t" and "good t"
proof -
  from assms(2) obtain i where i: "i < length ts" "t = ts ! i" by (metis in_set_conv_nth)
  have "map ct_index ts ! i = map int [0..<length ts] ! i" using assms(1) by (simp add: scheduled_def)
  with i have "ct_index t = int i" by simp
  with i show "task_in ts t" by (simp add: task_in_def)
  from assms show "good t" by (auto simp: scheduled_def list_all_iff)
qed

lemma drop_drop_take: "take n (drop k xs) @ drop (k + min (length xs - k) n) xs = drop k xs"
proof (cases "n \<le> length xs - k")
  case True
  then have "drop (k + min (length xs - k) n) xs = drop n (drop k xs)" by (simp add: min_def add.commute)
  then show ?thesis by (simp only: append_take_drop_id)
qed simp

context chunk_fetches begin

lemma finished_in:
  assumes "scheduled good ts" and "task_in ts t" and "F t out"
  shows "result_in B ts \<lparr>re_index = ct_index t, re_data = out, re_slot = True\<rparr>"
proof -
  have "t \<in> set ts" using assms(2) by (auto simp: task_in_def in_set_conv_nth intro!: exI [of _ "nat (ct_index t)"])
  then have "good t" by (rule scheduled_in [OF assms(1)])
  with assms show ?thesis
    by (auto simp: result_in_def task_in_def fetch_exact dest: fetch_not_eof split: sum.split)
qed

lemma order_inv_step:
  assumes "scheduled good ts" and "pull_step F s s'" and i: "order_inv B ts s" and c: "close_inv s"
  shows "order_inv B ts s'"
  using assms(2)
proof (rule pull_step_rule)
  {
    assume "dispatch_step s s'"
    then show ?thesis using i by cases (auto simp: order_inv_def)
  next
    assume "work_step F s s'"
    then show ?thesis
      using i finished_in [OF assms(1)] by cases (auto simp: order_inv_def release_result_def)
  next
    assume "read_step s s'"
    then show ?thesis
      using i by cases
        (auto simp: order_inv_def release_result_def release_current_def result_in_def
          no_result_def list_all_iff split: option.splits)
  next
    assume "close_step s s'"
    then show ?thesis
      using i by cases (auto simp: order_inv_def release_result_def release_current_def
          intro: reader_in_closed)
  next
    fix e assume "s' = s\<lparr>pl_ctx := Some e\<rparr>"
    then show ?thesis using i by (auto simp: order_inv_def)
  }
qed

lemma emitted_inv_step:
  assumes "pull_step F s s'" and i: "emitted_inv B ts s" and o: "order_inv B ts s" and c: "close_inv s"
  shows "emitted_inv B ts s'"
  using assms(1)
proof (rule pull_step_rule)
  {
    assume "dispatch_step s s'"
    then show ?thesis using i by cases (auto simp: emitted_inv_def)
  next
    assume "work_step F s s'"
    then show ?thesis using i by cases (auto simp: emitted_inv_def release_result_def)
  next
    assume "close_step s s'"
    then show ?thesis using i by cases (auto simp: emitted_inv_def release_result_def release_current_def)
  next
    fix e assume "s' = s\<lparr>pl_ctx := Some e\<rparr>"
    then show ?thesis using i by (auto simp: emitted_inv_def)
  next
    assume "read_step s s'"
    then show ?thesis
    proof cases
      case (read_serve n)
      with i c show ?thesis by (auto simp: emitted_inv_def close_inv_def drop_drop_take)
    next
      case (read_exhausted n)
      with i show ?thesis by (auto simp: emitted_inv_def release_current_def)
    next
      case (adopt_result n r d)
      then have r: "result_in B ts r" "re_index r = pl_next s" using o by (auto simp: order_inv_def)
      have n: "nat (pl_next s) < length ts" "nat (pl_next s + 1) = Suc (nat (pl_next s))"
        using r by (auto simp: result_in_def)
      have "pl_out s = concat (map (task_bytes B) (take (nat (pl_next s)) ts))"
        using i c adopt_result by (auto simp: emitted_inv_def close_inv_def)
      then have "pl_out s @ d = concat (map (task_bytes B) (take (nat (pl_next s + 1)) ts))"
        using r n adopt_result by (simp add: result_in_def take_Suc_conv_app_nth)
      with adopt_result show ?thesis by (auto simp: emitted_inv_def)
    qed (use i in \<open>auto simp: emitted_inv_def release_result_def\<close>)
  }
qed

end

section \<open>Tokens and slots\<close>

definition slotted :: "read_pc \<Rightarrow> chunk_result list" where
  "slotted p = filter re_slot (reader_holds p)"

definition task_tokens :: "puller \<Rightarrow> int multiset" where
  "task_tokens s = mset (map ct_index (disp_holds (pl_disp s))) + mset (map ct_index (pl_tasks s)) +
     mset (map ct_index (pl_fetching s))"

definition result_tokens :: "puller \<Rightarrow> int multiset" where
  "result_tokens s = mset (map re_index (pl_sending s)) + mset (map re_index (pl_results s)) +
     mset (map re_index (pl_pending s)) + mset (map re_index (slotted (pl_reader s))) +
     mset (map re_index (closer_holds (pl_closer s)))"

definition tokens :: "puller \<Rightarrow> int multiset" where
  "tokens s = mset (map ct_index (pl_left s)) + task_tokens s + result_tokens s"

lemmas token_defs = tokens_def task_tokens_def result_tokens_def slotted_def

lemma order_slots:
  "order_inv B ts s \<Longrightarrow> list_all re_slot (pl_sending s @ pl_results s @ pl_pending s @ closer_holds (pl_closer s))"
  by (auto simp: order_inv_def list_all_iff result_in_def)

lemma order_reader:
  assumes "order_inv B ts s"
  shows "pl_reader s = RStore n r \<Longrightarrow> re_slot r" and "pl_reader s = RTaken n r \<Longrightarrow> re_slot r"
    and "pl_reader s = RGot n r \<Longrightarrow> re_slot r" and "pl_reader s = RMatch n r \<Longrightarrow> re_slot r"
    and "pl_reader s = RHave n r \<Longrightarrow> \<not> pl_closed s \<Longrightarrow> re_slot r \<and> re_index r = pl_next s"
  using assms by (auto simp: order_inv_def result_in_def)

lemma tokens_step:
  assumes "pull_step F s s'" and o: "order_inv B ts s"
  shows "tokens s' \<subseteq># tokens s"
  using assms(1)
proof (rule pull_step_rule)
  note l = order_slots [OF o]
  {
    assume "dispatch_step s s'"
    then show ?thesis by cases (auto simp: token_defs)
  next
    assume "work_step F s s'"
    then show ?thesis by cases (auto simp: token_defs release_result_def)
  next
    assume "close_step s s'"
    then show ?thesis by cases (auto simp: token_defs release_result_def release_current_def)
  next
    fix e assume "s' = s\<lparr>pl_ctx := Some e\<rparr>"
    then show ?thesis by (auto simp: token_defs)
  next
    assume "read_step s s'"
    then show ?thesis
      using order_reader [OF o]
      by cases (auto simp: token_defs release_result_def release_current_def no_result_def
         intro!: image_mset_subseteq_mono multiset_filter_subset split: option.splits)
  }
qed

definition token_inv :: "chunk_task list \<Rightarrow> puller \<Rightarrow> bool" where
  "token_inv ts s \<longleftrightarrow> tokens s \<subseteq># mset (map int [0..<length ts])"

lemma token_once:
  assumes "token_inv ts s" shows "count (tokens s) i \<le> 1"
proof -
  have "distinct (map int [0..<length ts])" by (simp add: distinct_map)
  then have "count (mset (map int [0..<length ts])) i \<le> 1" by (metis distinct_count_atmost_1 le_numeral_extra(4) nat_le_linear zero_le)
  with mset_subset_eq_count [of "tokens s" "mset (map int [0..<length ts])" i] assms show ?thesis
    by (simp add: token_inv_def)
qed

text \<open>A result that is about to be stored has no twin among the pending ones.\<close>

lemma store_fresh:
  assumes "token_inv ts s" and "order_inv B ts s" and "pl_reader s = RStore n r"
  shows "filter (\<lambda>x. re_index x \<noteq> re_index r) (pl_pending s) = pl_pending s"
proof -
  have "re_slot r" using order_reader(1) [OF assms(2,3)] .
  then have "count (tokens s) (re_index r) \<ge> 1 + count (mset (map re_index (pl_pending s))) (re_index r)"
    using assms(3) by (simp add: token_defs)
  with token_once [OF assms(1), of "re_index r"] have "count (mset (map re_index (pl_pending s))) (re_index r) = 0" by linarith
  then have "re_index r \<notin> set (map re_index (pl_pending s))" by (simp only: count_mset_0_iff not_False_eq_True)
  then show ?thesis by (force simp: filter_id_conv image_iff)
qed

text \<open>Every slot has an owner.\<close>

definition slots_held :: "puller \<Rightarrow> nat" where
  "slots_held s =
     length (disp_holds (pl_disp s)) + length (pl_tasks s) + length (pl_fetching s) + length (pl_sending s) +
     length (pl_results s) + length (pl_pending s) + length (slotted (pl_reader s)) +
     length (closer_holds (pl_closer s)) + (if pl_current_slot s then 1 else 0)"

definition slot_inv :: "puller \<Rightarrow> bool" where
  "slot_inv s \<longleftrightarrow> pl_slots s = slots_held s \<and> pl_slots s \<le> pl_limit s"

lemma slot_inv_step:
  assumes "pull_step F s s'" and i: "slot_inv s" and o: "order_inv B ts s" and t: "token_inv ts s" and c: "close_inv s"
  shows "slot_inv s'"
  using assms(1)
proof (rule pull_step_rule)
  note l = order_slots [OF o]
  note defs = slot_inv_def slots_held_def slotted_def release_result_def release_current_def
  {
    assume "dispatch_step s s'"
    then show ?thesis using i by cases (auto simp: defs)
  next
    assume "work_step F s s'"
    then show ?thesis using i l by cases (auto simp: defs)
  next
    assume "close_step s s'"
    then show ?thesis using i l by cases (auto simp: defs)
  next
    fix e assume "s' = s\<lparr>pl_ctx := Some e\<rparr>"
    then show ?thesis using i by (auto simp: defs)
  next
    assume "read_step s s'"
    then show ?thesis
    proof cases
      case (store_pending n r)
      from store_fresh [OF t o store_pending(2)] order_reader(1) [OF o store_pending(2)] i store_pending
      show ?thesis by (auto simp: defs)
    next
      case (adopt_result n r d)
      with i c order_reader(5) [OF o adopt_result(2)] show ?thesis by (auto simp: defs close_inv_def)
    qed (use i l order_reader [OF o] in \<open>auto simp: defs no_result_def split: option.splits\<close>)
  }
qed

text \<open>While nothing has gone wrong, every chunk from the next one on is on its way exactly once.\<close>

definition healthy :: "puller \<Rightarrow> bool" where
  "healthy s \<longleftrightarrow> \<not> pl_closed s \<and> pl_ctx s = None \<and> pl_err s = None \<and> (\<forall>e. pl_reader s \<noteq> REnd e)"

definition full_inv :: "chunk_task list \<Rightarrow> puller \<Rightarrow> bool" where
  "full_inv ts s \<longleftrightarrow> (healthy s \<longrightarrow> tokens s = mset (map int [nat (pl_next s)..<length ts]))"

lemma full_inv_step:
  assumes "pull_step F s s'" and i: "full_inv ts s" and o: "order_inv B ts s" and t: "token_inv ts s" and c: "close_inv s"
  shows "full_inv ts s'"
  using assms(1)
proof (rule pull_step_rule)
  note defs = full_inv_def healthy_def token_defs release_result_def release_current_def
  {
    assume "dispatch_step s s'"
    then show ?thesis using i by cases (auto simp: defs)
  next
    assume "work_step F s s'"
    then show ?thesis using i by cases (auto simp: defs)
  next
    assume "close_step s s'"
    then show ?thesis using i c by cases (auto simp: defs close_inv_def)
  next
    fix e assume "s' = s\<lparr>pl_ctx := Some e\<rparr>"
    then show ?thesis by (auto simp: defs)
  next
    assume "read_step s s'"
    then show ?thesis
    proof cases
      case (store_pending n r)
      from store_fresh [OF t o store_pending(2)] order_reader(1) [OF o store_pending(2)] i store_pending
      show ?thesis by (auto simp: defs)
    next
      case (adopt_result n r d)
      have r: "result_in B ts r" "re_index r = pl_next s" using o adopt_result by (auto simp: order_inv_def)
      then have n: "nat (pl_next s) < length ts" "int (nat (pl_next s)) = pl_next s"
        "nat (pl_next s + 1) = Suc (nat (pl_next s))" by (auto simp: result_in_def)
      then have "mset (map int [nat (pl_next s)..<length ts])
          = add_mset (pl_next s) (mset (map int [nat (pl_next s + 1)..<length ts]))"
        by (simp add: upt_conv_Cons)
      with i c adopt_result r show ?thesis by (auto simp: defs result_in_def close_inv_def)
    qed (use i c order_slots [OF o] order_reader [OF o] in \<open>auto simp: defs close_inv_def\<close>)
  }
qed

section \<open>The workers and the dispatcher\<close>

definition crew_inv :: "puller \<Rightarrow> bool" where
  "crew_inv s \<longleftrightarrow>
     pl_idle s + length (pl_fetching s) + length (pl_sending s) \<le> pl_limit s \<and>
     (pl_tasks s \<noteq> [] \<or> (pl_disp s \<noteq> DClosing \<and> pl_disp s \<noteq> DExit) \<longrightarrow>
        pl_idle s + length (pl_fetching s) + length (pl_sending s) = pl_limit s) \<and>
     (pl_disp s = DExit \<longrightarrow> pl_idle s = 0 \<and> pl_fetching s = [] \<and> pl_sending s = []) \<and>
     0 < pl_limit s"

lemma crew_inv_step: "pull_step F s s' \<Longrightarrow> crew_inv s \<Longrightarrow> crew_inv s'"
proof (erule pull_step_rule)
  note defs = crew_inv_def release_result_def release_current_def
  assume i: "crew_inv s"
  {
    assume "dispatch_step s s'"
    then show "crew_inv s'" using i by cases (auto simp: defs)
  next
    assume "work_step F s s'"
    then show "crew_inv s'" using i by cases (auto simp: defs)
  next
    assume "read_step s s'"
    then show "crew_inv s'" using i by cases (auto simp: defs split: option.splits)
  next
    assume "close_step s s'"
    then show "crew_inv s'" using i by cases (auto simp: defs)
  next
    fix e assume "s' = s\<lparr>pl_ctx := Some e\<rparr>"
    then show "crew_inv s'" using i by (auto simp: defs)
  }
qed

text \<open>Tasks leave the dispatcher in order.\<close>

definition left_inv :: "puller \<Rightarrow> bool" where
  "left_inv s \<longleftrightarrow>
     sorted_wrt (\<lambda>t u. ct_index t < ct_index u) (pl_left s) \<and>
     (\<forall>t \<in> set (pl_left s). \<forall>i \<in># task_tokens s + result_tokens s. i < ct_index t)"

lemma left_inv_mono:
  assumes "left_inv s" and "pl_left s' = pl_left s" and "tokens s' \<subseteq># tokens s"
  shows "left_inv s'"
proof -
  have "task_tokens s' + result_tokens s' \<subseteq># task_tokens s + result_tokens s"
    using assms(2,3) by (simp add: tokens_def add.assoc)
  then have "set_mset (task_tokens s' + result_tokens s') \<subseteq> set_mset (task_tokens s + result_tokens s)"
    by (rule set_mset_mono)
  with assms(1,2) show ?thesis by (auto simp: left_inv_def)
qed

lemma left_inv_step:
  assumes "pull_step F s s'" and i: "left_inv s" and o: "order_inv B ts s"
  shows "left_inv s'"
proof -
  note mono = left_inv_mono [OF i _ tokens_step [OF assms(1) o]]
  from assms(1) show ?thesis
  proof (rule pull_step_rule)
    {
      assume "dispatch_step s s'"
      then show ?thesis
        using i by cases (auto simp: left_inv_def task_tokens_def result_tokens_def)
    next
      assume "work_step F s s'"
      then have "pl_left s' = pl_left s" by cases (simp_all add: release_result_def)
      then show ?thesis by (rule mono)
    next
      assume "read_step s s'"
      then have "pl_left s' = pl_left s" by cases (simp_all add: release_result_def release_current_def)
      then show ?thesis by (rule mono)
    next
      assume "close_step s s'"
      then have "pl_left s' = pl_left s" by cases (simp_all add: release_result_def release_current_def)
      then show ?thesis by (rule mono)
    next
      fix e assume "s' = s\<lparr>pl_ctx := Some e\<rparr>"
      then show ?thesis by (intro mono) simp
    }
  qed
qed

text \<open>
  A reader in the \<open>select\<close> has looked at all pending results, and a dispatcher that stopped
  without a cancellation had no task left.
\<close>

definition stop_inv :: "puller \<Rightarrow> bool" where
  "stop_inv s \<longleftrightarrow>
     ((\<exists>n. pl_reader s = RSelect n) \<longrightarrow> list_all (\<lambda>r. re_index r \<noteq> pl_next s) (pl_pending s)) \<and>
     (pl_disp s = DClosing \<or> pl_disp s = DExit \<longrightarrow> pl_ctx s = None \<longrightarrow> pl_left s = [])"

lemma stop_inv_step: "pull_step F s s' \<Longrightarrow> stop_inv s \<Longrightarrow> stop_inv s'"
proof (erule pull_step_rule)
  note defs = stop_inv_def release_result_def release_current_def
  assume i: "stop_inv s"
  {
    assume "dispatch_step s s'"
    then show "stop_inv s'" using i by cases (auto simp: defs)
  next
    assume "work_step F s s'"
    then show "stop_inv s'" using i by cases (auto simp: defs)
  next
    assume "read_step s s'"
    then show "stop_inv s'" using i by cases (auto simp: defs split: option.splits)
  next
    assume "close_step s s'"
    then show "stop_inv s'" using i by cases (auto simp: defs)
  next
    fix e assume "s' = s\<lparr>pl_ctx := Some e\<rparr>"
    then show "stop_inv s'" using i by (auto simp: defs)
  }
qed

end
