(* ===== verification/PullerGuarantees.thy ===== *)
theory PullerGuarantees
  imports Puller
begin

text \<open>
  What the goroutines of a parallel pull guarantee together: the bytes come in order and
  complete, the slots bound the memory, a \<open>Read\<close> cannot hang; and what a cancellation can do to
  the end of the stream.
\<close>

section \<open>The end of the stream\<close>

definition eof_inv :: "byte list \<Rightarrow> chunk_task list \<Rightarrow> puller \<Rightarrow> bool" where
  "eof_inv B ts s \<longleftrightarrow>
     (pl_err s = Some eof \<longrightarrow> pl_ctx s \<noteq> None \<or> pl_out s = concat (map (task_bytes B) ts)) \<and>
     (pl_reader s = REnd eof \<longrightarrow>
        pl_ctx s \<noteq> None \<or> pl_closed s \<or> pl_out s = concat (map (task_bytes B) ts))"

text \<open>All invariants together.\<close>

definition pull_inv :: "byte list \<Rightarrow> chunk_task list \<Rightarrow> puller \<Rightarrow> bool" where
  "pull_inv B ts s \<longleftrightarrow>
     close_inv s \<and> order_inv B ts s \<and> emitted_inv B ts s \<and> token_inv ts s \<and> slot_inv s \<and>
     full_inv ts s \<and> crew_inv s \<and> left_inv s \<and> stop_inv s"

lemma channel_end:
  assumes "pull_inv B ts s" and "pl_reader s = RSelect n" and "pl_results s = []" and "pl_disp s = DExit"
    and "pl_ctx s = None" and "\<not> pl_closed s"
  shows "pl_out s = concat (map (task_bytes B) ts)"
proof -
  from assms(1) have c: "close_inv s" and o: "order_inv B ts s" and e: "emitted_inv B ts s"
    and f: "full_inv ts s" and w: "crew_inv s" and st: "stop_inv s" by (simp_all add: pull_inv_def)
  have "healthy s" using assms(2,5,6) c by (auto simp: healthy_def close_inv_def)
  with f have t: "tokens s = mset (map int [nat (pl_next s)..<length ts])" by (simp add: full_inv_def)
  have "pl_left s = []" "pl_fetching s = []" "pl_sending s = []" "pl_tasks s = []" "pl_closer s = CNone"
    using w st c assms(4-6) by (auto simp: crew_inv_def stop_inv_def close_inv_def)
  with assms(2-4) have "tokens s = mset (map re_index (pl_pending s))" by (simp add: token_defs)
  moreover have "pl_next s \<notin> set (map re_index (pl_pending s))"
    using st assms(2) by (auto simp: stop_inv_def list_all_iff)
  ultimately have "pl_next s \<notin># mset (map int [nat (pl_next s)..<length ts])" using t by (metis set_mset_mset)
  moreover have n: "0 \<le> pl_next s" "pl_next s \<le> int (length ts)" using o by (simp_all add: order_inv_def)
  ultimately have "\<not> nat (pl_next s) < length ts" by force
  with n have "nat (pl_next s) = length ts" by simp
  with e c assms(2,6) show ?thesis by (auto simp: emitted_inv_def close_inv_def)
qed

lemma eof_differs: "eof \<noteq> Internal ErrParallelPullClosed" "Internal ErrParallelPullClosed \<noteq> eof"
  by (simp_all add: eof_def)

lemma eof_inv_step:
  assumes "pull_step F s s'" and i: "eof_inv B ts s" and p: "pull_inv B ts s"
  shows "eof_inv B ts s'"
  using assms(1)
proof (rule pull_step_rule)
  note defs = eof_inv_def release_result_def release_current_def
  from p have c: "close_inv s" and o: "order_inv B ts s" by (simp_all add: pull_inv_def)
  {
    assume "dispatch_step s s'"
    then show ?thesis using i by cases (auto simp: defs)
  next
    assume "work_step F s s'"
    then show ?thesis using i by cases (auto simp: defs)
  next
    assume "close_step s s'"
    then show ?thesis using i by cases (auto simp: defs eof_differs split: option.splits)
  next
    fix e assume "s' = s\<lparr>pl_ctx := Some e\<rparr>"
    then show ?thesis using i by (auto simp: defs)
  next
    assume "read_step s s'"
    then show ?thesis
    proof cases
      case (select_closed n)
      with channel_end [OF p select_closed(2-4)] i show ?thesis by (auto simp: defs)
    next
      case (have_error n r e)
      then have "result_in B ts r" using o by (auto simp: order_inv_def no_result_def)
      then have "e \<noteq> eof" using have_error by (simp add: result_in_def)
      with i have_error show ?thesis by (auto simp: defs)
    next
      case (terminal_error e)
      with i c show ?thesis by (auto simp: defs close_inv_def split: option.splits)
    qed (use i in \<open>auto simp: defs eof_differs split: option.splits\<close>)
  }
qed

context chunk_fetches begin

lemma pull_inv_start:
  assumes "scheduled good ts" and "0 < w" shows "pull_inv B ts (start_puller w ts)"
proof -
  from assms(1) have ne: "ts \<noteq> []" and idx: "map ct_index ts = map int [0..<length ts]"
    by (simp_all add: scheduled_def)
  have sp: "hd ts # tl ts = ts" using ne by simp
  have ins: "list_all (task_in ts) ts" using scheduled_in [OF assms(1)] by (simp add: list_all_iff)
  then have "list_all (task_in ts) (hd ts # tl ts)" using sp by simp
  then have "order_inv B ts (start_puller w ts)" by (simp add: order_inv_def start_puller_def)
  moreover have tok: "tokens (start_puller w ts) = mset (map int [0..<length ts])"
  proof -
    have "tokens (start_puller w ts) = mset (map ct_index (hd ts # tl ts))"
      by (simp add: token_defs start_puller_def)
    with sp idx show ?thesis by metis
  qed
  moreover have "left_inv (start_puller w ts)"
  proof -
    have "sorted_wrt (\<lambda>t u. ct_index t < ct_index u) ts"
    proof -
      have "sorted_wrt (<) (map ct_index ts)" unfolding idx by (simp add: sorted_wrt_map)
      then show ?thesis by (simp add: sorted_wrt_map)
    qed
    then have "sorted_wrt (\<lambda>t u. ct_index t < ct_index u) (hd ts # tl ts)" using sp by simp
    then show ?thesis by (simp add: left_inv_def task_tokens_def result_tokens_def slotted_def start_puller_def)
  qed
  ultimately show ?thesis
    using assms(2) by (simp add: pull_inv_def close_inv_def emitted_inv_def token_inv_def slot_inv_def slots_held_def
        full_inv_def crew_inv_def stop_inv_def slotted_def) (simp add: start_puller_def)
qed

lemma pull_inv_step:
  assumes "scheduled good ts" and "pull_step F s s'" and "pull_inv B ts s"
  shows "pull_inv B ts s'"
proof -
  from assms(3) have i: "close_inv s" "order_inv B ts s" "emitted_inv B ts s" "token_inv ts s" "slot_inv s"
    "full_inv ts s" "crew_inv s" "left_inv s" "stop_inv s" by (simp_all add: pull_inv_def)
  have "token_inv ts s'"
    using tokens_step [OF assms(2) i(2)] i(4) subset_mset.trans by (auto simp: token_inv_def)
  with close_inv_step [OF assms(2) i(1)] order_inv_step [OF assms(1,2) i(2,1)]
    emitted_inv_step [OF assms(2) i(3,2,1)] slot_inv_step [OF assms(2) i(5,2,4,1)]
    full_inv_step [OF assms(2) i(6,2,4,1)] crew_inv_step [OF assms(2) i(7)]
    left_inv_step [OF assms(2) i(8,2)] stop_inv_step [OF assms(2) i(9)]
  show ?thesis by (simp add: pull_inv_def)
qed

lemma reached_pull_inv:
  assumes "scheduled good ts" and "0 < w" and "reached F w ts s"
  shows "pull_inv B ts s \<and> eof_inv B ts s"
proof (rule reached_inv [OF assms(3), where I = "\<lambda>s. pull_inv B ts s \<and> eof_inv B ts s"])
  show "pull_inv B ts (start_puller w ts) \<and> eof_inv B ts (start_puller w ts)"
    using pull_inv_start [OF assms(1,2)] by (simp add: eof_inv_def start_puller_def)
  show "pull_step F s s' \<Longrightarrow> pull_inv B ts s \<and> eof_inv B ts s \<Longrightarrow> pull_inv B ts s' \<and> eof_inv B ts s'" for s s'
    using pull_inv_step [OF assms(1)] eof_inv_step by blast
qed

text \<open>The bytes emitted are a prefix of the blob, and all of it at an end without cancellation.\<close>

lemma emitted_prefix:
  assumes "scheduled good ts" and "0 < w" and "reached F w ts s"
  shows "prefix (pl_out s) (concat (map (task_bytes B) ts))"
proof -
  from reached_pull_inv [OF assms] obtain rest where
    "pl_out s @ rest = concat (map (task_bytes B) (take (nat (pl_next s)) ts))"
    by (auto simp: pull_inv_def emitted_inv_def)
  moreover have "concat (map (task_bytes B) ts) = concat (map (task_bytes B) (take (nat (pl_next s)) ts))
      @ concat (map (task_bytes B) (drop (nat (pl_next s)) ts))"
    by (metis append_take_drop_id concat_append map_append)
  ultimately show ?thesis by (metis append.assoc prefixI)
qed

text \<open>
  A reader that waits in the \<open>select\<close> with nothing to receive: somebody else can move. If all
  slots are taken and nobody can, they would all be held by pending results, but the next chunk
  left the dispatcher before any of these.
\<close>

lemma all_slots_pending:
  assumes "pull_inv B ts s" and "pl_reader s = RSelect n" and "healthy s"
    and "pl_tasks s = []" and "pl_fetching s = []" and "pl_sending s = []" and "pl_results s = []"
    and "pl_disp s = DLoop" and "pl_left s = t # us"
  shows "pl_slots s < pl_limit s"
proof (rule ccontr)
  assume full: "\<not> pl_slots s < pl_limit s"
  from assms(1) have c: "close_inv s" and o: "order_inv B ts s" and sl: "slot_inv s" and f: "full_inv ts s"
    and w: "crew_inv s" and l: "left_inv s" and st: "stop_inv s" by (simp_all add: pull_inv_def)
  from c assms(3) have cl: "pl_closer s = CNone" "\<not> pl_closed s" by (simp_all add: close_inv_def healthy_def)
  have "length (pl_pending s) = pl_slots s"
    using sl c assms(2,4-8) cl by (auto simp: slot_inv_def slots_held_def slotted_def close_inv_def)
  with full w obtain r where r: "r \<in> set (pl_pending s)" by (cases "pl_pending s") (auto simp: crew_inv_def)
  have tok: "tokens s = mset (map int [nat (pl_next s)..<length ts])" using f assms(3) by (simp add: full_inv_def)
  have res: "task_tokens s + result_tokens s = mset (map re_index (pl_pending s))"
    using assms(2,4-8) cl by (simp add: task_tokens_def result_tokens_def slotted_def)
  have n: "0 \<le> pl_next s" using o by (simp add: order_inv_def)
  have "re_index r \<in># tokens s" using r by (simp add: token_defs)
  then have rn: "pl_next s \<le> re_index r" "nat (pl_next s) < length ts" using tok n by auto
  then have "pl_next s \<in># tokens s" using tok n by force
  moreover have "pl_next s \<notin># task_tokens s + result_tokens s"
    using st assms(2) unfolding res by (auto simp: stop_inv_def list_all_iff)
  ultimately obtain u where u: "u \<in> set (pl_left s)" "ct_index u = pl_next s" by (auto simp: tokens_def)
  have "re_index r \<in># task_tokens s + result_tokens s" unfolding res using r by simp
  with l u have "re_index r < pl_next s" unfolding left_inv_def by force
  with rn show False by simp
qed

lemma select_not_stuck:
  assumes "scheduled good ts" and inv: "pull_inv B ts s" and sel: "pl_reader s = RSelect n"
    and none: "\<nexists>s'. read_step s s'"
  shows "\<exists>s'. dispatch_step s s' \<or> work_step F s s' \<or> read_step s s' \<or>
    (\<exists>rs. pl_closer s = CCancel rs \<and> close_step s s')"
proof -
  from inv have c: "close_inv s" and o: "order_inv B ts s" and w: "crew_inv s" by (simp_all add: pull_inv_def)
  have res: "pl_results s = []" using sel none select_receive by (metis neq_Nil_conv)
  have ctx: "pl_ctx s = None" using sel none select_done by (metis not_None_eq)
  have disp: "pl_disp s \<noteq> DExit" using sel none select_closed res by metis
  consider (closed) "pl_closed s"
    | (sending) r rs where "pl_sending s = r # rs"
    | (fetching) t us where "pl_fetching s = t # us"
    | (queued) t us where "pl_tasks s = t # us" "pl_sending s = []" "pl_fetching s = []"
    | (quiet) "pl_tasks s = []" "pl_sending s = []" "pl_fetching s = []" "\<not> pl_closed s"
    by (metis neq_Nil_conv)
  then show ?thesis
  proof cases
    case closed
    with c ctx obtain rs where "pl_closer s = CCancel rs" by (auto simp: close_inv_def)
    then show ?thesis by (blast intro: close_cancel)
  next
    case (sending r rs)
    have "length (pl_results s) < pl_limit s" using res w by (simp add: crew_inv_def)
    with sending show ?thesis using work_send [of s "[]" r rs F] by auto
  next
    case (fetching t us)
    then have "task_in ts t" using o by (simp add: order_inv_def)
    then have "t \<in> set ts" by (auto simp: task_in_def in_set_conv_nth intro!: exI [of _ "nat (ct_index t)"])
    then obtain out where "F t out" using fetch_returns scheduled_in(2) [OF assms(1)] by blast
    with fetching show ?thesis using work_finish [of s "[]" t us F out] by auto
  next
    case (queued t us)
    then have "0 < pl_idle s" using w by (simp add: crew_inv_def)
    with queued show ?thesis by (blast intro: work_take)
  next
    case quiet
    then have room: "length (pl_tasks s) < pl_limit s" using w by (simp add: crew_inv_def)
    show ?thesis
    proof (cases "pl_disp s")
      case DLoop
      show ?thesis
      proof (cases "pl_left s")
        case Nil
        with DLoop show ?thesis by (blast intro: dispatch_end)
      next
        case (Cons t us)
        have "healthy s" using c sel ctx quiet(4) by (auto simp: healthy_def close_inv_def)
        from all_slots_pending [OF inv sel this quiet(1,3,2) res DLoop Cons] DLoop Cons
        show ?thesis by (blast intro: dispatch_slot)
      qed
    next
      case DClosing
      show ?thesis
      proof (cases "pl_idle s = 0")
        case True
        with DClosing quiet show ?thesis by (blast intro: dispatch_close)
      next
        case False
        then have "0 < pl_idle s" by simp
        with DClosing quiet show ?thesis by (blast intro: work_exit)
      qed
    qed (use room disp in \<open>blast intro: dispatch_probe dispatch_send\<close>)+
  qed
qed

text \<open>
  Whoever reads can go on, or the dispatcher or a worker can; only between the two halves of
  \<open>Close\<close>, which takes the pending results and then cancels the context, may all of them have to
  wait for the cancellation.
\<close>

lemma not_stuck:
  assumes "scheduled good ts" and "0 < w" and "reached F w ts s" and "pl_reader s \<noteq> RIdle"
  shows "\<exists>s'. dispatch_step s s' \<or> work_step F s s' \<or> read_step s s' \<or>
    (\<exists>rs. pl_closer s = CCancel rs \<and> close_step s s')"
proof (cases "\<exists>s'. read_step s s'")
  case False
  from reached_pull_inv [OF assms(1-3)] have inv: "pull_inv B ts s" by blast
  then have c: "close_inv s" and o: "order_inv B ts s" and sl: "slot_inv s" and f: "full_inv ts s" and w: "crew_inv s"
    and l: "left_inv s" and st: "stop_inv s" by (simp_all add: pull_inv_def)
  obtain n where sel: "pl_reader s = RSelect n"
  proof (cases "pl_reader s")
    case (RCurrent n)
    consider e where "pl_err s = Some e" | e where "pl_err s = None" "pl_ctx s = Some e"
      | "pl_err s = None" "pl_ctx s = None" "n = 0"
      | "pl_err s = None" "pl_ctx s = None" "0 < n" "pl_pos s < length (pl_current s)"
      | "pl_err s = None" "pl_ctx s = None" "0 < n" "length (pl_current s) \<le> pl_pos s" by fastforce
    then show ?thesis using False RCurrent by cases (blast intro: read_step.intros)+
  next
    case (RTake n)
    show ?thesis
    proof (cases "list_all (\<lambda>r. re_index r \<noteq> pl_next s) (pl_pending s)")
      case True
      with RTake False show ?thesis by (blast intro: take_none)
    next
      case False
      then obtain r where "r \<in> set (pl_pending s)" "re_index r = pl_next s" by (auto simp: list_all_iff)
      then obtain xs ys where "pl_pending s = xs @ r # ys" "re_index r = pl_next s" by (meson split_list)
      with RTake \<open>\<nexists>s'. read_step s s'\<close> show ?thesis by (blast intro: take_pending)
    qed
  next
    case (RTaken n r)
    with False show ?thesis by (cases "pl_ctx s") (blast intro: taken_ok taken_canceled)+
  next
    case (RGot n r)
    with False show ?thesis by (cases "pl_ctx s") (blast intro: got_ok got_canceled)+
  next
    case (RMatch n r)
    with False show ?thesis by (cases "re_index r = pl_next s") (blast intro: match_next match_later)+
  next
    case (RStore n r)
    with False show ?thesis by (cases "pl_closed s") (blast intro: store_pending store_closed)+
  next
    case (RHave n r)
    with False show ?thesis
      by (cases "re_data r"; cases "pl_closed s"; cases "pl_ctx s")
        (blast intro: have_error adopt_result adopt_closed adopt_canceled)+
  next
    case (REnd e)
    with False show ?thesis by (blast intro: terminal_error)
  qed (use that assms(4) in auto)
  show ?thesis by (rule select_not_stuck [OF assms(1) inv sel False])
qed blast

end

section \<open>The fetches of the model\<close>

text \<open>The outcomes of \<open>fetchTask\<close> over any faithful server and any history.\<close>

definition task_outcome :: "byte list \<Rightarrow> chunk_task \<Rightarrow> goerr + byte list \<Rightarrow> bool" where
  "task_outcome B t out \<longleftrightarrow>
     (\<exists>E c target pool h res pool' h'.
        ctx_contract E \<and> serves E B \<and> task_ok E h t \<and>
        fetch_task E c target t pool h = (res, pool', h') \<and> out = map_sum (\<lambda>e. e) buf_data res)"

definition fetchable :: "chunk_task \<Rightarrow> bool" where
  "fetchable t \<longleftrightarrow> 0 \<le> ct_start t \<and> 0 \<le> ct_want t \<and> (ct_probe t \<noteq> None \<longrightarrow> ct_start t = 0)"

lemma part_once_not_eof:
  "fetch_range_part_once E c target hdr start final whole buf h = (r, h') \<Longrightarrow> rp_err r \<noteq> Some eof"
  by (auto simp: fetch_range_part_once_def range_part_answer_def unexpected_range_part_def part_failed_def
      wrapf_def eof_def Let_def split: sum.splits prod.splits bool.splits option.splits if_splits)

lemma wait_not_eof: "ctx_contract E \<Longrightarrow> retry_wait E c k after h = (Some e, h') \<Longrightarrow> e \<noteq> eof"
  by (auto simp: retry_wait_def sleep_context_def ctx_err_def eof_def dest: ctx_contract_kind
      split: prod.splits if_splits)

lemma part_turn_not_eof:
  assumes "ctx_contract E" and "part_turn E c target start final whole tries k (buf, h) = Inl (Inl e, buf', h')"
  shows "e \<noteq> eof"
proof -
  obtain r h1 where o: "fetch_range_part_once E c target (range_header start final) start final whole buf h = (r, h1)"
    by (metis surj_pair)
  obtain ce h2 where ct: "ctx_err E h1 = (ce, h2)" by (metis surj_pair)
  show ?thesis
    using assms(2) part_once_not_eof [OF o] ctx_not_eof [OF assms(1) ct] wait_not_eof [OF assms(1)]
    by (auto simp: part_turn_def o ct split: option.splits if_splits prod.splits)
qed

lemma fetch_part_not_eof:
  assumes "ctx_contract E" and "fetch_range_part E c target start final whole (Suc n) buf h = (Inl e, buf', h')"
  shows "e \<noteq> eof"
proof -
  have run: "attempt_loop (part_turn E c target start final whole (Suc n)) (Suc n) 1 (buf, h) = Some (Inl e, buf', h')"
    using part_loop.loop_total [of E c target start final whole n "(buf, h)"] assms(2)
    by (auto simp: fetch_range_part_def)
  have "fst (Inl e :: goerr + int, buf', h') \<noteq> Inl eof"
  proof (rule part_loop.loop_rule [OF run, where P = "\<lambda>k s. True" and Q = "\<lambda>q. fst q \<noteq> Inl eof"])
    fix j and t :: "buffer option \<times> history" and q :: part_outcome
    obtain b g where t: "t = (b, g)" by (metis surj_pair)
    obtain out b2 g2 where q: "q = (out, b2, g2)" by (metis prod_cases3)
    show "part_turn E c target start final whole (Suc n) j t = Inl q \<Longrightarrow> fst q \<noteq> Inl eof"
      using part_turn_not_eof [OF assms(1), of c target start final whole "Suc n" j b g eof b2 g2] by (auto simp: t q)
  qed simp_all
  then show ?thesis by simp
qed

lemma chunk_loop_not_eof:
  "ctx_contract E \<Longrightarrow> chunk_loop E c target start final whole (Suc n) left cursor buf h = (Some e, buf', h') \<Longrightarrow> e \<noteq> eof"
proof (induction left arbitrary: cursor buf h)
  case 0
  then show ?case by (auto simp: chunk_loop.simps eof_def split: if_splits)
next
  case (Suc left)
  show ?case
  proof (cases "cursor > final")
    case True
    with Suc.prems show ?thesis by (simp add: chunk_loop.simps)
  next
    case False
    obtain out buf1 h1 where p: "fetch_range_part E c target cursor final whole (Suc n) buf h = (out, buf1, h1)"
      by (metis prod_cases3)
    with False Suc.prems Suc.IH fetch_part_not_eof [OF Suc.prems(1)] show ?thesis
      by (cases out) (auto simp: chunk_loop.simps [of _ _ _ _ _ _ _ "Suc left"])
  qed
qed

lemma fetch_task_not_eof:
  assumes "ctx_contract E" and "fetch_task E c target t pool h = (Inl e, pool', h')"
  shows "e \<noteq> eof"
proof -
  have chunk: "e' \<noteq> eof" if pos: "0 < tries" and run: "fetch_chunk E c target start want whole tries p g = (Inl e', p', g')"
    for tries start want whole p g p' g' e'
  proof -
    obtain m where m: "tries = Suc m" using pos by (cases tries) auto
    obtain buf p1 where tk: "pool_take p = (buf, p1)" by (metis surj_pair)
    from run tk m chunk_loop_not_eof [OF assms(1)] show ?thesis
      by (auto simp: fetch_chunk_def split: prod.splits option.splits)
  qed
  show ?thesis
  proof (cases "ct_probe t")
    case None
    with assms(2) chunk [OF max_attempts_pos] show ?thesis by (simp add: fetch_task_def)
  next
    case (Some b)
    obtain o1 p1 h1 where r: "read_chunk_into E b (ct_want t) pool h = (o1, p1, h1)" by (metis prod_cases3)
    obtain ce h2 where ct: "ctx_err E (untrack_and_close b h1) = (ce, h2)" by (metis surj_pair)
    from assms(2) Some r ct ctx_not_eof [OF assms(1) ct] show ?thesis
      by (auto simp: fetch_task_def Let_def wrapf_def eof_def dest: chunk [rotated]
          split: sum.splits option.splits if_splits)
  qed
qed

lemma idle_history: "position E (replicate n EvNow) b = 0"
proof -
  have "base_of E (replicate n EvNow) b = 0" by (induction n) auto
  moreover have "taken E (replicate n EvNow) b = 0" by (induction n) (auto simp: event_taken_def)
  ultimately show ?thesis by (simp add: position_def)
qed

lemmas idle_history_Suc = idle_history [of E "Suc n" b for E n b, simplified replicate_Suc]

interpretation fetches: chunk_fetches "task_outcome B" B fetchable for B
proof
  fix t d assume "task_outcome B t (Inr d)"
  then obtain E c target pool h res pool' h' where
    f: "serves E B" "task_ok E h t" "fetch_task E c target t pool h = (res, pool', h')" "Inr d = map_sum (\<lambda>e. e) buf_data res"
    unfolding task_outcome_def by blast
  from fetch_task_runs [OF f(3,2), of B] f(1,4) show "d = task_bytes B t" by (cases res) auto
next
  fix t e assume "task_outcome B t (Inl e)"
  then obtain E c target pool h res pool' h' where
    "ctx_contract E" "fetch_task E c target t pool h = (res, pool', h')" "Inl e = map_sum (\<lambda>e. e) buf_data res"
    unfolding task_outcome_def by blast
  then show "e \<noteq> eof" using fetch_task_not_eof by (cases res) auto
next
  fix t assume t: "fetchable t"
  let ?E = "one_shot_env (\<lambda>s h r. Fail eof) B 0 eof"
  let ?h = "replicate (case ct_probe t of None \<Rightarrow> 0 | Some b \<Rightarrow> Suc b) EvNow"
  have ok: "task_ok ?E ?h t"
    using t by (auto simp: fetchable_def task_ok_def idle_history_Suc split: option.splits)
  obtain res p h where "fetch_task ?E sample_client sample_url t \<lparr>bp_limit = 0, bp_buffers = []\<rparr> ?h = (res, p, h)"
    by (metis prod_cases3)
  with ok one_shot_serves one_shot_contract show "\<exists>out. task_outcome B t out"
    unfolding task_outcome_def by blast
qed

text \<open>A probe answer that \<open>parallelPull\<close> accepts.\<close>

definition usable_probe :: "int \<Rightarrow> content_range \<Rightarrow> bool" where
  "usable_probe chunk cr \<longleftrightarrow>
     0 < chunk \<and> cr_start cr = 0 \<and> 0 \<le> cr_end cr \<and> cr_end cr < chunk \<and> cr_end cr < cr_total cr"

lemma dispatch_scheduled:
  assumes "usable_probe chunk cr" and "dispatch_tasks chunk cr body spent = Some ts"
  shows "scheduled fetchable ts" and "concat (map (task_bytes B) ts) = take (nat (cr_total cr)) B"
proof -
  from assms(1) have u: "0 < chunk" "cr_start cr = 0" "0 \<le> cr_end cr" "cr_end cr < chunk" "cr_end cr < cr_total cr"
    by (simp_all add: usable_probe_def)
  obtain us where us: "dispatch_tasks chunk cr body spent = Some us"
    "map ct_index us = map int [0..<length us]"
    "\<And>B. concat (map (task_bytes B) us) = take (nat (cr_total cr)) B"
    "list_all (\<lambda>t. 0 < ct_want t \<and> ct_want t \<le> chunk \<and> 0 \<le> ct_start t \<and> ct_total t = cr_total cr) us"
    "us = probe_task cr body spent # tl us" "list_all (\<lambda>t. ct_probe t = None) (tl us)"
    by (rule dispatch_tasks_run [OF u]) (rule that; assumption)
  from us(1) assms(2) have eq: "us = ts" by simp
  have p: "set ts \<subseteq> insert (probe_task cr body spent) (set (tl ts))"
    using us(5) unfolding eq by (metis list.simps(15) order_refl)
  have "fetchable t" if t: "t \<in> set ts" for t
  proof -
    have b: "0 \<le> ct_want t" "0 \<le> ct_start t" using us(4) t unfolding eq list_all_iff by force+
    have "t = probe_task cr body spent \<or> ct_probe t = None"
      using t p us(6) unfolding eq list_all_iff by auto
    with b u(2) show ?thesis by (auto simp: fetchable_def probe_task_def)
  qed
  moreover have "ts \<noteq> []" using us(5) unfolding eq by (metis list.distinct(1))
  ultimately show "scheduled fetchable ts" using us(2) unfolding eq scheduled_def list_all_iff by blast
  show "concat (map (task_bytes B) ts) = take (nat (cr_total cr)) B" using us(3) unfolding eq .
qed

end
