(* ===== verification/PullerRuns.thy ===== *)
theory PullerRuns
  imports PullerGuarantees
begin

text \<open>
  Runs of the parallel pull and what they can and cannot do: an executor that follows the step
  relations on concrete data, and the guarantees over all runs, each with a run it applies to.
\<close>

section \<open>Running the machine\<close>

text \<open>An executor of the steps, to follow a run on concrete data.\<close>

datatype action =
    DispatchGo | DispatchStop
  | WorkTake | WorkExit | WorkFinish nat "goerr + byte list" | WorkSend nat | WorkDrop nat
  | ReadCall nat | ReadGo | ReadDone
  | CloseGo | CancelBy goerr

definition without :: "nat \<Rightarrow> 'a list \<Rightarrow> 'a list" where
  "without i xs = take i xs @ drop (Suc i) xs"

fun dispatch_go :: "puller \<Rightarrow> puller option" where
  "dispatch_go s =
     (case pl_disp s of
        DProbe t \<Rightarrow>
          if length (pl_tasks s) < pl_limit s then Some (s\<lparr>pl_tasks := pl_tasks s @ [t], pl_disp := DLoop\<rparr>) else None
      | DLoop \<Rightarrow>
          (case pl_left s of
             [] \<Rightarrow> Some (s\<lparr>pl_disp := DClosing\<rparr>)
           | t # ts \<Rightarrow>
               if pl_slots s < pl_limit s
               then Some (s\<lparr>pl_slots := pl_slots s + 1, pl_left := ts, pl_disp := DSend t\<rparr>) else None)
      | DSend t \<Rightarrow>
          if length (pl_tasks s) < pl_limit s then Some (s\<lparr>pl_tasks := pl_tasks s @ [t], pl_disp := DLoop\<rparr>) else None
      | DClosing \<Rightarrow>
          if pl_idle s = 0 \<and> pl_fetching s = [] \<and> pl_sending s = [] then Some (s\<lparr>pl_disp := DExit\<rparr>) else None
      | DExit \<Rightarrow> None)"

fun dispatch_stop :: "puller \<Rightarrow> puller option" where
  "dispatch_stop s =
     (if pl_ctx s = None then None
      else
        (case pl_disp s of
           DProbe t \<Rightarrow> Some (s\<lparr>pl_slots := pl_slots s - 1, pl_disp := DClosing\<rparr>)
         | DSend t \<Rightarrow> Some (s\<lparr>pl_slots := pl_slots s - 1, pl_disp := DClosing\<rparr>)
         | DLoop \<Rightarrow> if pl_left s \<noteq> [] then Some (s\<lparr>pl_disp := DClosing\<rparr>) else None
         | _ \<Rightarrow> None))"

fun read_current :: "nat \<Rightarrow> puller \<Rightarrow> puller" where
  "read_current n s =
     (case pl_err s of
        Some e \<Rightarrow> s\<lparr>pl_reader := RIdle, pl_returned := Some e\<rparr>
      | None \<Rightarrow>
        (case pl_ctx s of
           Some e \<Rightarrow> s\<lparr>pl_reader := RIdle, pl_err := Some e, pl_returned := Some e\<rparr>
         | None \<Rightarrow>
             if n = 0 then s\<lparr>pl_reader := RIdle, pl_returned := None\<rparr>
             else if pl_pos s < length (pl_current s) then
               s\<lparr>pl_reader := RIdle, pl_returned := None,
                 pl_out := pl_out s @ take n (drop (pl_pos s) (pl_current s)),
                 pl_pos := pl_pos s + length (take n (drop (pl_pos s) (pl_current s)))\<rparr>
             else release_current (s\<lparr>pl_reader := RTake n\<rparr>)))"

fun take_next :: "int \<Rightarrow> chunk_result list \<Rightarrow> (chunk_result list \<times> chunk_result \<times> chunk_result list) option" where
  "take_next k [] = None"
| "take_next k (r # rs) =
     (if re_index r = k then Some ([], r, rs)
      else (case take_next k rs of None \<Rightarrow> None | Some (xs, q, ys) \<Rightarrow> Some (r # xs, q, ys)))"

fun read_go :: "puller \<Rightarrow> puller option" where
  "read_go s =
     (case pl_reader s of
        RIdle \<Rightarrow> None
      | RCurrent n \<Rightarrow> Some (read_current n s)
      | RTake n \<Rightarrow>
          (case take_next (pl_next s) (pl_pending s) of
             Some (xs, r, ys) \<Rightarrow> Some (s\<lparr>pl_pending := xs @ ys, pl_reader := RTaken n r\<rparr>)
           | None \<Rightarrow> Some (s\<lparr>pl_reader := RSelect n\<rparr>))
      | RTaken n r \<Rightarrow>
          (case pl_ctx s of
             None \<Rightarrow> Some (s\<lparr>pl_reader := RHave n r\<rparr>)
           | Some e \<Rightarrow> Some (release_result r (s\<lparr>pl_reader := REnd e\<rparr>)))
      | RSelect n \<Rightarrow>
          (case pl_results s of
             r # rs \<Rightarrow> Some (s\<lparr>pl_results := rs, pl_reader := RGot n r\<rparr>)
           | [] \<Rightarrow> if pl_disp s = DExit then Some (s\<lparr>pl_reader := REnd eof\<rparr>) else None)
      | RGot n r \<Rightarrow>
          (case pl_ctx s of
             None \<Rightarrow> Some (s\<lparr>pl_reader := RMatch n r\<rparr>)
           | Some e \<Rightarrow> Some (release_result r (s\<lparr>pl_reader := REnd e\<rparr>)))
      | RMatch n r \<Rightarrow> Some (s\<lparr>pl_reader := (if re_index r = pl_next s then RHave n r else RStore n r)\<rparr>)
      | RStore n r \<Rightarrow>
          if pl_closed s then
            Some (release_result r
              (s\<lparr>pl_reader := (case pl_ctx s of Some e \<Rightarrow> REnd e | None \<Rightarrow> RHave n no_result)\<rparr>))
          else
            Some (s\<lparr>pl_pending := r # filter (\<lambda>x. re_index x \<noteq> re_index r) (pl_pending s), pl_reader := RTake n\<rparr>)
      | RHave n r \<Rightarrow>
          (case re_data r of
             Inl e \<Rightarrow> Some (release_result r (s\<lparr>pl_reader := REnd e\<rparr>))
           | Inr d \<Rightarrow>
               if pl_closed s then
                 Some (release_result r (s\<lparr>pl_reader := REnd (Internal ErrParallelPullClosed)\<rparr>))
               else
                 (case pl_ctx s of
                    Some e \<Rightarrow> Some (release_result r (s\<lparr>pl_reader := REnd e\<rparr>))
                  | None \<Rightarrow>
                      Some (s\<lparr>pl_current := d, pl_current_slot := re_slot r, pl_pos := 0,
                              pl_next := pl_next s + 1, pl_reader := RCurrent n\<rparr>)))
      | REnd e \<Rightarrow>
          Some (s\<lparr>pl_err := Some (case pl_err s of None \<Rightarrow> e | Some x \<Rightarrow> x),
                  pl_returned := Some (case pl_err s of None \<Rightarrow> e | Some x \<Rightarrow> x), pl_reader := RIdle\<rparr>))"

fun close_go :: "puller \<Rightarrow> puller option" where
  "close_go s =
     (case pl_closer s of
        CNone \<Rightarrow>
          Some (release_current
            (s\<lparr>pl_closed := True,
               pl_err := Some (case pl_err s of None \<Rightarrow> Internal ErrParallelPullClosed | Some x \<Rightarrow> x),
               pl_pending := [], pl_closer := CCancel (pl_pending s)\<rparr>))
      | CCancel rs \<Rightarrow>
          Some (s\<lparr>pl_ctx := Some (case pl_ctx s of None \<Rightarrow> Internal CtxCanceled | Some x \<Rightarrow> x),
                  pl_closer := CRelease rs\<rparr>)
      | CRelease [] \<Rightarrow> Some (s\<lparr>pl_closer := CDrain\<rparr>)
      | CRelease (r # rs) \<Rightarrow> Some (release_result r (s\<lparr>pl_closer := CRelease rs\<rparr>))
      | CDrain \<Rightarrow>
          (case pl_results s of
             r # rs \<Rightarrow> Some (release_result r (s\<lparr>pl_results := rs\<rparr>))
           | [] \<Rightarrow> if pl_disp s = DExit then Some (s\<lparr>pl_closer := CDone\<rparr>) else None)
      | CDone \<Rightarrow> None)"

fun perform :: "action \<Rightarrow> puller \<Rightarrow> puller option" where
  "perform DispatchGo s = dispatch_go s"
| "perform DispatchStop s = dispatch_stop s"
| "perform WorkTake s =
     (case pl_tasks s of
        t # ts \<Rightarrow>
          if 0 < pl_idle s
          then Some (s\<lparr>pl_idle := pl_idle s - 1, pl_tasks := ts, pl_fetching := t # pl_fetching s\<rparr>) else None
      | [] \<Rightarrow> None)"
| "perform WorkExit s =
     (if 0 < pl_idle s \<and> pl_tasks s = [] \<and> pl_disp s = DClosing then Some (s\<lparr>pl_idle := pl_idle s - 1\<rparr>) else None)"
| "perform (WorkFinish i out) s =
     (if i < length (pl_fetching s) then
        Some (s\<lparr>pl_fetching := without i (pl_fetching s),
                pl_sending := \<lparr>re_index = ct_index (pl_fetching s ! i), re_data = out, re_slot = True\<rparr> # pl_sending s\<rparr>)
      else None)"
| "perform (WorkSend i) s =
     (if i < length (pl_sending s) \<and> length (pl_results s) < pl_limit s then
        Some (s\<lparr>pl_sending := without i (pl_sending s), pl_results := pl_results s @ [pl_sending s ! i],
                pl_idle := pl_idle s + 1\<rparr>)
      else None)"
| "perform (WorkDrop i) s =
     (if i < length (pl_sending s) \<and> pl_ctx s \<noteq> None then
        Some (release_result (pl_sending s ! i)
          (s\<lparr>pl_sending := without i (pl_sending s), pl_idle := pl_idle s + 1\<rparr>))
      else None)"
| "perform (ReadCall n) s = (if pl_reader s = RIdle then Some (s\<lparr>pl_reader := RCurrent n\<rparr>) else None)"
| "perform ReadGo s = read_go s"
| "perform ReadDone s =
     (case (pl_reader s, pl_ctx s) of (RSelect n, Some e) \<Rightarrow> Some (s\<lparr>pl_reader := REnd e\<rparr>) | _ \<Rightarrow> None)"
| "perform CloseGo s = close_go s"
| "perform (CancelBy e) s = (if pl_ctx s = None then Some (s\<lparr>pl_ctx := Some e\<rparr>) else None)"

text \<open>What the environment may do: a fetch may have this outcome, a context may end so.\<close>

fun permitted :: "(chunk_task \<Rightarrow> goerr + byte list \<Rightarrow> bool) \<Rightarrow> action \<Rightarrow> puller \<Rightarrow> bool" where
  "permitted F (WorkFinish i out) s \<longleftrightarrow> F (pl_fetching s ! i) out"
| "permitted F (CancelBy e) s \<longleftrightarrow> e = Internal CtxCanceled \<or> e = Internal CtxDeadlineExceeded"
| "permitted F a s \<longleftrightarrow> True"

lemma take_next_some: "take_next k rs = Some (xs, r, ys) \<Longrightarrow> rs = xs @ r # ys \<and> re_index r = k"
  by (induction rs arbitrary: xs) (auto split: if_splits option.splits prod.splits)

lemma take_next_none: "take_next k rs = None \<Longrightarrow> list_all (\<lambda>r. re_index r \<noteq> k) rs"
  by (induction rs) (auto split: if_splits option.splits)

lemma without_split: "i < length xs \<Longrightarrow> xs = take i xs @ xs ! i # drop (Suc i) xs"
  by (rule id_take_nth_drop)

lemma dispatch_go_step: "dispatch_go s = Some s' \<Longrightarrow> dispatch_step s s'"
  by (auto split: dispatcher.splits list.splits if_splits
      intro: dispatch_probe dispatch_slot [simplified] dispatch_send dispatch_end dispatch_close)

lemma dispatch_stop_step: "dispatch_stop s = Some s' \<Longrightarrow> dispatch_step s s'"
  by (auto split: dispatcher.splits if_splits
      intro: dispatch_probe_canceled [simplified] dispatch_slot_canceled dispatch_send_canceled [simplified])

lemma read_current_step: "pl_reader s = RCurrent n \<Longrightarrow> read_step s (read_current n s)"
  using read_serve [of s n] by (auto simp: not_less split: option.splits
      intro: read_sticky read_canceled read_empty read_exhausted)

lemma read_store_step:
  assumes "pl_reader s = RStore n r" and "read_go s = Some s'"
  shows "read_step s s'"
  using assms store_closed [of s n r] store_pending [of s n r] by (auto split: if_splits)

lemma read_end_step: "pl_reader s = REnd e \<Longrightarrow> read_go s = Some s' \<Longrightarrow> read_step s s'"
  using terminal_error [of s e] by auto

lemma read_take_step:
  assumes "pl_reader s = RTake n" and "read_go s = Some s'"
  shows "read_step s s'"
  using assms take_next_none [of "pl_next s" "pl_pending s"] take_next_some [of "pl_next s" "pl_pending s"]
  by (auto split: option.splits prod.splits intro: take_pending take_none)

lemma read_have_step:
  assumes "pl_reader s = RHave n r" and "read_go s = Some s'"
  shows "read_step s s'"
  using assms by (auto split: option.splits sum.splits if_splits intro: have_error adopt_result adopt_closed adopt_canceled)

lemma read_wait_step:
  assumes "pl_reader s = RTaken n r \<or> pl_reader s = RGot n r \<or> pl_reader s = RMatch n r" and "read_go s = Some s'"
  shows "read_step s s'"
  using assms by (auto split: option.splits if_splits intro: taken_ok taken_canceled got_ok got_canceled match_next match_later)

lemma read_select_step:
  assumes "pl_reader s = RSelect n" and "read_go s = Some s'"
  shows "read_step s s'"
  using assms by (auto split: list.splits if_splits intro: select_receive select_closed)

lemma read_go_step:
  assumes "read_go s = Some s'"
  shows "read_step s s'"
proof (cases "pl_reader s")
  case (RCurrent n)
  with assms read_current_step [OF RCurrent] show ?thesis by (simp del: read_current.simps)
qed (use assms in \<open>simp; fail\<close>,
    (blast intro: assms read_store_step read_end_step read_take_step read_have_step read_wait_step read_select_step)+)

lemma close_go_step: "close_go s = Some s' \<Longrightarrow> close_step s s'"
  using close_call [of s] close_cancel [of s]
  by (auto split: close_pc.splits list.splits if_splits intro: close_release close_return drain_result drain_end)

lemma work_go_step:
  assumes "perform a s = Some s'" and "permitted F a s" and "a \<in> {WorkTake, WorkExit} \<or> (\<exists>i out. a = WorkFinish i out)"
  shows "work_step F s s'"
  using assms without_split [of _ "pl_fetching s"]
  by (auto simp: without_def split: if_splits list.splits intro: work_take [simplified] work_exit [simplified] intro!: work_finish)

lemma work_leave_step:
  assumes "perform a s = Some s'" and "a = WorkSend i \<or> a = WorkDrop i"
  shows "work_step F s s'"
  using assms without_split [of i "pl_sending s"]
  by (auto simp: without_def split: if_splits intro!: work_send [simplified] work_drop [simplified])

lemma perform_step:
  assumes "perform a s = Some s'" and "permitted F a s"
  shows "pull_step F s s'"
proof (cases a)
  case (CancelBy e)
  with assms show ?thesis by (auto split: if_splits intro: by_caller)
next
  case (ReadCall n)
  with assms show ?thesis by (auto split: if_splits intro: by_reader read_call)
next
  case ReadDone
  with assms show ?thesis by (auto split: read_pc.splits option.splits intro: by_reader select_done)
next
  case DispatchGo
  with assms show ?thesis by (auto simp del: dispatch_go.simps intro: by_dispatcher dispatch_go_step)
next
  case DispatchStop
  with assms show ?thesis by (auto simp del: dispatch_stop.simps intro: by_dispatcher dispatch_stop_step)
next
  case ReadGo
  with assms show ?thesis by (auto simp del: read_go.simps intro: by_reader read_go_step)
next
  case CloseGo
  with assms show ?thesis by (auto simp del: close_go.simps intro: by_closer close_go_step)
next
  case (WorkSend i)
  with work_leave_step [OF assms(1)] show ?thesis by (blast intro: by_worker)
next
  case (WorkDrop i)
  with work_leave_step [OF assms(1)] show ?thesis by (blast intro: by_worker)
qed (use work_go_step [OF assms] in \<open>auto intro!: by_worker\<close>)

fun performs :: "(chunk_task \<Rightarrow> goerr + byte list \<Rightarrow> bool) \<Rightarrow> action list \<Rightarrow> puller \<Rightarrow> bool" where
  "performs F [] s \<longleftrightarrow> True"
| "performs F (a # as) s \<longleftrightarrow> permitted F a s \<and> (case perform a s of Some s' \<Rightarrow> performs F as s' | None \<Rightarrow> False)"

fun after :: "action list \<Rightarrow> puller \<Rightarrow> puller" where
  "after [] s = s"
| "after (a # as) s = after as (case perform a s of Some s' \<Rightarrow> s' | None \<Rightarrow> s)"

lemma performs_reached: "reached F w ts s \<Longrightarrow> performs F as s \<Longrightarrow> reached F w ts (after as s)"
proof (induction as arbitrary: s)
  case (Cons a as)
  then obtain s' where s': "perform a s = Some s'" "performs F as s'" "permitted F a s"
    by (auto split: option.splits)
  with Cons.IH [OF onward [OF Cons.prems(1) perform_step [OF s'(1,3)]]] show ?case by simp
qed simp

lemma performs_mono:
  "performs F as s \<Longrightarrow> (\<And>t out. F t out \<Longrightarrow> G t out) \<Longrightarrow> performs G as s"
proof (induction as arbitrary: s)
  case (Cons a as)
  have "permitted F a s \<Longrightarrow> permitted G a s" by (cases a) (auto intro: Cons.prems(2))
  with Cons show ?case by (auto split: option.splits)
qed simp

lemma performs_take: "performs F as s \<Longrightarrow> performs F (take n as) s"
proof (induction as arbitrary: n s)
  case (Cons a as)
  then show ?case by (cases n) (auto split: option.splits)
qed simp

section \<open>A run out of order\<close>

text \<open>Six bytes in two chunks with two workers, the second chunk arriving first.\<close>

definition two_chunk_env :: env where
  "two_chunk_env = one_shot_env
     (\<lambda>s h req. Reply 206 [(''Content-Range'', ''bytes 3-5/6'')] 3) [1, 2, 3, 4, 5, 6] 8 eof"

definition two_chunks :: "chunk_task list" where
  "two_chunks =
     [\<lparr>ct_index = 0, ct_start = 0, ct_want = 3, ct_total = 6, ct_probe = Some 0, ct_probe_attempts = 1\<rparr>,
      \<lparr>ct_index = 1, ct_start = 3, ct_want = 3, ct_total = 6, ct_probe = None, ct_probe_attempts = 0\<rparr>]"

definition swapped_run :: "action list" where
  "swapped_run =
     [DispatchGo, WorkTake, DispatchGo, DispatchGo, WorkTake, WorkFinish 0 (Inr [4, 5, 6]), WorkSend 0,
      WorkFinish 0 (Inr [1, 2, 3]), WorkSend 0, DispatchGo, WorkExit, WorkExit, DispatchGo,
      ReadCall 8, ReadGo, ReadGo, ReadGo, ReadGo, ReadGo, ReadGo, ReadGo, ReadGo, ReadGo, ReadGo, ReadGo, ReadGo,
      ReadCall 8, ReadGo, ReadGo, ReadGo, ReadGo, ReadGo,
      ReadCall 8, ReadGo, ReadGo, ReadGo, ReadGo]"

lemma two_chunks_dispatched: "dispatch_tasks 3 \<lparr>cr_start = 0, cr_end = 2, cr_total = 6\<rparr> 0 1 = Some two_chunks"
  by code_simp

lemma two_chunks_outcomes:
  "task_outcome [1, 2, 3, 4, 5, 6] (two_chunks ! 0) (Inr [1, 2, 3])"
  "task_outcome [1, 2, 3, 4, 5, 6] (two_chunks ! 1) (Inr [4, 5, 6])"
proof -
  have run: "task_outcome [1, 2, 3, 4, 5, 6] t (Inr d)"
    if "task_ok two_chunk_env [EvNow] t"
      and "map_sum (\<lambda>e. ()) buf_data (fst (fetch_task two_chunk_env sample_client sample_url t
          \<lparr>bp_limit = 1, bp_buffers = []\<rparr> [EvNow])) = Inr d" for t d
  proof -
    obtain out p h where f: "fetch_task two_chunk_env sample_client sample_url t \<lparr>bp_limit = 1, bp_buffers = []\<rparr> [EvNow]
        = (out, p, h)" by (metis prod_cases3)
    with that(2) have "Inr d = map_sum (\<lambda>e. e) buf_data out" by (cases out) auto
    with f that(1) show ?thesis unfolding task_outcome_def
      by (intro exI conjI) (auto simp: two_chunk_env_def intro: one_shot_serves one_shot_contract)
  qed
  have pos: "position two_chunk_env [EvNow] 0 = 0" by code_simp
  show "task_outcome [1, 2, 3, 4, 5, 6] (two_chunks ! 0) (Inr [1, 2, 3])"
  proof (rule run)
    show "task_ok two_chunk_env [EvNow] (two_chunks ! 0)" by (simp add: task_ok_def two_chunks_def pos)
  qed code_simp
  show "task_outcome [1, 2, 3, 4, 5, 6] (two_chunks ! 1) (Inr [4, 5, 6])"
  proof (rule run)
    show "task_ok two_chunk_env [EvNow] (two_chunks ! 1)" by (simp add: task_ok_def two_chunks_def)
  qed code_simp
qed

definition two_chunk_outcomes :: "chunk_task \<Rightarrow> goerr + byte list \<Rightarrow> bool" where
  "two_chunk_outcomes t out \<longleftrightarrow>
     (t, out) \<in> set [(two_chunks ! 0, Inr [1, 2, 3]), (two_chunks ! 1, Inr [4, 5, 6])]"

lemma two_chunks_may: "two_chunk_outcomes t out \<Longrightarrow> task_outcome [1, 2, 3, 4, 5, 6] t out"
  using two_chunks_outcomes by (auto simp: two_chunk_outcomes_def)

lemma swapped_reached: "reached (task_outcome [1, 2, 3, 4, 5, 6]) 2 two_chunks (after (take n swapped_run) (start_puller 2 two_chunks))"
proof -
  have "performs two_chunk_outcomes swapped_run (start_puller 2 two_chunks)" by code_simp
  then have "performs (task_outcome [1, 2, 3, 4, 5, 6]) (take n swapped_run) (start_puller 2 two_chunks)"
    by (rule performs_take [OF performs_mono]) (rule two_chunks_may)
  then show ?thesis by (rule performs_reached [OF start])
qed


section \<open>The guarantees\<close>

lemma reached_limit: "reached F w ts s \<Longrightarrow> pl_limit s = w"
proof (rule reached_inv [where I = "\<lambda>s. pl_limit s = w"])
  fix s s' assume "pull_step F s s'" and l: "pl_limit s = w"
  from this(1) show "pl_limit s' = w"
    by (rule pull_step_rule) (auto elim!: steps_cases simp: l release_result_def release_current_def)
qed (simp_all add: start_puller_def)

text \<open>
  C2. A parallel pull emits the blob in order: however the workers are scheduled, in which order
  chunks complete, fail or are dropped, and whenever \<open>Close\<close> or a cancellation comes, the bytes
  that reads have delivered are a prefix of the blob; and when the stream ended with \<open>io.EOF\<close>
  while the context was alive, they are the whole blob.
\<close>

theorem puller_in_order:
  assumes "usable_probe chunk cr" and "dispatch_tasks chunk cr body spent = Some ts" and "0 < w"
    and "reached (task_outcome B) w ts s"
  shows "prefix (pl_out s) (take (nat (cr_total cr)) B) \<and>
    (pl_err s = Some eof \<and> pl_ctx s = None \<longrightarrow> pl_out s = take (nat (cr_total cr)) B)"
proof -
  note sch = dispatch_scheduled [OF assms(1,2)]
  have "prefix (pl_out s) (concat (map (task_bytes B) ts))"
    by (rule fetches.emitted_prefix [OF sch(1) assms(3,4)])
  moreover have "eof_inv B ts s" using fetches.reached_pull_inv [OF sch(1) assms(3,4)] by blast
  ultimately show ?thesis unfolding sch(2) [of B] by (auto simp: eof_inv_def sch(2))
qed

lemma puller_in_order_witness:
  "\<exists>s. reached (task_outcome [1, 2, 3, 4, 5, 6]) 2 two_chunks s \<and> pl_err s = Some eof \<and> pl_out s = [1, 2, 3, 4, 5, 6]"
proof -
  let ?s = "after swapped_run (start_puller 2 two_chunks)"
  have "take 40 swapped_run = swapped_run" by code_simp
  then have r: "reached (task_outcome [1, 2, 3, 4, 5, 6]) 2 two_chunks ?s" using swapped_reached [of 40] by metis
  have e: "pl_err ?s = Some eof" "pl_ctx ?s = None" by code_simp+
  have p: "usable_probe 3 \<lparr>cr_start = 0, cr_end = 2, cr_total = 6\<rparr>" by code_simp
  from e puller_in_order [OF p two_chunks_dispatched _ r] have "pl_out ?s = [1, 2, 3, 4, 5, 6]" by (simp del: after.simps)
  with e r show ?thesis by blast
qed

text \<open>
  C10. The memory of a parallel pull is bounded: every open body and every buffer is covered by a
  slot that somebody holds (a worker, a queued or pending result, the reader, the dispatcher
  about to send, or \<open>Close\<close> about to release), no slot is lost or released twice, and there
  are never more than the worker count.
\<close>

theorem puller_slots:
  assumes "usable_probe chunk cr" and "dispatch_tasks chunk cr body spent = Some ts" and "0 < w"
    and "reached (task_outcome B) w ts s"
  shows "pl_slots s = slots_held s \<and> slots_held s \<le> w \<and>
    length (pl_fetching s) + length (pl_sending s) + length (pl_results s) + length (pl_pending s) \<le> w"
proof -
  have "pl_limit s = w" by (rule reached_limit [OF assms(4)])
  moreover have "slot_inv s"
    using fetches.reached_pull_inv [OF dispatch_scheduled(1) [OF assms(1,2)] assms(3,4)]
    by (simp add: pull_inv_def)
  ultimately show ?thesis by (auto simp: slot_inv_def slots_held_def)
qed

lemma puller_slots_witness:
  "pl_slots (after (take 10 swapped_run) (start_puller 2 two_chunks)) = 2 \<and>
   slots_held (after (take 10 swapped_run) (start_puller 2 two_chunks)) = 2"
proof -
  have p: "usable_probe 3 \<lparr>cr_start = 0, cr_end = 2, cr_total = 6\<rparr>" by code_simp
  have "pl_slots (after (take 10 swapped_run) (start_puller 2 two_chunks)) = 2" by code_simp
  with puller_slots [OF p two_chunks_dispatched _ swapped_reached [of 10]] show ?thesis by (simp del: after.simps)
qed

text \<open>
  C14. No deadlock of a parallel pull: in every reachable state in which a \<open>Read\<close> has not returned,
  the dispatcher, a worker (each fetch ends with an outcome) or the reader itself can take a
  step, without any help from \<open>Close\<close> or the context, whatever slots are taken and whatever the
  order in which chunks arrive; in particular the bounded slots are never all held by chunks
  that wait for an earlier one. The only exception is a \<open>Close\<close> that has marked the reader closed
  and goes on to cancel the context, which then wakes the reader up.
\<close>

theorem puller_progress:
  assumes "usable_probe chunk cr" and "dispatch_tasks chunk cr body spent = Some ts" and "0 < w"
    and "reached (task_outcome B) w ts s" and "pl_reader s \<noteq> RIdle"
  shows "\<exists>s'. dispatch_step s s' \<or> work_step (task_outcome B) s s' \<or> read_step s s' \<or>
    (\<exists>rs. pl_closer s = CCancel rs \<and> close_step s s')"
  by (rule fetches.not_stuck [OF dispatch_scheduled(1) [OF assms(1,2)] assms(3-5)])

lemma puller_progress_witness:
  "\<exists>s'. dispatch_step (after [ReadCall 8, ReadGo, ReadGo] (start_puller 2 two_chunks)) s' \<or>
     work_step (task_outcome [1, 2, 3, 4, 5, 6]) (after [ReadCall 8, ReadGo, ReadGo] (start_puller 2 two_chunks)) s' \<or>
     read_step (after [ReadCall 8, ReadGo, ReadGo] (start_puller 2 two_chunks)) s'"
proof -
  let ?s = "after [ReadCall 8, ReadGo, ReadGo] (start_puller 2 two_chunks)"
  have p: "usable_probe 3 \<lparr>cr_start = 0, cr_end = 2, cr_total = 6\<rparr>" by code_simp
  have "performs (task_outcome [1, 2, 3, 4, 5, 6]) [ReadCall 8, ReadGo, ReadGo] (start_puller 2 two_chunks)"
    by (simp add: start_puller_def release_current_def)
  then have r: "reached (task_outcome [1, 2, 3, 4, 5, 6]) 2 two_chunks ?s" by (rule performs_reached [OF start])
  have "pl_reader ?s = RSelect 8" and "pl_closer ?s = CNone" by code_simp+
  with puller_progress [OF p two_chunks_dispatched _ r] show ?thesis by (simp del: after.simps)
qed

section \<open>A cancellation taken for the end\<close>

text \<open>
  The context ends while a \<open>Read\<close> is at its \<open>select\<close>; the dispatcher and the workers leave first.
\<close>

definition canceled_run :: "action list" where
  "canceled_run =
     [ReadCall 8, ReadGo, ReadGo, CancelBy (Internal CtxCanceled), DispatchStop, WorkExit, WorkExit, DispatchGo,
      ReadGo, ReadGo]"

text \<open>
  C38. A canceled parallel pull may report the end of the stream: there is a run of a pull of six
  bytes in which the caller's context is canceled, nobody calls \<open>Close\<close>, and \<open>Read\<close> returns
  \<open>io.EOF\<close> with not one byte delivered. Once the dispatcher has closed \<open>results\<close>, the
  \<open>select\<close> of \<open>nextResult\<close> has two ready cases and may take the closed channel.
\<close>

theorem puller_cancel_eof:
  "\<exists>ts s. dispatch_tasks 3 \<lparr>cr_start = 0, cr_end = 2, cr_total = 6\<rparr> 0 1 = Some ts \<and>
     reached (task_outcome [1, 2, 3, 4, 5, 6]) 2 ts s \<and> \<not> pl_closed s \<and> pl_ctx s = Some (Internal CtxCanceled) \<and>
     pl_returned s = Some eof \<and> pl_out s = []"
proof -
  let ?s = "after canceled_run (start_puller 2 two_chunks)"
  have "performs (task_outcome [1, 2, 3, 4, 5, 6]) canceled_run (start_puller 2 two_chunks)"
    by (simp add: canceled_run_def start_puller_def release_current_def)
  then have "reached (task_outcome [1, 2, 3, 4, 5, 6]) 2 two_chunks ?s" by (rule performs_reached [OF start])
  moreover have "(pl_closed ?s, pl_ctx ?s, pl_returned ?s, pl_out ?s) = (False, Some (Internal CtxCanceled), Some eof, [])"
    by code_simp
  ultimately show ?thesis using two_chunks_dispatched by (auto simp del: after.simps)
qed

end
