(* ===== verification/PullerRank.thy ===== *)
theory PullerRank
  imports PullerRuns
begin

text \<open>
  A \<open>Read\<close> of a parallel pull returns: every step of the machine that does not begin a new call
  decreases a rank, so that with no deadlock (\<open>PullerGuarantees\<close>) a call that has begun ends.
\<close>

section \<open>The rank\<close>

text \<open>A step that begins neither a \<open>Read\<close> nor a \<open>Close\<close>.\<close>

definition inner_step :: "(chunk_task \<Rightarrow> goerr + byte list \<Rightarrow> bool) \<Rightarrow> puller \<Rightarrow> puller \<Rightarrow> bool" where
  "inner_step F s s' \<longleftrightarrow>
     pull_step F s s' \<and> (pl_reader s = RIdle \<longrightarrow> pl_reader s' = RIdle) \<and>
     (pl_closer s = CNone \<longrightarrow> pl_closer s' = CNone)"

text \<open>
  Each chunk is worth more the farther it is from the reader, and each goroutine more the farther
  it is from its rest.
\<close>

fun disp_rank :: "dispatcher \<Rightarrow> nat" where
  "disp_rank (DProbe t) = 15"
| "disp_rank (DSend t) = 15"
| "disp_rank DLoop = 2"
| "disp_rank DClosing = 1"
| "disp_rank DExit = 0"

fun reader_rank :: "read_pc \<Rightarrow> nat" where
  "reader_rank RIdle = 0"
| "reader_rank (REnd e) = 1"
| "reader_rank (RSelect n) = 2"
| "reader_rank (RTake n) = 3"
| "reader_rank (RCurrent n) = 4"
| "reader_rank (RHave n r) = 5"
| "reader_rank (RTaken n r) = 6"
| "reader_rank (RStore n r) = 8"
| "reader_rank (RMatch n r) = 9"
| "reader_rank (RGot n r) = 10"

fun close_rank :: "close_pc \<Rightarrow> nat" where
  "close_rank (CCancel rs) = 3 + length rs"
| "close_rank (CRelease rs) = 2 + length rs"
| "close_rank CDrain = 1"
| "close_rank c = 0"

definition pull_rank :: "puller \<Rightarrow> nat" where
  "pull_rank s =
     14 * length (pl_left s) + disp_rank (pl_disp s) + 12 * length (pl_tasks s) + 12 * length (pl_fetching s) +
     11 * length (pl_sending s) + 9 * length (pl_results s) + 4 * length (pl_pending s) + pl_idle s +
     reader_rank (pl_reader s) + close_rank (pl_closer s) + (if pl_ctx s = None then 1 else 0)"

lemmas rank_defs = pull_rank_def release_result_def release_current_def

lemma rank_decreases:
  assumes "inner_step F s s'" shows "pull_rank s' < pull_rank s"
proof -
  have step: "pull_step F s s'" and idle: "pl_reader s = RIdle \<longrightarrow> pl_reader s' = RIdle"
    and unclosed: "pl_closer s = CNone \<longrightarrow> pl_closer s' = CNone"
    using assms by (simp_all add: inner_step_def)
  show ?thesis
  proof (rule pull_step_rule [OF step])
    assume "dispatch_step s s'"
    then show ?thesis by cases (auto simp: rank_defs neq_Nil_conv)
  next
    assume "work_step F s s'"
    then show ?thesis by cases (auto simp: rank_defs)
  next
    assume "read_step s s'"
    then show ?thesis
    proof cases
      case (store_pending n r)
      have "length (filter (\<lambda>x. re_index x \<noteq> re_index r) (pl_pending s)) \<le> length (pl_pending s)"
        by (rule length_filter_le)
      with store_pending show ?thesis by (simp add: rank_defs less_Suc_eq_le)
    qed (use idle in \<open>auto simp: rank_defs split: option.splits\<close>)
  next
    assume "close_step s s'"
    then show ?thesis using unclosed by cases (auto simp: rank_defs)
  next
    fix e assume "pl_ctx s = None" "s' = s\<lparr>pl_ctx := Some e\<rparr>"
    then show ?thesis by (simp add: rank_defs)
  qed
qed

lemma rank_run: "(inner_step F ^^ n) s s' \<Longrightarrow> n + pull_rank s' \<le> pull_rank s"
proof (induction n arbitrary: s')
  case (Suc n)
  then obtain s1 where "(inner_step F ^^ n) s s1" "inner_step F s1 s'" by auto
  with Suc.IH [of s1] rank_decreases [of F s1 s'] show ?case by simp
qed simp

lemma reached_run: "(inner_step F ^^ n) s s' \<Longrightarrow> reached F w ts s \<Longrightarrow> reached F w ts s'"
proof (induction n arbitrary: s')
  case (Suc n)
  then obtain s1 where "reached F w ts s1" "inner_step F s1 s'" by auto
  then show ?case by (auto simp: inner_step_def intro: onward)
qed simp

section \<open>What is left to do\<close>

lemma pull_rank_bound:
  assumes "order_inv B ts s" and "token_inv ts s" and "crew_inv s"
  shows "pull_rank s \<le> 15 * length ts + pl_limit s + 11"
proof -
  have "size (tokens s) \<le> size (mset (map int [0..<length ts]))"
    using assms(2) unfolding token_inv_def by (rule size_mset_mono)
  then have tok: "size (tokens s) \<le> length ts" by simp
  have disp: "disp_rank (pl_disp s) \<le> 2 + 13 * length (disp_holds (pl_disp s))"
    by (cases "pl_disp s") simp_all
  have reader: "reader_rank (pl_reader s) \<le> 5 + 5 * length (slotted (pl_reader s))"
    using order_reader [OF assms(1)] by (cases "pl_reader s") (auto simp: slotted_def)
  have closer: "close_rank (pl_closer s) \<le> 3 + length (closer_holds (pl_closer s))"
    by (cases "pl_closer s") simp_all
  have "size (tokens s) = length (pl_left s) + length (disp_holds (pl_disp s)) + length (pl_tasks s) +
      length (pl_fetching s) + length (pl_sending s) + length (pl_results s) + length (pl_pending s) +
      length (slotted (pl_reader s)) + length (closer_holds (pl_closer s))"
    by (simp add: tokens_def task_tokens_def result_tokens_def)
  moreover have "pl_idle s \<le> pl_limit s" using assms(3) by (simp add: crew_inv_def)
  ultimately show ?thesis using tok disp reader closer by (simp add: pull_rank_def)
qed

text \<open>The steps that the absence of a deadlock leaves are inner ones.\<close>

lemma crew_keeps:
  "dispatch_step s s' \<Longrightarrow> pl_reader s' = pl_reader s \<and> pl_closer s' = pl_closer s"
  "work_step F s s' \<Longrightarrow> pl_reader s' = pl_reader s \<and> pl_closer s' = pl_closer s"
  "read_step s s' \<Longrightarrow> pl_closer s' = pl_closer s"
  "close_step s s' \<Longrightarrow> pl_reader s' = pl_reader s"
  by (erule dispatch_step.cases work_step.cases read_step.cases close_step.cases;
      simp add: release_result_def release_current_def)+

lemma inner_steps:
  "dispatch_step s s' \<Longrightarrow> inner_step F s s'" "work_step F s s' \<Longrightarrow> inner_step F s s'"
  "read_step s s' \<Longrightarrow> pl_reader s \<noteq> RIdle \<Longrightarrow> inner_step F s s'"
  "close_step s s' \<Longrightarrow> pl_closer s \<noteq> CNone \<Longrightarrow> inner_step F s s'"
  by (simp_all add: inner_step_def crew_keeps pull_step.intros(1-4))

section \<open>A call ends\<close>

text \<open>
  C15. Every \<open>Read\<close> of a parallel pull returns after a bounded number of steps: from any reachable
  state, the goroutines take at most \<open>15\<close> steps per chunk, one per worker and \<open>11\<close> before a new
  \<open>Read\<close> or \<open>Close\<close> begins, in whatever order they run and whatever their fetches yield, and as
  long as the \<open>Read\<close> has not returned a further step is possible. (A \<open>Close\<close> begins only once, and
  the bound holds again from where it does; that each fetch ends is part of the model.)
\<close>

theorem puller_read_returns:
  assumes "usable_probe chunk cr" and "dispatch_tasks chunk cr body spent = Some ts" and "0 < w"
    and "reached (task_outcome B) w ts s" and "(inner_step (task_outcome B) ^^ n) s s'"
  shows "n \<le> 15 * length ts + w + 11 \<and>
    (pl_reader s' = RIdle \<or> (\<exists>s''. inner_step (task_outcome B) s' s''))"
proof -
  note sched = dispatch_scheduled(1) [OF assms(1,2)]
  from fetches.reached_pull_inv [OF sched assms(3,4)]
  have "order_inv B ts s" "token_inv ts s" "crew_inv s" by (simp_all add: pull_inv_def)
  from pull_rank_bound [OF this] rank_run [OF assms(5)] reached_limit [OF assms(4)]
  have "n \<le> 15 * length ts + w + 11" by simp
  moreover from fetches.not_stuck [OF sched assms(3) reached_run [OF assms(5,4)]]
  have "pl_reader s' = RIdle \<or> (\<exists>s''. inner_step (task_outcome B) s' s'')"
    using inner_steps by (cases "pl_reader s' = RIdle") (blast, metis close_pc.distinct(1))
  ultimately show ?thesis ..
qed

text \<open>The first \<open>Read\<close> of the run in which the second chunk arrives first.\<close>

lemma read_goes:
  "performs F (replicate n ReadGo) s \<Longrightarrow> (inner_step F ^^ n) s (after (replicate n ReadGo) s)"
proof (induction n arbitrary: s)
  case (Suc n)
  then obtain s1 where s1: "read_go s = Some s1" "performs F (replicate n ReadGo) s1"
    by (auto split: option.splits)
  then have "pl_reader s \<noteq> RIdle" by auto
  with s1 have "inner_step F s s1" by (intro inner_steps(3) read_go_step)
  from relpowp_Suc_I2 [OF this Suc.IH [OF s1(2)]] s1(1) show ?case by simp
qed simp

lemma puller_read_returns_witness:
  "pl_reader (after (replicate 11 ReadGo) (after (take 14 swapped_run) (start_puller 2 two_chunks))) \<noteq> RIdle \<and>
   (\<exists>s. inner_step (task_outcome [1, 2, 3, 4, 5, 6])
      (after (replicate 11 ReadGo) (after (take 14 swapped_run) (start_puller 2 two_chunks))) s)"
proof -
  let ?s = "after (take 14 swapped_run) (start_puller 2 two_chunks)"
  have p: "usable_probe 3 \<lparr>cr_start = 0, cr_end = 2, cr_total = 6\<rparr>" by code_simp
  have "performs two_chunk_outcomes (replicate 11 ReadGo) ?s" by code_simp
  then have "performs (task_outcome [1, 2, 3, 4, 5, 6]) (replicate 11 ReadGo) ?s"
    by (rule performs_mono) (rule two_chunks_may)
  note run = read_goes [OF this]
  have "pl_reader (after (replicate 11 ReadGo) ?s) = RIdle \<or>
      (\<exists>s. inner_step (task_outcome [1, 2, 3, 4, 5, 6]) (after (replicate 11 ReadGo) ?s) s)"
    by (rule conjunct2 [OF puller_read_returns [OF p two_chunks_dispatched _ swapped_reached run]]) simp
  moreover have "pl_reader (after (replicate 11 ReadGo) ?s) = RCurrent 8" by code_simp
  ultimately show ?thesis by (metis read_pc.distinct(1))
qed

end
