(* ===== verification/RangeContent.thy ===== *)
theory RangeContent
  imports Resumption
begin

text \<open>
  Which bytes \<open>PullRange\<close> delivers. The invariant of the range reader against a server that serves
  the blob \<open>B\<close>: the next byte of the response in hand, also of one behind a \<open>bufio.Reader\<close>, is the
  byte of \<open>B\<close> that follows those delivered, and the next partial response is requested where
  the current one ends.
\<close>

section \<open>The response in hand\<close>

text \<open>\<open>served_at E B h s k\<close>: what \<open>s\<close> yields next, from its buffer or its body, starts at byte \<open>k\<close>.\<close>

definition served_at :: "env \<Rightarrow> byte list \<Rightarrow> history \<Rightarrow> stream \<Rightarrow> nat \<Rightarrow> bool" where
  "served_at E B h s k \<longleftrightarrow>
     (case s of
        Buffered b buf err \<Rightarrow>
          b < length h \<and> buf = window k (k + length buf) B \<and> position E h b = k + length buf
      | _ \<Rightarrow> stream_at E h s k)"

lemma served_undisturbed: "served_at E B h s k \<Longrightarrow> undisturbed E h h' \<Longrightarrow> served_at E B h' s k"
  by (cases s) (auto simp: served_at_def undisturbed_def)

lemma window_split:
  assumes "buf = window k (k + length buf) B" and "n \<le> length buf"
  shows "take n buf = window k (k + n) B" and "drop n buf = window (k + n) (k + length buf) B"
proof -
  have "take n (window k (k + length buf) B) = window k (k + n) B"
    and "drop n (window k (k + length buf) B) = window (k + n) (k + length buf) B"
    using assms(2) by (simp_all add: window_def drop_take min_def add.commute)
  with assms(1) show "take n buf = window k (k + n) B" "drop n buf = window (k + n) (k + length buf) B"
    by simp_all
qed

lemma buffered_taken:
  assumes "d = window k (k + length d) B" and "b < length h" and "position E h b = k + length d"
  shows "take n d = window k (k + length (take n d)) B
    \<and> served_at E B h (Buffered b (drop n d) e) (k + length (take n d))"
proof (cases "n \<le> length d")
  case True
  then have "length (take n d) = n" "k + n + length (drop n d) = k + length d" by simp_all
  with window_split [OF assms(1) True] assms(2,3) show ?thesis
    by (simp only: served_at_def stream.case)
next
  case False
  with assms show ?thesis by (simp add: served_at_def)
qed

lemma served_read:
  assumes "stream_read E n s h = ((d, e), s', h')" and "serves E B" and "served_at E B h s k"
  shows "d = window k (k + length d) B \<and> served_at E B h' s' (k + length d)"
proof (cases s)
  case (Buffered b buf err)
  with assms(3) have at: "b < length h" "buf = window k (k + length buf) B" "position E h b = k + length buf"
    by (simp_all add: served_at_def)
  have dry: "served_at E B h2 (Buffered b [] err2) j" if "b < length h2" "position E h2 b = j" for h2 err2 j
    using that by (simp add: served_at_def)
  show ?thesis
  proof (cases "buf \<noteq> [] \<or> n = 0 \<or> err \<noteq> None")
    case True
    with assms(1) Buffered buffered_taken [OF at(2,1,3), of n err] at dry show ?thesis
      by (auto split: if_splits)
  next
    case False
    define m where "m = (if n \<ge> bufio_size then n else bufio_size)"
    obtain d1 e1 h1 where r: "body_read E b m h = ((d1, e1), h1)" by (metis surj_pair)
    from body_read_at [OF r assms(2) at(1), of k] at(3) False
    have got: "d1 = window k (k + length d1) B" "position E h1 b = k + length d1" "b < length h1" by simp_all
    show ?thesis
      using assms(1) Buffered False r got buffered_taken [OF got(1,3,2), of n e1] dry [OF got(3,2)] dry [OF got(3)]
      by (auto simp: m_def split: if_splits)
  qed
next
  case (Net b)
  then show ?thesis using assms stream_read_at [OF assms(1,2), of k] by (auto simp: served_at_def split: prod.splits)
next
  case (Limited b rest)
  then show ?thesis using assms stream_read_at [OF assms(1,2), of k]
    by (auto simp: served_at_def split: prod.splits if_splits)
next
  case (Coupled b)
  then show ?thesis using assms stream_read_at [OF assms(1,2), of k] by (auto simp: served_at_def split: prod.splits)
next
  case NoBody
  then show ?thesis using assms by (auto simp: served_at_def)
qed

lemma peek_served:
  "buffered_peek E b k h = (None, s, h') \<Longrightarrow> serves E B \<Longrightarrow> b < length h \<Longrightarrow> position E h b = j \<Longrightarrow>
   served_at E B h' s j"
proof (induction k arbitrary: h)
  case (Suc k)
  obtain d e h1 where r: "body_read E b bufio_size h = ((d, e), h1)" by (metis surj_pair)
  from body_read_at [OF r Suc.prems(2-4)] Suc.prems(1) r Suc.IH [of h1] Suc.prems(2) show ?case
    by (auto simp: served_at_def split: if_splits)
qed simp

section \<open>The reader\<close>

definition range_at :: "env \<Rightarrow> byte list \<Rightarrow> history \<Rightarrow> range_reader \<Rightarrow> nat \<Rightarrow> bool" where
  "range_at E B h r k \<longleftrightarrow>
     (case rg_body r of Some s \<Rightarrow> served_at E B h s k | None \<Rightarrow> True) \<and>
     (rg_total r \<ge> 0 \<longrightarrow> rg_next r = int k + rg_remaining r)"

text \<open>A step that at most takes the response away and reads nothing.\<close>

lemma range_at_keeps:
  "range_at E B h r k \<Longrightarrow> range_same r r' \<Longrightarrow> rg_body r' \<in> {rg_body r, None} \<Longrightarrow> undisturbed E h h' \<Longrightarrow>
   range_at E B h' r' k"
  by (auto simp: range_at_def range_same_def intro: served_undisturbed split: option.splits)

lemma undisturbed_range_close: "range_close r h1 = (r', h') \<Longrightarrow> undisturbed E h h1 \<Longrightarrow> undisturbed E h h'"
  by (auto simp: range_close_def intro!: undisturbed_close_body undisturbed_event split: if_splits)

lemma undisturbed_range_yield:
  assumes "range_yield E r h = (r', h')" shows "undisturbed E h h'"
proof (cases "en_interrupt E h")
  case True
  have "undisturbed E h (EvInterrupt # h)" by (rule undisturbed_event) simp_all
  with assms True undisturbed_range_close show ?thesis by (auto simp: range_yield_def)
qed (use assms in \<open>simp add: range_yield_def\<close>)

lemma range_yield_body: "range_yield E r h = (r', h') \<Longrightarrow> rg_body r' \<in> {rg_body r, None}"
  by (auto simp: range_yield_def range_close_def split: if_splits)

lemma yield_at: "range_yield E r h = (r', h') \<Longrightarrow> range_at E B h r k \<Longrightarrow> range_at E B h' r' k"
  by (rule range_at_keeps [OF _ range_yield_same range_yield_body undisturbed_range_yield])

lemma ctx_at: "ctx_err E h = (e, h') \<Longrightarrow> range_at E B h r k \<Longrightarrow> range_at E B h' r k"
  by (rule range_at_keeps [OF _ range_same_refl _ undisturbed_effects(1) [OF undisturbed_refl]]) simp_all

lemma state_error_at:
  assumes "range_state_error E r h = (e, r', h')" and "range_at E B h r k"
  shows "range_at E B h' r' k"
proof -
  obtain r1 h1 where y: "range_yield E r h = (r1, h1)" by (metis surj_pair)
  from yield_at [OF y assms(2)] assms(1) y show ?thesis
    by (auto simp: range_state_error_def intro: ctx_at split: if_splits prod.splits)
qed

text \<open>A new response to a GET, whatever its range, is a fresh one.\<close>

lemma get_range_fresh: "get E c u hdr h = (Inr (resp, n), h') \<Longrightarrow> fresh E resp h'"
  using do_retry_fresh
  by (fastforce simp: get_def get_after_attempts_def Let_def split: if_splits prod.splits sum.splits)

lemma continue_at:
  assumes "range_continue E c target r h = (e, r', h')" and "rg_body r = None"
    and "rg_total r \<ge> 0" and "rg_next r = int k" and "rg_remaining r = 0"
  shows "range_at E B h' r' k"
proof -
  have at: "range_at E B h2 r k" for h2 using assms(2-5) by (simp add: range_at_def)
  obtain out h1 where g: "get E c target (range_header (rg_next r) (rg_end r)) h = (out, h1)"
    by (metis surj_pair)
  show ?thesis
  proof (cases out)
    case (Inl e1)
    obtain se r1 h2 where st: "range_state_error E r h1 = (se, r1, h2)" by (metis prod_cases3)
    from assms(1) g Inl st state_error_at [OF st at] show ?thesis
      by (auto simp: range_continue_def Let_def split: option.splits)
  next
    case (Inr q)
    obtain resp n where q: "q = (resp, n)" by (metis surj_pair)
    let ?v = "validate_content_range (header_get (rs_header resp) ''Content-Range'') (rg_next r) (rg_end r)"
    have installed: "range_at E B h' r' k"
      if v: "?v = Inr cr" and status: "rs_status resp = 206"
        and i: "install_range_continuation E (Net (rs_body resp)) cr (rg_parts r) r h1 = (e, r', h')" for cr
    proof -
      have "parse_content_range (header_get (rs_header resp) ''Content-Range'') = Some cr \<and> cr_start cr = int k"
        using v assms(4) by (auto simp: validate_content_range_def split: option.splits if_splits)
      with get_range_fresh [OF g [unfolded Inr q]] status
      have net: "served_at E B h1 (Net (rs_body resp)) k"
        by (simp add: fresh_def answer_base_def served_at_def)
      obtain r1 h2 where y: "range_yield E r h1 = (r1, h2)" by (metis surj_pair)
      note served_undisturbed [OF net undisturbed_range_yield [OF y]]
      moreover have "cr_start cr = int k" using v assms(4) validate_content_range_Inr by fastforce
      moreover have "range_at E B (stream_close (Net (rs_body resp)) h2) r1 k"
        by (rule range_at_keeps [OF yield_at [OF y at] range_same_refl _ undisturbed_stream_close]) simp_all
      ultimately show ?thesis
        using i y yield_at [OF y at]
        by (auto simp: install_range_continuation_def range_at_def simp del: stream_close.simps split: if_splits)
    qed
    show ?thesis
      using assms(1) g Inr q at installed
      by (cases ?v) (auto simp: range_continue_def Let_def split: if_splits)
  qed
qed

lemma advance_at:
  assumes "range_advance E c target r h = (e, r', h')" and "range_at E B h r k" and "range_ok r"
  shows "range_at E B h' r' k"
proof -
  obtain r1 h1 where y: "range_yield E r h = (r1, h1)" by (metis surj_pair)
  obtain ce h2 where ct: "ctx_err E h1 = (ce, h2)" by (metis surj_pair)
  have at1: "range_at E B h1 r1 k" and at2: "range_at E B h2 r1 k"
    using yield_at [OF y assms(2)] ctx_at [OF ct] by simp_all
  have ok1: "range_ok r1" using range_same_ok [OF range_yield_same [OF y]] assms(3) by simp
  let ?r2 = "r1\<lparr>rg_body := None\<rparr>" and ?h3 = "close_body (rg_body r1) h2"
  have at3: "range_at E B ?h3 ?r2 k" using at2 by (simp add: range_at_def)
  have cont: "range_at E B h' r' k"
    if "range_continue E c target ?r2 ?h3 = (e, r', h')" "\<not> 0 < rg_remaining r1" "\<not> rg_total r1 < 0"
    using continue_at [OF that(1), of k B] that(2,3) at2 ok1 by (simp add: range_at_def range_ok_def)
  show ?thesis
    using assms(1) at1 at2 at3 cont unfolding range_advance_def y ct prod.case Let_def
    by (auto split: if_splits option.splits)
qed

lemma read_current_at:
  assumes "range_read_current E n r h = ((d, dr, e), r', h')" and "range_at E B h r k" and "serves E B"
  shows "d = window k (k + length d) B \<and> range_at E B h' r' (k + length d)"
proof -
  obtain r1 h1 where y1: "range_yield E r h = (r1, h1)" by (metis surj_pair)
  note at1 = yield_at [OF y1 assms(2)]
  show ?thesis
  proof (cases "rg_body r1")
    case None
    with assms y1 at1 show ?thesis by (simp add: range_read_current_def)
  next
    case (Some s)
    let ?m = "if int n > rg_remaining r1 then nat (rg_remaining r1) else n"
    obtain r2 h2 where y2: "range_yield E r1 h1 = (r2, h2)" by (metis surj_pair)
    obtain d1 e1 s' h3 where rd: "stream_read E ?m s h2 = ((d1, e1), s', h3)" by (metis prod_cases4 surj_pair)
    obtain r3 h4 where y3: "range_yield E r2 h3 = (r3, h4)" by (metis surj_pair)
    define r4 where "r4 = r3\<lparr>rg_remaining := rg_remaining r3 - int (length d1),
      rg_body := (case rg_body r3 of Some _ \<Rightarrow> Some s' | None \<Rightarrow> None)\<rparr>"
    obtain se r5 h5 where st: "range_state_error E r4 h4 = (se, r5, h5)" by (metis prod_cases3)
    have "served_at E B h2 s k"
      using at1 Some served_undisturbed undisturbed_range_yield [OF y2] by (auto simp: range_at_def)
    note got = served_read [OF rd assms(3) this]
    have same: "range_same r1 r3"
      using range_yield_same [OF y2] range_yield_same [OF y3] by (rule range_same_trans)
    have "served_at E B h4 s' (k + length d1)"
      using got served_undisturbed undisturbed_range_yield [OF y3] by blast
    then have at4: "range_at E B h4 r4 (k + length d1)"
      using at1 same by (auto simp: r4_def range_at_def range_same_def split: option.split)
    have "d1 = d \<and> r5 = r' \<and> h5 = h'"
      using assms(1) unfolding range_read_current_def y1 prod.case Some option.case Let_def y2 rd y3
        r4_def [symmetric] st
      by (cases se) (auto simp: range_classify_def split: if_splits)
    with got state_error_at [OF st at4] show ?thesis by simp
  qed
qed

lemma range_read_at:
  assumes "range_read E c target n r h = ((d, e), r', h')" and "range_at E B h r k" and "serves E B"
    and "range_ok r"
  shows "d = window k (k + length d) B \<and> range_at E B h' r' (k + length d)"
proof (cases "n = 0")
  case True
  obtain se r1 h1 where st: "range_state_error E r h = (se, r1, h1)" by (metis prod_cases3)
  from state_error_at [OF st assms(2)] assms(1) True st show ?thesis by (auto simp: range_read_def)
next
  case False
  then obtain q where t: "range_turn E c target n 1 (r, h) = Inl q" "range_read E c target n r h = q"
    using range_read_turn by blast
  obtain ae r1 h1 where a: "range_advance E c target r h = (ae, r1, h1)" by (metis prod_cases3)
  note at1 = advance_at [OF a assms(2,4)]
  show ?thesis
  proof (cases ae)
    case (Some x)
    with assms(1) t a at1 show ?thesis by (auto simp: range_turn_def)
  next
    case None
    obtain d1 dr e1 r2 h2 where rc: "range_read_current E n r1 h1 = ((d1, dr, e1), r2, h2)"
      by (metis prod_cases5 surj_pair)
    from read_current_at [OF rc at1 assms(3)] assms(1) t a None rc show ?thesis
      by (auto simp: range_turn_def split: if_splits)
  qed
qed

lemma progress_undisturbed: "tracker_add n t h = (t', h') \<Longrightarrow> undisturbed E h h'"
  by (auto simp: tracker_add_def intro!: undisturbed_event split: option.splits if_splits)

lemma range_seq_at:
  assumes "ctx_contract E" and "serves E B"
  shows "read_seq (progress_read (range_read E c target)) ns p h = ((d, e), p', h') \<Longrightarrow>
    range_ok (pr_body p) \<Longrightarrow> range_at E B h (pr_body p) k \<Longrightarrow> d = window k (k + length d) B"
proof (induction ns arbitrary: p h d k)
  case (Cons n ns)
  obtain d1 e1 r1 h1 where r: "range_read E c target n (pr_body p) h = ((d1, e1), r1, h1)"
    by (metis prod_cases4 surj_pair)
  obtain t h2 where t: "tracker_add (int (length d1)) (pr_tracker p) h1 = (t, h2)" by (metis surj_pair)
  let ?p1 = "p\<lparr>pr_body := r1, pr_tracker := t\<rparr>"
  have pr: "progress_read (range_read E c target) n p h = ((d1, e1), ?p1, h2)"
    by (simp add: progress_read_def r t)
  have ok: "range_ok r1" using range_read_ok [OF r assms(1) Cons.prems(2)] by simp
  note at = range_read_at [OF r Cons.prems(3) assms(2) Cons.prems(2)]
  have at2: "range_at E B h2 r1 (k + length d1)"
    using range_at_keeps [OF conjunct2 [OF at] range_same_refl _ progress_undisturbed [OF t]] by simp
  show ?case
  proof (cases e1)
    case (Some x)
    with Cons.prems(1) pr at show ?thesis by auto
  next
    case None
    with Cons.prems(1) pr obtain d2 where
      q: "read_seq (progress_read (range_read E c target)) ns ?p1 h2 = ((d2, e), p', h')" "d = d1 @ d2"
      by (auto split: prod.splits)
    have "d2 = window (k + length d1) (k + length d1 + length d2) B"
      using Cons.IH [OF q(1)] ok at2 by simp
    with conjunct1 [OF at] have "d1 @ d2
        = window k (k + length d1) B @ window (k + length d1) (k + length d1 + length d2) B"
      by (rule arg_cong2)
    then have joined: "d = window k (k + length d1 + length d2) B" by (simp add: q(2) window_join)
    have "length d = length d1 + length d2" by (simp add: q(2))
    with joined show ?thesis by (metis add.assoc)
  qed
qed simp

section \<open>The reader that PullRange opens\<close>

lemma whole_blob_at:
  assumes "whole_blob_window E dgst resp (int k) final h = (Inr r, h')" and "fresh E resp h"
    and "rs_status resp \<noteq> 206" and "serves E B"
  shows "range_at E B h' r k"
proof -
  let ?b = "rs_body resp"
  obtain se h1 where sk: "body_skip E ?b (int k) h = (se, h1)" by (metis surj_pair)
  with assms(1) have se: "se = None" by (cases se) (auto simp: whole_blob_window_def split: prod.splits)
  from body_skip_at [OF sk [unfolded se] assms(2) refl assms(3)]
  have at1: "?b < length h1" "position E h1 ?b = k" by simp_all
  obtain pe s h2 where pk: "buffered_peek E ?b 100 h1 = (pe, s, h2)" by (metis prod_cases3)
  with assms(1) sk se have pe: "pe = None"
    by (cases pe) (auto simp: whole_blob_window_def split: prod.splits)
  note at2 = peek_served [OF pk [unfolded pe] assms(4) at1]
  obtain ce h3 where ct: "ctx_err E h2 = (ce, h3)" by (metis surj_pair)
  have "served_at E B h3 s k"
    by (rule served_undisturbed [OF at2 undisturbed_effects(1) [OF undisturbed_refl ct]])
  then show ?thesis
    using assms(1) sk se pk pe ct
    by (auto simp: whole_blob_window_def range_at_def new_range_reader_def split: option.splits)
qed

lemma pull_range_at:
  assumes "pull_range E digest_check c repo dgst offset len opts h = (Inr p, h')" and "serves E B"
  shows "range_at E B h' (pr_body p) (nat offset)"
proof -
  have chk: "pull_range_check digest_check repo dgst offset len = None"
    using assms(1) by (auto simp: pull_range_def split: option.splits)
  obtain k where k: "offset = int k" using pull_range_check_None [OF chk] nonneg_int_cases by blast
  obtain out h1 where g: "get E c (blob_url (client_scheme c) repo dgst)
      (range_header offset (offset + len - 1)) h = (out, h1)" by (metis surj_pair)
  obtain resp n where out: "out = Inr (resp, n)"
    using assms(1) chk g by (cases out) (auto simp: pull_range_def Let_def)
  note fr = get_range_fresh [OF g [unfolded out]]
  show ?thesis
  proof (cases "rs_status resp = 206")
    case True
    then obtain cr where v: "validate_content_range (header_get (rs_header resp) ''Content-Range'')
        offset (offset + len - 1) = Inr cr" and h': "h' = h1"
      and p: "pr_body p = new_range_reader (Net (rs_body resp)) cr (offset + len - 1)"
      using assms(1) chk g out by (auto simp: pull_range_def Let_def split: sum.splits)
    have "parse_content_range (header_get (rs_header resp) ''Content-Range'') = Some cr" "cr_start cr = int k"
      using v k by (auto simp: validate_content_range_def split: option.splits if_splits)
    with fr True have "served_at E B h1 (Net (rs_body resp)) k"
      by (simp add: fresh_def answer_base_def served_at_def)
    then show ?thesis
      using \<open>cr_start cr = int k\<close> by (simp add: range_at_def p h' new_range_reader_def k)
  next
    case False
    then obtain r where "whole_blob_window E dgst resp (int k) (offset + len - 1) h1 = (Inr r, h')"
      and "pr_body p = r"
      using assms(1) chk g out k by (auto simp: pull_range_def Let_def split: sum.splits prod.splits if_splits)
    with whole_blob_at [OF _ fr False assms(2)] show ?thesis by (simp add: k)
  qed
qed

text \<open>
  C8. \<open>PullRange\<close> delivers exactly its window. Whatever the server answers, into however many
  partial responses it splits the range, and wherever a concurrent \<open>Close\<close> interferes, the reader
  yields at most \<open>length\<close> bytes, and when it reports the end of the stream (the value \<open>io.EOF\<close>
  itself) it has yielded exactly \<open>length\<close>; a shortfall is always another error. If the server
  serves the blob \<open>B\<close> in consecutive bytes, these bytes are those of \<open>B\<close> from \<open>offset\<close> on: the
  first ones before the end, and the whole window \<open>[offset, offset + length)\<close> at the end, also
  when the server ignores the range and the window is carved out of a 200 response.
\<close>

theorem pull_range_window:
  assumes "pull_range E digest_check c repo dgst offset len opts h = (Inr p, h1)"
    and "read_seq (progress_read (range_read E c target)) ns p h1 = ((d, e), p', h2)"
    and "ctx_contract E"
  shows "int (length d) \<le> len \<and> (e = Some eof \<longrightarrow> int (length d) = len) \<and>
    (serves E B \<longrightarrow> d = take (length d) (drop (nat offset) B) \<and>
      (e = Some eof \<longrightarrow> d = take (nat len) (drop (nat offset) B)))"
proof -
  have left: "int (length d) \<le> len" "e = Some eof \<longrightarrow> int (length d) = len"
    using range_seq_left [OF assms(3,2)] pull_range_opened [OF assms(1)] range_ok_left [of "pr_body p'"]
    by auto
  moreover have "d = take (length d) (drop (nat offset) B)" if "serves E B"
    using range_seq_at [OF assms(3) that assms(2)] pull_range_opened(1) [OF assms(1)]
      pull_range_at [OF assms(1) that] by (simp add: window_def)
  ultimately show ?thesis by auto
qed

text \<open>
  A blob of six bytes on a server that answers a range with at most two bytes at a time.
\<close>

definition stingy_trip :: "side \<Rightarrow> history \<Rightarrow> request \<Rightarrow> round_trip" where
  "stingy_trip side h req =
     (if header_get (rq_header req) ''Range'' = ''bytes=1-4'' then
        Reply 206 [(''Content-Range'', ''bytes 1-2/6'')] 2
      else Reply 206 [(''Content-Range'', ''bytes 3-4/6'')] 2)"

definition stingy_env :: env where
  "stingy_env = one_shot_env stingy_trip [1, 2, 3, 4, 5, 6] 2 (Opaque 0)"

definition stingy_run :: "(byte list \<times> goerr option) option" where
  "stingy_run =
     (case pull_range stingy_env (\<lambda>d. None) sample_client sample_repo ''sha256:x'' 1 4 [] [] of
        (Inl e, h) \<Rightarrow> None
      | (Inr p, h) \<Rightarrow>
          Some (fst (read_seq (progress_read (range_read stingy_env sample_client sample_url)) [8, 8, 8] p h)))"

lemma pull_range_window_witness:
  "\<exists>d. stingy_run = Some (d, Some eof) \<and> d = take 4 (drop 1 [1, 2, 3, 4, 5, 6]) \<and> length d = 4"
proof -
  have f: "stingy_run = Some ([2, 3, 4, 5], Some eof)" by code_simp
  obtain out h1 where run: "pull_range stingy_env (\<lambda>d. None) sample_client sample_repo ''sha256:x'' 1 4 [] []
      = (out, h1)" by (metis surj_pair)
  with f obtain p where p: "out = Inr p" by (cases out) (auto simp: stingy_run_def)
  obtain d e p' h2 where
    rd: "read_seq (progress_read (range_read stingy_env sample_client sample_url)) [8, 8, 8] p h1 = ((d, e), p', h2)"
    by (metis prod_cases4 surj_pair)
  have e: "stingy_run = Some (d, e)" by (simp add: stingy_run_def run p rd del: read_seq.simps)
  with f have "e = Some eof" by (metis option.inject prod.inject)
  moreover have "ctx_contract stingy_env" "serves stingy_env [1, 2, 3, 4, 5, 6]"
    by (simp_all add: stingy_env_def one_shot_contract one_shot_serves)
  ultimately show ?thesis
    using pull_range_window [OF run [unfolded p] rd, of "[1, 2, 3, 4, 5, 6]"] e by auto
qed

end
