(* ===== verification/ExactReader.thy ===== *)
theory ExactReader
  imports Session Stream
begin

text \<open>
  upload_body.go, the caller's reader behind an upload: \<open>exactSizeReader\<close> yields no more than
  the declared bytes of it, proves that a final body ends where it was declared to, and turns
  everything else into an input error.
\<close>

section \<open>The caller's reader\<close>

text \<open>
  An \<open>io.Reader\<close> that the caller hands to \<open>Push\<close>, and its \<open>io.Seeker\<close> side if it has one: the
  answers of \<open>Read\<close> (the count it claims, what it wrote to the buffer and its error), of
  \<open>Seek (0, io.SeekCurrent)\<close> and of \<open>Seek (offset, io.SeekStart)\<close>.
\<close>

record source =
  so_read :: "history \<Rightarrow> nat \<Rightarrow> int \<times> byte list \<times> goerr option"
  so_seekable :: bool
  so_tell :: "history \<Rightarrow> goerr + int"
  so_seek :: "history \<Rightarrow> int \<Rightarrow> goerr option"

text \<open>One \<open>Read\<close> into a buffer of \<open>n\<close> bytes: the count and the bytes that it covers.\<close>

definition filled :: "nat \<Rightarrow> byte list \<Rightarrow> byte list" where
  "filled n d = take n (d @ replicate n 0)"

definition source_read :: "source \<Rightarrow> nat \<Rightarrow> history \<Rightarrow> (int \<times> byte list \<times> goerr option) \<times> history" where
  "source_read src n h =
     (case so_read src h n of (k, d, e) \<Rightarrow> ((k, take (nat k) (filled n d), e), EvSourceRead n # h))"

definition source_tell :: "source \<Rightarrow> history \<Rightarrow> (goerr + int) \<times> history" where
  "source_tell src h = (so_tell src h, EvSourceTell # h)"

definition source_seek :: "source \<Rightarrow> int \<Rightarrow> history \<Rightarrow> goerr option \<times> history" where
  "source_seek src off h = (so_seek src h off, EvSourceSeek off # h)"

text \<open>
  A reader that holds the stream \<open>S\<close>: its position moves with reads and seeks, a read yields
  the bytes at the position, and \<open>io.EOF\<close> comes at the end only.
\<close>

fun source_pos :: "source \<Rightarrow> history \<Rightarrow> nat" where
  "source_pos src [] = 0"
| "source_pos src (e # h) =
     (case e of
        EvSourceRead n \<Rightarrow> source_pos src h + nat (fst (so_read src h n))
      | EvSourceSeek off \<Rightarrow> if so_seek src h off = None then nat off else source_pos src h
      | _ \<Rightarrow> source_pos src h)"

definition holds_stream :: "source \<Rightarrow> byte list \<Rightarrow> bool" where
  "holds_stream src S \<longleftrightarrow>
     (\<forall>h n. case so_read src h n of (k, d, e) \<Rightarrow>
        take (nat k) (filled n d) = take (nat k) (drop (source_pos src h) S) \<and>
        nat k \<le> length S - source_pos src h \<and>
        (is_eof e \<longrightarrow> length S \<le> source_pos src h + nat k))"

section \<open>The exact-size reader\<close>

definition max_consecutive_empty_reads :: nat where
  "max_consecutive_empty_reads = 100"

record exact_reader =
  er_expected :: int
  er_offset :: int
  er_remaining :: int
  er_size_err :: "goerr option"
  er_require_eof :: bool
  er_eof_validated :: bool
  er_empty_reads :: nat

definition new_exact_reader :: "int \<Rightarrow> bool \<Rightarrow> exact_reader" where
  "new_exact_reader sz require_eof =
     \<lparr>er_expected = sz, er_offset = 0, er_remaining = sz, er_size_err = None,
      er_require_eof = require_eof, er_eof_validated = False, er_empty_reads = 0\<rparr>"

definition probe_failed :: "exact_reader \<Rightarrow> goerr \<Rightarrow> goerr option \<times> exact_reader" where
  "probe_failed r e = (Some e, r\<lparr>er_size_err := Some e\<rparr>)"

text \<open>\<open>probeEOF\<close>, with the number of reads it has left.\<close>

fun probe_loop :: "source \<Rightarrow> nat \<Rightarrow> exact_reader \<Rightarrow> history \<Rightarrow> (goerr option \<times> exact_reader) \<times> history" where
  "probe_loop src 0 r h =
     (probe_failed r (wrapf ''checking reader against declared size'' (Internal IoNoProgress)), h)"
| "probe_loop src (Suc left) r h =
     (case source_read src 1 h of
        ((n, d, e), h1) \<Rightarrow>
          if n > 0 then
            (probe_failed r (Text (''reader size does not match declared size: source contains data after ''
                @ fmt_d (er_offset r + er_expected r) @ '' bytes'')), h1)
          else if is_eof e then ((None, r\<lparr>er_eof_validated := True\<rparr>), h1)
          else
            (case e of
               Some x \<Rightarrow> (probe_failed r (wrapf ''checking reader against declared size'' x), h1)
             | None \<Rightarrow> probe_loop src left r h1))"

definition probe_eof :: "source \<Rightarrow> exact_reader \<Rightarrow> history \<Rightarrow> (goerr option \<times> exact_reader) \<times> history" where
  "probe_eof src r h = probe_loop src max_consecutive_empty_reads r h"

definition exact_failed :: "byte list \<Rightarrow> goerr \<Rightarrow> exact_reader \<Rightarrow> (byte list \<times> goerr option) \<times> exact_reader" where
  "exact_failed d e r = ((d, Some e), r\<lparr>er_size_err := Some e\<rparr>)"

definition short_source :: "exact_reader \<Rightarrow> goerr" where
  "short_source r =
     Text (''reader size does not match declared size: yielded ''
       @ fmt_d (er_offset r + er_expected r - er_remaining r) @ '' bytes, expected ''
       @ fmt_d (er_offset r + er_expected r))"

text \<open>\<open>Read\<close>: an answer of the source, and what becomes of it.\<close>

definition exact_answer ::
    "source \<Rightarrow> nat \<Rightarrow> int \<Rightarrow> byte list \<Rightarrow> goerr option \<Rightarrow> exact_reader \<Rightarrow> history
      \<Rightarrow> ((byte list \<times> goerr option) \<times> exact_reader) \<times> history" where
  "exact_answer src p n d e r h =
     (if n < 0 \<or> n > int p then
        (exact_failed [] (Text (''reading declared upload body: reader returned invalid byte count ''
            @ fmt_d n @ '' for buffer length '' @ fmt_d (int p))) r, h)
      else if n = 0 \<and> e = None then
        (let r1 = r\<lparr>er_empty_reads := er_empty_reads r + 1\<rparr> in
         if er_empty_reads r1 \<ge> max_consecutive_empty_reads
         then (exact_failed [] (wrapf ''reading declared upload body'' (Internal IoNoProgress)) r1, h)
         else ((([], None), r1), h))
      else
        (let r1 = r\<lparr>er_empty_reads := 0, er_remaining := er_remaining r - n\<rparr> in
         if e \<noteq> None \<and> \<not> is_eof e then
           (exact_failed d (wrapf ''reading declared upload body'' (the e)) r1, h)
         else if is_eof e \<and> er_remaining r1 > 0 then (exact_failed d (short_source r1) r1, h)
         else if er_remaining r1 = 0 \<and> er_require_eof r1 then
           (if is_eof e then (((d, e), r1\<lparr>er_eof_validated := True\<rparr>), h)
            else
              (case probe_eof src r1 h of
                 ((Some x, r2), h1) \<Rightarrow> (((d, Some x), r2), h1)
               | ((None, r2), h1) \<Rightarrow> (((d, e), r2), h1)))
         else (((d, e), r1), h)))"

definition exact_read ::
    "source \<Rightarrow> nat \<Rightarrow> exact_reader \<Rightarrow> history \<Rightarrow> ((byte list \<times> goerr option) \<times> exact_reader) \<times> history" where
  "exact_read src p r h =
     (if er_remaining r = 0 then ((([], Some eof), r), h)
      else
        (let p' = (if int p > er_remaining r then nat (er_remaining r) else p) in
         case source_read src p' h of ((n, d, e), h1) \<Rightarrow> exact_answer src p' n d e r h1))"

definition exact_validate :: "exact_reader \<Rightarrow> goerr option" where
  "exact_validate r =
     (case er_size_err r of
        Some e \<Rightarrow> Some e
      | None \<Rightarrow>
          if er_remaining r \<noteq> 0 then
            Some (Text (''reader size does not match declared size: request consumed ''
                @ fmt_d (er_offset r + er_expected r - er_remaining r) @ '' bytes, expected ''
                @ fmt_d (er_offset r + er_expected r)))
          else if er_require_eof r \<and> \<not> er_eof_validated r then
            Some (Text (''reader size does not match declared size: EOF after ''
                @ fmt_d (er_offset r + er_expected r) @ '' bytes was not observed''))
          else None)"

definition validate_reader_eof :: "source \<Rightarrow> int \<Rightarrow> history \<Rightarrow> goerr option \<times> history" where
  "validate_reader_eof src sz h =
     (case probe_eof src (new_exact_reader sz True) h of
        ((Some e, r), h1) \<Rightarrow> (Some e, h1)
      | ((None, r), h1) \<Rightarrow> (exact_validate r, h1))"

section \<open>What it yields\<close>

lemma length_filled [simp]: "length (filled n d) = n"
  by (simp add: filled_def)

lemma filled_full: "length d = n \<Longrightarrow> filled n d = d"
  by (simp add: filled_def)

lemma source_read_stream:
  assumes "source_read src n h = ((k, d, e), h')" and "holds_stream src S"
  shows "source_pos src h' = source_pos src h + nat k \<and> d = take (nat k) (drop (source_pos src h) S) \<and>
    nat k \<le> length S - source_pos src h \<and> (is_eof e \<longrightarrow> length S \<le> source_pos src h + nat k) \<and>
    length d = min (nat k) n"
proof -
  obtain d0 where r: "so_read src h n = (k, d0, e)" "d = take (nat k) (filled n d0)" "h' = EvSourceRead n # h"
    using assms(1) by (auto simp: source_read_def split: prod.splits)
  from assms(2) have "case so_read src h n of (k, d, e) \<Rightarrow>
      take (nat k) (filled n d) = take (nat k) (drop (source_pos src h) S) \<and> nat k \<le> length S - source_pos src h \<and>
      (is_eof e \<longrightarrow> length S \<le> source_pos src h + nat k)"
    unfolding holds_stream_def by simp
  moreover have "length d = min (nat k) n" using r(2) by (simp add: min.commute)
  ultimately show ?thesis using r by auto
qed

lemma is_eof_simps [simp]:
  "\<not> is_eof None" "is_eof (Some eof)" "\<not> is_eof (Some (Text t))" "\<not> is_eof (Some (Internal IoNoProgress))"
  "is_eof (Some (wrapf m e)) \<longleftrightarrow> is_eof (Some e)"
  by (auto simp: is_eof_def errors_is_def eof_def wrapf_def)

definition consumed :: "exact_reader \<Rightarrow> nat" where
  "consumed r = nat (er_expected r - er_remaining r)"

text \<open>The reader has passed on the bytes from \<open>p0\<close> on, and a validated end is the end.\<close>

definition exact_ok :: "source \<Rightarrow> byte list \<Rightarrow> nat \<Rightarrow> exact_reader \<Rightarrow> history \<Rightarrow> bool" where
  "exact_ok src S p0 r h \<longleftrightarrow>
     0 \<le> er_remaining r \<and> er_remaining r \<le> er_expected r \<and> consumed r \<le> length S - p0 \<and>
     (er_size_err r = None \<longrightarrow> source_pos src h = p0 + consumed r) \<and>
     (er_eof_validated r \<longrightarrow> er_remaining r = 0 \<and> length S \<le> p0 + consumed r)"

lemma exact_ok_failed: "exact_ok src S p0 r h \<Longrightarrow> exact_ok src S p0 (r\<lparr>er_size_err := Some e\<rparr>) h'"
  by (auto simp: exact_ok_def consumed_def)

lemma exact_ok_still: "exact_ok src S p0 r h \<Longrightarrow> source_pos src h' = source_pos src h \<Longrightarrow> exact_ok src S p0 r h'"
  by (simp add: exact_ok_def)

definition probed :: "source \<Rightarrow> byte list \<Rightarrow> nat \<Rightarrow> exact_reader \<Rightarrow> goerr option \<Rightarrow> exact_reader \<Rightarrow> history \<Rightarrow> bool" where
  "probed src S p0 r e r' h' \<longleftrightarrow>
     exact_ok src S p0 r' h' \<and> er_size_err r' = e \<and> consumed r' = consumed r \<and> er_remaining r' = 0 \<and>
     er_expected r' = er_expected r \<and> er_require_eof r' = er_require_eof r \<and> \<not> is_eof e \<and>
     (e = None \<longrightarrow> er_eof_validated r') \<and> (er_eof_validated r \<longrightarrow> er_eof_validated r')"

lemma probe_failed_ok:
  assumes "exact_ok src S p0 r h" and "er_remaining r = 0" and "\<not> is_eof (Some x)" and "probe_failed r x = (e, r')"
  shows "probed src S p0 r e r' h'"
  using assms exact_ok_failed [OF assms(1)] by (auto simp: probe_failed_def probed_def consumed_def)

lemma probe_loop_ok:
  assumes "exact_ok src S p0 r h" and "holds_stream src S" and "er_remaining r = 0" and "er_size_err r = None"
    and "probe_loop src left r h = ((e, r'), h')"
  shows "probed src S p0 r e r' h'"
  using assms
proof (induction left arbitrary: h)
  case 0
  then have "probe_failed r (wrapf ''checking reader against declared size'' (Internal IoNoProgress)) = (e, r')" by simp
  then show ?case by (rule probe_failed_ok [OF 0(1,3), rotated]) simp
next
  case (Suc left)
  obtain n d x h1 where rd: "source_read src 1 h = ((n, d, x), h1)" by (metis prod_cases4 surj_pair)
  note st = source_read_stream [OF rd Suc.prems(2)]
  consider "n > 0" | "\<not> n > 0" "is_eof x" | y where "\<not> n > 0" "\<not> is_eof x" "x = Some y"
    | "\<not> n > 0" "x = None" by (cases x) auto
  then show ?case
  proof cases
    case 1
    with Suc.prems(5) rd obtain m where "probe_failed r (Text m) = (e, r')" by auto
    then show ?thesis by (rule probe_failed_ok [OF Suc.prems(1,3), rotated]) simp
  next
    case 2
    with Suc.prems(5) rd have "e = None \<and> r' = r\<lparr>er_eof_validated := True\<rparr> \<and> h' = h1" by auto
    with Suc.prems(1,3,4) st 2 show ?thesis by (auto simp: probed_def exact_ok_def consumed_def)
  next
    case 3
    with Suc.prems(5) rd have "probe_failed r (wrapf ''checking reader against declared size'' y) = (e, r')" by auto
    then show ?thesis by (rule probe_failed_ok [OF Suc.prems(1,3), rotated]) (use 3 in simp)
  next
    case 4
    have "exact_ok src S p0 r h1" using st 4 by (intro exact_ok_still [OF Suc.prems(1)]) simp
    with Suc.IH [OF this Suc.prems(2-4)] Suc.prems(5) rd 4 show ?thesis by simp
  qed
qed

text \<open>One \<open>Read\<close>: the next bytes of the stream, in order, and an honest end.\<close>

definition exact_reads :: "byte list \<Rightarrow> nat \<Rightarrow> exact_reader \<Rightarrow> byte list \<Rightarrow> goerr option \<Rightarrow> exact_reader \<Rightarrow> bool" where
  "exact_reads S p0 r d e r' \<longleftrightarrow>
     d = take (length d) (drop (p0 + consumed r) S) \<and> consumed r' = consumed r + length d \<and>
     er_expected r' = er_expected r \<and> er_require_eof r' = er_require_eof r \<and>
     (er_size_err r' = None \<longrightarrow> e = None \<or> is_eof e \<and> er_remaining r' = 0) \<and>
     (er_size_err r' \<noteq> None \<longrightarrow> e = er_size_err r' \<and> \<not> is_eof e) \<and>
     (er_remaining r \<noteq> 0 \<and> er_remaining r' = 0 \<and> er_size_err r' = None \<and> er_require_eof r \<longrightarrow> er_eof_validated r') \<and>
     (er_eof_validated r \<longrightarrow> er_eof_validated r')"

lemma exact_failed_ok:
  assumes "exact_ok src S p0 r1 h" and "\<not> is_eof (Some x)" and "exact_failed d0 x r1 = ((d, e), r')"
    and "d0 = take (length d0) (drop (p0 + consumed r) S)" and "consumed r1 = consumed r + length d0"
    and "er_expected r1 = er_expected r" "er_require_eof r1 = er_require_eof r" "er_eof_validated r1 = er_eof_validated r"
  shows "exact_ok src S p0 r' h' \<and> exact_reads S p0 r d e r' \<and> d = d0"
  using assms exact_ok_failed [OF assms(1)] by (auto simp: exact_failed_def exact_reads_def consumed_def)

lemma exact_data_ok:
  assumes "exact_ok src S p0 r h" and "holds_stream src S" and "er_size_err r = None"
    and "er_remaining r > 0" and "int p \<le> er_remaining r" and "0 \<le> n" "n \<le> int p" "\<not> (n = 0 \<and> x = None)"
    and "source_read src p h = ((n, d, x), h1)" and "exact_answer src p n d x r h1 = (((d', e), r'), h')"
  shows "exact_ok src S p0 r' h' \<and> exact_reads S p0 r d' e r' \<and> d' = d"
proof -
  note st = source_read_stream [OF assms(9,2)]
  have pos: "source_pos src h = p0 + consumed r" using assms(1,3) by (simp add: exact_ok_def)
  let ?r = "r\<lparr>er_empty_reads := 0, er_remaining := er_remaining r - n\<rparr>"
  have len: "length d = nat n" using st assms(6,7) by simp
  have c: "consumed ?r = consumed r + length d"
    using assms(1,5-7) len nat_add_distrib [of "er_expected r - er_remaining r" n]
    by (simp add: consumed_def exact_ok_def algebra_simps)
  have "consumed r + nat n \<le> length S - p0" using assms(1) st pos by (auto simp: exact_ok_def)
  with assms(1,3-7) st c len pos have ok: "exact_ok src S p0 ?r h1" by (simp add: exact_ok_def)
  have data: "d = take (length d) (drop (p0 + consumed r) S)" using st len pos by simp
  have no: "\<not> (n < 0 \<or> n > int p)" using assms(6,7) by simp
  consider y where "x = Some y" "\<not> is_eof x" | "is_eof x" "er_remaining ?r > 0"
    | "x = None" "er_remaining ?r = 0" "er_require_eof r" | "is_eof x" "er_remaining ?r = 0"
    | "x = None" "\<not> (er_remaining ?r = 0 \<and> er_require_eof r)"
    using assms(5,7) by (cases x; cases "is_eof x") (fastforce+)
  then show ?thesis
  proof cases
    case 1
    then have "exact_failed d (wrapf ''reading declared upload body'' y) ?r = ((d', e), r') \<and> h' = h1"
      using assms(8,10) no by (simp add: exact_answer_def Let_def)
    with 1 exact_failed_ok [OF ok _ _ data c, of "wrapf ''reading declared upload body'' y" d' e r' h1]
    show ?thesis by auto
  next
    case 2
    then have "exact_failed d (short_source ?r) ?r = ((d', e), r') \<and> h' = h1"
      using assms(8,10) no by (auto simp: exact_answer_def Let_def)
    moreover have "\<not> is_eof (Some (short_source ?r))" by (simp add: short_source_def)
    ultimately show ?thesis using exact_failed_ok [OF ok _ _ data c, of "short_source ?r" d' e r' h1] by auto
  next
    case 3
    obtain y r2 h2 where pr: "probe_eof src ?r h1 = ((y, r2), h2)" by (metis surj_pair)
    have p: "probed src S p0 ?r y r2 h2"
      using probe_loop_ok [OF ok assms(2)] pr 3 assms(3) by (simp add: probe_eof_def)
    have "((d, y), r2) = ((d', e), r') \<and> h' = h2"
      using assms(8,10) no 3 pr by (auto simp: exact_answer_def Let_def split: option.splits)
    with p data c 3 show ?thesis by (auto simp: probed_def exact_reads_def)
  next
    case 4
    have run: "((d, x), if er_require_eof r then ?r\<lparr>er_eof_validated := True\<rparr> else ?r) = ((d', e), r') \<and> h' = h1"
      using assms(8,10) no 4 by (auto simp: exact_answer_def Let_def)
    have "length S \<le> p0 + consumed ?r" using st pos c len 4 by simp
    with run ok 4 have "exact_ok src S p0 r' h'" by (auto simp: exact_ok_def consumed_def split: if_splits)
    moreover have "consumed r' = consumed ?r" "er_size_err r' = None" "er_remaining r' = 0" "er_expected r' = er_expected r"
      "er_require_eof r' = er_require_eof r" "er_require_eof r \<longrightarrow> er_eof_validated r'"
      "er_eof_validated r \<longrightarrow> er_eof_validated r'" "d' = d" "e = x"
      using run assms(3) 4 by (auto simp: consumed_def split: if_splits)
    ultimately show ?thesis using data c 4 by (simp add: exact_reads_def)
  next
    case 5
    have "((d, x), ?r) = ((d', e), r') \<and> h' = h1"
      using assms(8,10) no 5 by (auto simp: exact_answer_def Let_def)
    with ok data c assms(3) 5 show ?thesis by (auto simp: exact_reads_def)
  qed
qed

lemma exact_answer_ok:
  assumes "exact_ok src S p0 r h" and "holds_stream src S" and "er_size_err r = None"
    and "er_remaining r > 0" and "int p \<le> er_remaining r"
    and "source_read src p h = ((n, d, x), h1)" and "exact_answer src p n d x r h1 = (((d', e), r'), h')"
  shows "exact_ok src S p0 r' h' \<and> exact_reads S p0 r d' e r' \<and> length d' \<le> p"
proof -
  note st = source_read_stream [OF assms(6,2)]
  consider "n < 0 \<or> n > int p" | "n = 0" "x = None" | "0 \<le> n" "n \<le> int p" "\<not> (n = 0 \<and> x = None)" by linarith
  then show ?thesis
  proof cases
    case 1
    then obtain m where "exact_failed [] (Text m) r = ((d', e), r')"
      using assms(7) by (auto simp: exact_answer_def)
    from exact_failed_ok [OF assms(1) _ this, of r h'] show ?thesis by auto
  next
    case 2
    let ?r = "r\<lparr>er_empty_reads := er_empty_reads r + 1\<rparr>"
    have ok: "exact_ok src S p0 ?r h1"
      using assms(1) st 2 by (auto simp: exact_ok_def consumed_def)
    have "exact_failed [] (wrapf ''reading declared upload body'' (Internal IoNoProgress)) ?r = ((d', e), r') \<or>
        (([], None), ?r) = ((d', e), r')" and h: "h' = h1"
      using assms(7) 2 by (auto simp: exact_answer_def Let_def split: if_splits)
    then show ?thesis
    proof (elim disjE)
      assume "exact_failed [] (wrapf ''reading declared upload body'' (Internal IoNoProgress)) ?r = ((d', e), r')"
      from exact_failed_ok [OF ok _ this, of r h'] show ?thesis by (auto simp: consumed_def)
    next
      assume "(([], None), ?r) = ((d', e), r')"
      with ok h assms(3,4) show ?thesis by (auto simp: exact_reads_def consumed_def)
    qed
  next
    case 3
    from exact_data_ok [OF assms(1-5) 3 assms(6,7)] st show ?thesis by auto
  qed
qed

lemma exact_read_ok:
  assumes "exact_ok src S p0 r h" and "holds_stream src S" and "er_size_err r = None"
    and "exact_read src p r h = (((d, e), r'), h')"
  shows "exact_ok src S p0 r' h' \<and> exact_reads S p0 r d e r' \<and> length d \<le> p"
proof (cases "er_remaining r = 0")
  case True
  with assms(1,3,4) show ?thesis
    by (auto simp: exact_read_def exact_reads_def is_eof_def errors_is_def eof_def)
next
  case False
  let ?p = "if int p > er_remaining r then nat (er_remaining r) else p"
  have pos: "er_remaining r > 0" using False assms(1) by (simp add: exact_ok_def)
  obtain n d0 x h1 where rd: "source_read src ?p h = ((n, d0, x), h1)" by (metis prod_cases4 surj_pair)
  have "exact_answer src ?p n d0 x r h1 = (((d, e), r'), h')"
    using assms(4) False rd by (simp add: exact_read_def Let_def split: if_splits)
  moreover have "int ?p \<le> er_remaining r" and "?p \<le> p" using pos by auto
  ultimately show ?thesis using exact_answer_ok [OF assms(1-3) pos _ rd] by fastforce
qed

end
