(* ===== verification/UploadBody.thy ===== *)
theory UploadBody
  imports ExactReader "HOL-Library.Sublist" "HOL-Library.Signed_Division"
begin

text \<open>
  upload_body.go, \<open>uploadBody\<close>: a pump goroutine stages batches of the caller's reader for the
  transport that reads and closes the request body. A state holds the fields, the two channels
  and where each goroutine stands; a step is one critical section or one communication. The
  buffers are counted, their contents travel with the batches; the process-wide reserve they come
  from and return to has no other effect and is left out.
\<close>

section \<open>State\<close>

definition upload_body_buffer_size :: int where
  "upload_body_buffer_size = 256 * 1024"

definition upload_body_buffer_count :: nat where
  "upload_body_buffer_count = 4"

type_synonym upload_body_chunk = "byte list \<times> goerr option"

datatype pump_pc = PumpOff | PumpInit | PumpTake | PumpFill | PumpRead | PumpPut upload_body_chunk | PumpExit | PumpDone

text \<open>
  \<open>Read\<close> with the size of its buffer: before \<open>startPump\<close>, in the loop, with a received batch,
  behind the copy, and on its way out with what it returns.
\<close>

datatype body_pc =
    BodyIdle | BodyStart nat | BodyLoop nat | BodyGot nat upload_body_chunk | BodyCopied "byte list"
  | BodyFinish "byte list" "goerr option"

text \<open>
  \<open>ub_once\<close> is the state of the \<open>sync.Once\<close>, \<open>ub_closer\<close> a \<open>Close\<close> before its \<open>TryLock\<close>;
  \<open>ub_out\<close> is what all reads delivered and \<open>ub_result\<close> what the latest one returned.
\<close>

record upload_body =
  ub_exact :: exact_reader
  ub_wire :: "wire_tracker option"
  ub_chunks :: "upload_body_chunk list"
  ub_available :: nat
  ub_buffers :: nat
  ub_current :: "byte list option"
  ub_offset :: nat
  ub_current_err :: "goerr option"
  ub_close_called :: bool
  ub_read_active :: bool
  ub_pump_started :: bool
  ub_pump_done :: bool
  ub_written :: int
  ub_released :: bool
  ub_once :: bool
  ub_pump :: pump_pc
  ub_reader :: body_pc
  ub_closer :: bool
  ub_out :: "byte list"
  ub_result :: "upload_body_chunk option"

definition new_upload_body :: "exact_reader \<Rightarrow> wire_tracker option \<Rightarrow> upload_body" where
  "new_upload_body exact wire =
     \<lparr>ub_exact = exact, ub_wire = wire, ub_chunks = [], ub_available = 0, ub_buffers = 0, ub_current = None,
      ub_offset = 0, ub_current_err = None, ub_close_called = False, ub_read_active = False,
      ub_pump_started = False, ub_pump_done = False, ub_written = 0, ub_released = False, ub_once = False,
      ub_pump = PumpOff, ub_reader = BodyIdle, ub_closer = False, ub_out = [], ub_result = None\<rparr>"

definition body_closed :: goerr where
  "body_closed = Internal HttpBodyReadAfterClose"

section \<open>Shared sections\<close>

definition release_locked :: "upload_body \<Rightarrow> upload_body" where
  "release_locked b = (if ub_released b then b else b\<lparr>ub_released := True, ub_buffers := 0\<rparr>)"

definition release_if_idle :: "upload_body \<Rightarrow> upload_body" where
  "release_if_idle b =
     (if ub_close_called b \<and> (\<not> ub_pump_started b \<or> ub_pump_done b) \<and> \<not> ub_read_active b
      then release_locked b else b)"

definition recycle_current :: "upload_body \<Rightarrow> upload_body" where
  "recycle_current b =
     (case ub_current b of
        None \<Rightarrow> b
      | Some d \<Rightarrow> b\<lparr>ub_current := None, ub_offset := 0, ub_current_err := None,
                    ub_available := ub_available b + 1\<rparr>)"

definition buffer_size :: "exact_reader \<Rightarrow> int" where
  "buffer_size r = min upload_body_buffer_size (er_expected r)"

definition buffer_count :: "exact_reader \<Rightarrow> nat" where
  "buffer_count r = nat (min (int upload_body_buffer_count) (1 + (er_expected r - 1) sdiv buffer_size r))"

section \<open>The pump\<close>

text \<open>The pump's next step; of two ready cases of a \<open>select\<close>, \<open>pump_stop\<close> takes \<open>closed\<close>.\<close>

fun pump_go :: "source \<Rightarrow> upload_body \<Rightarrow> history \<Rightarrow> (upload_body \<times> history) option" where
  "pump_go src b h =
     (case ub_pump b of
        PumpOff \<Rightarrow> None
      | PumpInit \<Rightarrow>
          if er_expected (ub_exact b) \<le> 0 then Some (b\<lparr>ub_pump := PumpPut ([], Some eof)\<rparr>, h)
          else Some (b\<lparr>ub_buffers := buffer_count (ub_exact b), ub_available := buffer_count (ub_exact b),
                       ub_pump := PumpTake\<rparr>, h)
      | PumpTake \<Rightarrow>
          if 0 < ub_available b then Some (b\<lparr>ub_available := ub_available b - 1, ub_pump := PumpFill\<rparr>, h) else None
      | PumpFill \<Rightarrow> Some (b\<lparr>ub_pump := (if ub_close_called b then PumpExit else PumpRead)\<rparr>, h)
      | PumpRead \<Rightarrow>
          (case exact_read src (nat (buffer_size (ub_exact b))) (ub_exact b) h of
             (((d, e), r), h1) \<Rightarrow>
               Some (b\<lparr>ub_exact := r, ub_pump := (if d \<noteq> [] \<or> e \<noteq> None then PumpPut (d, e) else PumpFill)\<rparr>, h1))
      | PumpPut (d, e) \<Rightarrow>
          if length (ub_chunks b) < upload_body_buffer_count
          then Some (b\<lparr>ub_chunks := ub_chunks b @ [(d, e)],
                       ub_pump := (if d = [] \<or> e \<noteq> None then PumpExit else PumpTake)\<rparr>, h)
          else None
      | PumpExit \<Rightarrow> Some (release_if_idle (b\<lparr>ub_pump_done := True, ub_pump := PumpDone\<rparr>), h)
      | PumpDone \<Rightarrow> None)"

fun pump_stop :: "upload_body \<Rightarrow> upload_body option" where
  "pump_stop b =
     (if \<not> ub_close_called b then None
      else
        (case ub_pump b of
           PumpTake \<Rightarrow> Some (b\<lparr>ub_pump := PumpExit\<rparr>)
         | PumpPut c \<Rightarrow> Some (b\<lparr>ub_pump := PumpExit\<rparr>)
         | _ \<Rightarrow> None))"

section \<open>The transport's side\<close>

fun body_call :: "nat \<Rightarrow> upload_body \<Rightarrow> upload_body option" where
  "body_call n b =
     (if ub_reader b \<noteq> BodyIdle then None
      else if n = 0 then Some (b\<lparr>ub_result := Some ([], None)\<rparr>)
      else if ub_close_called b then Some (recycle_current (b\<lparr>ub_result := Some ([], Some body_closed)\<rparr>))
      else Some (b\<lparr>ub_read_active := True, ub_reader := BodyStart n\<rparr>))"

definition start_pump :: "upload_body \<Rightarrow> upload_body" where
  "start_pump b = (if ub_close_called b then b else b\<lparr>ub_pump_started := True, ub_pump := PumpInit\<rparr>)"

text \<open>The bytes of the current batch that are still to be read.\<close>

definition current_left :: "upload_body \<Rightarrow> byte list" where
  "current_left b = (case ub_current b of None \<Rightarrow> [] | Some d \<Rightarrow> drop (ub_offset b) d)"

fun body_go :: "upload_body \<Rightarrow> history \<Rightarrow> (upload_body \<times> history) option" where
  "body_go b h =
     (case ub_reader b of
        BodyIdle \<Rightarrow> None
      | BodyStart n \<Rightarrow>
          Some ((if ub_once b then b else start_pump (b\<lparr>ub_once := True\<rparr>))\<lparr>ub_reader := BodyLoop n\<rparr>, h)
      | BodyLoop n \<Rightarrow>
          if current_left b \<noteq> [] then
            (if ub_close_called b then Some (b\<lparr>ub_reader := BodyFinish [] (Some body_closed)\<rparr>, h)
             else
               let d = take n (current_left b) in
               Some (b\<lparr>ub_offset := ub_offset b + length d, ub_written := ub_written b + int (length d),
                       ub_out := ub_out b @ d, ub_reader := BodyCopied d\<rparr>, h))
          else
            (case ub_chunks b of
               [] \<Rightarrow> None
             | c # cs \<Rightarrow> Some (b\<lparr>ub_chunks := cs, ub_reader := BodyGot n c\<rparr>, h))
      | BodyGot n (d, e) \<Rightarrow>
          if ub_close_called b then Some (b\<lparr>ub_reader := BodyFinish [] (Some body_closed)\<rparr>, h)
          else if d = [] then Some (b\<lparr>ub_reader := BodyFinish [] e\<rparr>, h)
          else Some (b\<lparr>ub_current := Some d, ub_offset := 0, ub_current_err := e, ub_reader := BodyLoop n\<rparr>, h)
      | BodyCopied d \<Rightarrow>
          Some (if current_left b = []
                then (recycle_current b)\<lparr>ub_reader := BodyFinish d (ub_current_err b)\<rparr>
                else b\<lparr>ub_reader := BodyFinish d None\<rparr>,
                wire_add (int (length d)) (ub_wire b) h)
      | BodyFinish d e \<Rightarrow>
          Some (release_if_idle
                  ((if ub_close_called b then recycle_current b else b)
                     \<lparr>ub_read_active := False, ub_reader := BodyIdle, ub_result := Some (d, e)\<rparr>), h))"

fun body_stop :: "upload_body \<Rightarrow> upload_body option" where
  "body_stop b =
     (case ub_reader b of
        BodyLoop n \<Rightarrow>
          if ub_close_called b \<and> current_left b = []
          then Some (b\<lparr>ub_reader := BodyFinish [] (Some body_closed)\<rparr>) else None
      | _ \<Rightarrow> None)"

definition close_call_body :: "upload_body \<Rightarrow> upload_body" where
  "close_call_body b =
     (if ub_close_called b then b else release_if_idle (b\<lparr>ub_close_called := True, ub_closer := True\<rparr>))"

text \<open>The \<open>TryLock\<close> succeeds when no \<open>Read\<close> runs.\<close>

definition close_go_body :: "upload_body \<Rightarrow> upload_body option" where
  "close_go_body b =
     (if \<not> ub_closer b then None
      else Some ((if ub_reader b = BodyIdle then recycle_current b else b)\<lparr>ub_closer := False\<rparr>))"

section \<open>Interleaving\<close>

datatype body_action = PumpGo | PumpStop | BodyCall nat | BodyGo | BodyStop | BodyClose | BodyCloseGo

fun body_perform :: "source \<Rightarrow> body_action \<Rightarrow> upload_body \<Rightarrow> history \<Rightarrow> (upload_body \<times> history) option" where
  "body_perform src PumpGo b h = pump_go src b h"
| "body_perform src PumpStop b h = map_option (\<lambda>b'. (b', h)) (pump_stop b)"
| "body_perform src (BodyCall n) b h = map_option (\<lambda>b'. (b', h)) (body_call n b)"
| "body_perform src BodyGo b h = body_go b h"
| "body_perform src BodyStop b h = map_option (\<lambda>b'. (b', h)) (body_stop b)"
| "body_perform src BodyClose b h = Some (close_call_body b, h)"
| "body_perform src BodyCloseGo b h = map_option (\<lambda>b'. (b', h)) (close_go_body b)"

text \<open>
  The states that a body may be in that was made over \<open>exact\<close> at \<open>h0\<close>; while it runs, events
  that do not concern the caller's reader may happen.
\<close>

definition of_source :: "event \<Rightarrow> bool" where
  "of_source e \<longleftrightarrow> (case e of EvSourceRead n \<Rightarrow> True | EvSourceSeek k \<Rightarrow> True | _ \<Rightarrow> False)"

inductive body_reached :: "source \<Rightarrow> exact_reader \<Rightarrow> wire_tracker option \<Rightarrow> history \<Rightarrow> upload_body \<Rightarrow> history \<Rightarrow> bool"
  for src :: source and exact :: exact_reader and wire :: "wire_tracker option" and h0 :: history where
  body_new: "body_reached src exact wire h0 (new_upload_body exact wire) h0"
| body_step:
    "body_reached src exact wire h0 b h \<Longrightarrow> body_perform src a b h = Some (b', h') \<Longrightarrow>
     body_reached src exact wire h0 b' h'"
| body_elsewhere:
    "body_reached src exact wire h0 b h \<Longrightarrow> \<not> of_source e \<Longrightarrow> body_reached src exact wire h0 b (e # h)"

text \<open>\<open>validate\<close>, once the body is released.\<close>

definition body_validate :: "upload_body \<Rightarrow> goerr option" where
  "body_validate b =
     (let r = ub_exact b in
      case er_size_err r of
        Some e \<Rightarrow> Some e
      | None \<Rightarrow>
          if ub_written b \<noteq> er_expected r then
            Some (Text (''reader size does not match declared size: request consumed ''
                @ fmt_d (er_offset r + ub_written b) @ '' bytes, expected ''
                @ fmt_d (er_offset r + er_expected r)))
          else exact_validate r)"

definition source_error_if_released :: "upload_body \<Rightarrow> goerr option" where
  "source_error_if_released b = (if ub_released b then er_size_err (ub_exact b) else None)"

section \<open>Ownership\<close>

lemma recycle_fields [simp]:
  "ub_exact (recycle_current b) = ub_exact b"
  "ub_wire (recycle_current b) = ub_wire b"
  "ub_chunks (recycle_current b) = ub_chunks b"
  "ub_buffers (recycle_current b) = ub_buffers b"
  "ub_close_called (recycle_current b) = ub_close_called b"
  "ub_read_active (recycle_current b) = ub_read_active b"
  "ub_pump_started (recycle_current b) = ub_pump_started b"
  "ub_pump_done (recycle_current b) = ub_pump_done b"
  "ub_written (recycle_current b) = ub_written b"
  "ub_released (recycle_current b) = ub_released b"
  "ub_once (recycle_current b) = ub_once b"
  "ub_pump (recycle_current b) = ub_pump b"
  "ub_reader (recycle_current b) = ub_reader b"
  "ub_closer (recycle_current b) = ub_closer b"
  "ub_out (recycle_current b) = ub_out b"
  "ub_result (recycle_current b) = ub_result b"
  by (simp_all add: recycle_current_def split: option.split)

lemma recycle_current_None [simp]: "ub_current (recycle_current b) = None"
  by (simp add: recycle_current_def split: option.split)

lemma release_fields [simp]:
  "ub_exact (release_if_idle b) = ub_exact b"
  "ub_wire (release_if_idle b) = ub_wire b"
  "ub_chunks (release_if_idle b) = ub_chunks b"
  "ub_available (release_if_idle b) = ub_available b"
  "ub_current (release_if_idle b) = ub_current b"
  "ub_offset (release_if_idle b) = ub_offset b"
  "ub_current_err (release_if_idle b) = ub_current_err b"
  "ub_close_called (release_if_idle b) = ub_close_called b"
  "ub_read_active (release_if_idle b) = ub_read_active b"
  "ub_pump_started (release_if_idle b) = ub_pump_started b"
  "ub_pump_done (release_if_idle b) = ub_pump_done b"
  "ub_written (release_if_idle b) = ub_written b"
  "ub_once (release_if_idle b) = ub_once b"
  "ub_pump (release_if_idle b) = ub_pump b"
  "ub_reader (release_if_idle b) = ub_reader b"
  "ub_closer (release_if_idle b) = ub_closer b"
  "ub_out (release_if_idle b) = ub_out b"
  "ub_result (release_if_idle b) = ub_result b"
  by (simp_all add: release_if_idle_def release_locked_def split: option.split)

lemma release_released [simp]:
  "ub_released (release_if_idle b) \<longleftrightarrow>
     ub_released b \<or> ub_close_called b \<and> (\<not> ub_pump_started b \<or> ub_pump_done b) \<and> \<not> ub_read_active b"
  by (simp add: release_if_idle_def release_locked_def)

lemma start_pump_fields [simp]:
  "ub_exact (start_pump b) = ub_exact b"
  "ub_wire (start_pump b) = ub_wire b"
  "ub_chunks (start_pump b) = ub_chunks b"
  "ub_available (start_pump b) = ub_available b"
  "ub_buffers (start_pump b) = ub_buffers b"
  "ub_current (start_pump b) = ub_current b"
  "ub_offset (start_pump b) = ub_offset b"
  "ub_current_err (start_pump b) = ub_current_err b"
  "ub_close_called (start_pump b) = ub_close_called b"
  "ub_read_active (start_pump b) = ub_read_active b"
  "ub_pump_done (start_pump b) = ub_pump_done b"
  "ub_written (start_pump b) = ub_written b"
  "ub_released (start_pump b) = ub_released b"
  "ub_once (start_pump b) = ub_once b"
  "ub_reader (start_pump b) = ub_reader b"
  "ub_closer (start_pump b) = ub_closer b"
  "ub_out (start_pump b) = ub_out b"
  "ub_result (start_pump b) = ub_result b"
  by (simp_all add: start_pump_def split: option.split)

lemma start_pump_pc [simp]:
  "ub_pump (start_pump b) = (if ub_close_called b then ub_pump b else PumpInit)"
  "ub_pump_started (start_pump b) \<longleftrightarrow> ub_pump_started b \<or> \<not> ub_close_called b"
  by (auto simp: start_pump_def)

lemma close_call_fields:
  "\<not> ub_close_called b \<Longrightarrow> close_call_body b = release_if_idle (b\<lparr>ub_close_called := True, ub_closer := True\<rparr>)"
  "ub_close_called b \<Longrightarrow> close_call_body b = b"
  by (simp_all add: close_call_body_def)

text \<open>Where the goroutines stand and what the flags say belong together.\<close>

definition flags_inv :: "upload_body \<Rightarrow> bool" where
  "flags_inv b \<longleftrightarrow>
     ub_pump_started b = (ub_pump b \<noteq> PumpOff) \<and> ub_pump_done b = (ub_pump b = PumpDone) \<and>
     ub_read_active b = (ub_reader b \<noteq> BodyIdle) \<and> (ub_closer b \<longrightarrow> ub_close_called b) \<and>
     (\<not> ub_once b \<longrightarrow> ub_pump b = PumpOff) \<and>
     ub_released b = (ub_close_called b \<and> (ub_pump b = PumpOff \<or> ub_pump b = PumpDone) \<and> ub_reader b = BodyIdle)"

lemma pump_go_flags:
  assumes "pump_go src b h = Some (b', h')" and "flags_inv b" shows "flags_inv b'"
proof (cases "ub_pump b")
  case (PumpPut c)
  with assms show ?thesis by (cases c) (clarsimp simp: flags_inv_def split: if_splits)
qed (use assms in \<open>clarsimp simp: flags_inv_def split: if_splits prod.splits\<close>)+

lemma pump_stop_flags: "pump_stop b = Some b' \<Longrightarrow> flags_inv b \<Longrightarrow> flags_inv b'"
  by (cases "ub_pump b") (auto simp: flags_inv_def split: if_splits)

lemma body_go_flags:
  assumes "body_go b h = Some (b', h')" and "flags_inv b" shows "flags_inv b'"
proof (cases "ub_reader b")
  case (BodyLoop n)
  with assms show ?thesis by (clarsimp simp: flags_inv_def Let_def split: if_splits list.splits)
next
  case (BodyGot n c)
  with assms show ?thesis by (cases c) (clarsimp simp: flags_inv_def split: if_splits)
next
  case (BodyFinish d e)
  with assms show ?thesis by (cases "ub_close_called b") (clarsimp simp: flags_inv_def)+
qed (use assms in \<open>clarsimp simp: flags_inv_def split: if_splits\<close>)+

lemma body_call_flags: "body_call n b = Some b' \<Longrightarrow> flags_inv b \<Longrightarrow> flags_inv b'"
  by (auto simp: flags_inv_def split: if_splits)

lemma body_stop_flags: "body_stop b = Some b' \<Longrightarrow> flags_inv b \<Longrightarrow> flags_inv b'"
  by (cases "ub_reader b") (auto simp: flags_inv_def split: if_splits)

lemma close_call_flags: "flags_inv b \<Longrightarrow> flags_inv (close_call_body b)"
  by (cases "ub_close_called b") (auto simp: flags_inv_def close_call_fields)

lemma close_go_flags: "close_go_body b = Some b' \<Longrightarrow> flags_inv b \<Longrightarrow> flags_inv b'"
  by (auto simp: flags_inv_def close_go_body_def split: if_splits)

lemmas body_moves = pump_go.simps pump_stop.simps body_call.simps body_go.simps body_stop.simps

declare body_moves [simp del]

lemma perform_cases:
  assumes "body_perform src a b h = Some (b', h')"
    and "pump_go src b h = Some (b', h') \<Longrightarrow> Q"
    and "pump_stop b = Some b' \<Longrightarrow> h' = h \<Longrightarrow> Q"
    and "\<And>n. body_call n b = Some b' \<Longrightarrow> h' = h \<Longrightarrow> Q"
    and "body_go b h = Some (b', h') \<Longrightarrow> Q"
    and "body_stop b = Some b' \<Longrightarrow> h' = h \<Longrightarrow> Q"
    and "b' = close_call_body b \<Longrightarrow> h' = h \<Longrightarrow> Q"
    and "close_go_body b = Some b' \<Longrightarrow> h' = h \<Longrightarrow> Q"
  shows Q
  using assms by (cases a) auto

lemma perform_flags: "body_perform src a b h = Some (b', h') \<Longrightarrow> flags_inv b \<Longrightarrow> flags_inv b'"
  by (erule perform_cases) (auto intro: pump_go_flags pump_stop_flags body_call_flags body_go_flags body_stop_flags
      close_call_flags close_go_flags)

lemma body_flags: "body_reached src exact wire h0 b h \<Longrightarrow> flags_inv b"
proof (induction rule: body_reached.induct)
  case body_new
  show ?case by (simp add: flags_inv_def new_upload_body_def)
qed (auto intro: perform_flags)

section \<open>The bytes on their way\<close>

fun pump_holds :: "pump_pc \<Rightarrow> upload_body_chunk list" where
  "pump_holds (PumpPut c) = [c]"
| "pump_holds p = []"

fun body_holds :: "body_pc \<Rightarrow> upload_body_chunk list" where
  "body_holds (BodyGot n c) = [c]"
| "body_holds p = []"

definition current_batch :: "upload_body \<Rightarrow> upload_body_chunk list" where
  "current_batch b = (case ub_current b of None \<Rightarrow> [] | Some d \<Rightarrow> [(current_left b, ub_current_err b)])"

text \<open>All batches between the source and the transport, the next one first.\<close>

definition pipeline :: "upload_body \<Rightarrow> upload_body_chunk list" where
  "pipeline b = current_batch b @ body_holds (ub_reader b) @ ub_chunks b @ pump_holds (ub_pump b)"

fun reading :: "pump_pc \<Rightarrow> bool" where
  "reading (PumpPut c) = (snd c = None)"
| "reading PumpExit = False"
| "reading PumpDone = False"
| "reading p = True"

definition data_inv :: "source \<Rightarrow> byte list \<Rightarrow> nat \<Rightarrow> int \<Rightarrow> bool \<Rightarrow> upload_body \<Rightarrow> history \<Rightarrow> bool" where
  "data_inv src S p0 sz fin b h \<longleftrightarrow>
     exact_ok src S p0 (ub_exact b) h \<and> er_expected (ub_exact b) = sz \<and> er_require_eof (ub_exact b) = fin \<and>
     (reading (ub_pump b) \<longrightarrow> er_size_err (ub_exact b) = None) \<and>
     ub_written b = int (length (ub_out b)) \<and>
     prefix (ub_out b) (take (consumed (ub_exact b)) (drop p0 S)) \<and>
     (\<not> ub_close_called b \<longrightarrow>
        ub_out b @ concat (map fst (pipeline b)) = take (consumed (ub_exact b)) (drop p0 S))"

text \<open>The current batch depends on its own fields only.\<close>

lemma current_fields [simp]:
  "current_left (b\<lparr>ub_exact := x_exact\<rparr>) = current_left b"
  "current_left (b\<lparr>ub_chunks := x_chunks\<rparr>) = current_left b"
  "current_left (b\<lparr>ub_available := x_available\<rparr>) = current_left b"
  "current_left (b\<lparr>ub_buffers := x_buffers\<rparr>) = current_left b"
  "current_left (b\<lparr>ub_close_called := x_close_called\<rparr>) = current_left b"
  "current_left (b\<lparr>ub_read_active := x_read_active\<rparr>) = current_left b"
  "current_left (b\<lparr>ub_pump := x_pump\<rparr>) = current_left b"
  "current_left (b\<lparr>ub_pump_started := x_pump_started\<rparr>) = current_left b"
  "current_left (b\<lparr>ub_pump_done := x_pump_done\<rparr>) = current_left b"
  "current_left (b\<lparr>ub_released := x_released\<rparr>) = current_left b"
  "current_left (b\<lparr>ub_once := x_once\<rparr>) = current_left b"
  "current_left (b\<lparr>ub_reader := x_reader\<rparr>) = current_left b"
  "current_left (b\<lparr>ub_closer := x_closer\<rparr>) = current_left b"
  "current_left (b\<lparr>ub_written := x_written\<rparr>) = current_left b"
  "current_left (b\<lparr>ub_out := x_out\<rparr>) = current_left b"
  "current_left (b\<lparr>ub_result := x_result\<rparr>) = current_left b"
  "current_batch (b\<lparr>ub_exact := x_exact\<rparr>) = current_batch b"
  "current_batch (b\<lparr>ub_chunks := x_chunks\<rparr>) = current_batch b"
  "current_batch (b\<lparr>ub_available := x_available\<rparr>) = current_batch b"
  "current_batch (b\<lparr>ub_buffers := x_buffers\<rparr>) = current_batch b"
  "current_batch (b\<lparr>ub_close_called := x_close_called\<rparr>) = current_batch b"
  "current_batch (b\<lparr>ub_read_active := x_read_active\<rparr>) = current_batch b"
  "current_batch (b\<lparr>ub_pump := x_pump\<rparr>) = current_batch b"
  "current_batch (b\<lparr>ub_pump_started := x_pump_started\<rparr>) = current_batch b"
  "current_batch (b\<lparr>ub_pump_done := x_pump_done\<rparr>) = current_batch b"
  "current_batch (b\<lparr>ub_released := x_released\<rparr>) = current_batch b"
  "current_batch (b\<lparr>ub_once := x_once\<rparr>) = current_batch b"
  "current_batch (b\<lparr>ub_reader := x_reader\<rparr>) = current_batch b"
  "current_batch (b\<lparr>ub_closer := x_closer\<rparr>) = current_batch b"
  "current_batch (b\<lparr>ub_written := x_written\<rparr>) = current_batch b"
  "current_batch (b\<lparr>ub_out := x_out\<rparr>) = current_batch b"
  "current_batch (b\<lparr>ub_result := x_result\<rparr>) = current_batch b"
  by (simp_all add: current_left_def current_batch_def split: option.split)

lemma current_sections [simp]:
  "current_left (release_if_idle b) = current_left b" "current_batch (release_if_idle b) = current_batch b"
  "current_left (start_pump b) = current_left b" "current_batch (start_pump b) = current_batch b"
  by (simp_all add: release_if_idle_def release_locked_def start_pump_def)

lemma recycle_batch [simp]: "current_left (recycle_current b) = []" "current_batch (recycle_current b) = []"
  by (simp_all add: current_left_def current_batch_def)

text \<open>A batch is the current one until it is used up.\<close>

definition current_inv :: "upload_body \<Rightarrow> bool" where
  "current_inv b \<longleftrightarrow>
     (case ub_reader b of
        BodyCopied d \<Rightarrow> ub_current b \<noteq> None
      | BodyGot n c \<Rightarrow> ub_current b = None
      | _ \<Rightarrow> ub_current b \<noteq> None \<longrightarrow> current_left b \<noteq> [])"

lemma pump_go_keeps:
  assumes "pump_go src b h = Some (b', h')"
  shows "ub_reader b' = ub_reader b \<and> ub_current b' = ub_current b \<and> ub_offset b' = ub_offset b \<and>
    ub_current_err b' = ub_current_err b \<and> ub_out b' = ub_out b \<and> ub_written b' = ub_written b \<and>
    ub_close_called b' = ub_close_called b \<and> ub_wire b' = ub_wire b \<and> ub_result b' = ub_result b"
proof (cases "ub_pump b")
  case (PumpPut c)
  with assms show ?thesis by (cases c) (clarsimp simp: pump_go.simps split: if_splits)
qed (use assms in \<open>clarsimp simp: pump_go.simps split: if_splits prod.splits\<close>)+

lemma current_inv_same:
  assumes "ub_reader b' = ub_reader b" and "ub_current b' = ub_current b" and "ub_offset b' = ub_offset b"
  shows "current_inv b' = current_inv b"
proof -
  have "current_left b' = current_left b" using assms(2,3) by (simp add: current_left_def split: option.split)
  then show ?thesis using assms(1,2) by (cases "ub_reader b") (simp_all add: current_inv_def)
qed

lemma pump_current: "pump_go src b h = Some (b', h') \<Longrightarrow> current_inv b \<Longrightarrow> current_inv b'"
  using pump_go_keeps [of src b h b' h'] current_inv_same [of b' b] by simp

lemma current_there: "current_left b \<noteq> [] \<Longrightarrow> ub_current b \<noteq> None"
  by (cases "ub_current b") (simp_all add: current_left_def)

lemma body_current:
  assumes "body_go b h = Some (b', h')" and "current_inv b" shows "current_inv b'"
proof (cases "ub_reader b")
  case (BodyStart n)
  with assms show ?thesis by (cases "ub_once b") (auto simp: body_go.simps current_inv_def)
next
  case (BodyLoop n)
  consider "current_left b \<noteq> []" "ub_close_called b" | "current_left b \<noteq> []" "\<not> ub_close_called b"
    | c cs where "current_left b = []" "ub_chunks b = c # cs"
    using assms(1) BodyLoop by (cases "ub_chunks b"; cases "current_left b = []") (auto simp: body_go.simps)
  then show ?thesis
  proof cases
    case 2
    then have "ub_reader b' = BodyCopied (take n (current_left b)) \<and> ub_current b' = ub_current b"
      using assms(1) BodyLoop by (auto simp: body_go.simps Let_def)
    with current_there [OF 2(1)] show ?thesis by (simp add: current_inv_def)
  qed (use assms BodyLoop in \<open>auto simp: body_go.simps current_inv_def\<close>)
next
  case (BodyGot n c)
  with assms show ?thesis by (cases c) (auto simp: body_go.simps current_inv_def current_left_def split: if_splits)
next
  case (BodyCopied d)
  with assms show ?thesis by (cases "current_left b = []") (auto simp: body_go.simps current_inv_def)
next
  case (BodyFinish d e)
  with assms show ?thesis by (cases "ub_close_called b") (auto simp: body_go.simps current_inv_def)
qed (use assms in \<open>auto simp: body_go.simps\<close>)

lemma perform_current: "body_perform src a b h = Some (b', h') \<Longrightarrow> current_inv b \<Longrightarrow> current_inv b'"
proof (erule perform_cases)
  assume i: "current_inv b"
  show "pump_stop b = Some b' \<Longrightarrow> current_inv b'"
    using i by (cases "ub_pump b") (auto simp: current_inv_def pump_stop.simps split: if_splits body_pc.splits)
  show "body_call n b = Some b' \<Longrightarrow> current_inv b'" for n
    using i by (auto simp: current_inv_def body_call.simps split: if_splits)
  show "body_stop b = Some b' \<Longrightarrow> current_inv b'"
    using i by (cases "ub_reader b") (auto simp: current_inv_def body_stop.simps split: if_splits)
  show "b' = close_call_body b \<Longrightarrow> current_inv b'"
    using i by (auto simp: current_inv_def close_call_body_def split: body_pc.splits)
  show "close_go_body b = Some b' \<Longrightarrow> current_inv b'"
    using i by (auto simp: current_inv_def close_go_body_def split: if_splits body_pc.splits)
qed (auto intro: pump_current body_current)

lemma data_inv_frame:
  assumes "data_inv src S p0 sz fin b h"
    and "ub_exact b' = ub_exact b" "ub_written b' = ub_written b" "ub_out b' = ub_out b"
    and "ub_close_called b \<longrightarrow> ub_close_called b'" "reading (ub_pump b') \<longrightarrow> reading (ub_pump b)"
    and "\<not> ub_close_called b' \<longrightarrow> concat (map fst (pipeline b')) = concat (map fst (pipeline b))"
    and "source_pos src h' = source_pos src h"
  shows "data_inv src S p0 sz fin b' h'"
  using assms exact_ok_still [of src S p0 "ub_exact b" h h'] by (auto simp: data_inv_def)

lemma take_more: "d = take (length d) (drop (p0 + c) S) \<Longrightarrow> take c (drop p0 S) @ d = take (c + length d) (drop p0 S)"
  by (metis add.commute drop_drop take_add)

lemma prefix_more: "prefix xs (take c S) \<Longrightarrow> prefix xs (take (c + k) S)"
  by (metis prefix_order.trans take_add prefixI)

lemma pump_read_data:
  assumes "data_inv src S p0 sz fin b h" and "holds_stream src S" and "ub_pump b = PumpRead"
    and "exact_read src n (ub_exact b) h = (((d, e), r), h')"
  shows "data_inv src S p0 sz fin (b\<lparr>ub_exact := r, ub_pump := (if d \<noteq> [] \<or> e \<noteq> None then PumpPut (d, e) else PumpFill)\<rparr>) h'"
proof -
  note i = assms(1) [unfolded data_inv_def]
  have none: "er_size_err (ub_exact b) = None" and ok: "exact_ok src S p0 (ub_exact b) h" using i assms(3) by auto
  have x: "exact_ok src S p0 r h'" "exact_reads S p0 (ub_exact b) d e r" using exact_read_ok [OF ok assms(2) none assms(4)] by auto
  let ?b = "b\<lparr>ub_exact := r, ub_pump := (if d \<noteq> [] \<or> e \<noteq> None then PumpPut (d, e) else PumpFill)\<rparr>"
  have c: "consumed r = consumed (ub_exact b) + length d" "d = take (length d) (drop (p0 + consumed (ub_exact b)) S)"
    "er_expected r = sz" "er_require_eof r = fin" "er_size_err r \<noteq> None \<longrightarrow> e \<noteq> None" using x(2) i by (auto simp: exact_reads_def)
  have "concat (map fst (pipeline ?b)) = concat (map fst (pipeline b)) @ d"
    using assms(3) by (simp add: pipeline_def)
  moreover have "take (consumed r) (drop p0 S) = take (consumed (ub_exact b)) (drop p0 S) @ d"
    using take_more [OF c(2)] c(1) by simp
  ultimately show ?thesis
    using i x(1) c prefix_more [of "ub_out b" "consumed (ub_exact b)" "drop p0 S" "length d"]
    by (auto simp: data_inv_def)
qed

lemma source_pos_wire [simp]: "source_pos src (wire_add k t h) = source_pos src h"
  by (simp add: wire_add_def split: option.split)

lemma pump_go_data:
  assumes "pump_go src b h = Some (b', h')" and "data_inv src S p0 sz fin b h" and "holds_stream src S"
  shows "data_inv src S p0 sz fin b' h'"
proof (cases "ub_pump b")
  case PumpRead
  obtain d e r h1 where rd: "exact_read src (nat (buffer_size (ub_exact b))) (ub_exact b) h = (((d, e), r), h1)"
    by (metis surj_pair)
  with assms(1) PumpRead pump_read_data [OF assms(2,3) PumpRead rd] show ?thesis by (simp add: pump_go.simps)
next
  case (PumpPut c)
  with assms(1) show ?thesis
    by (cases c) (auto simp: pump_go.simps pipeline_def split: if_splits
        intro!: data_inv_frame [OF assms(2)])
qed (use assms(1) in \<open>auto simp: pump_go.simps pipeline_def split: if_splits
      intro!: data_inv_frame [OF assms(2)]\<close>)

lemma recycle_empty: "current_left b = [] \<Longrightarrow> concat (map fst (pipeline (recycle_current b))) = concat (map fst (pipeline b))"
  by (auto simp: pipeline_def current_batch_def split: option.splits)


lemma body_copy_data:
  assumes "data_inv src S p0 sz fin b h" and "ub_reader b = BodyLoop n" and "\<not> ub_close_called b"
    and "d = take n (current_left b)"
  shows "data_inv src S p0 sz fin
    (b\<lparr>ub_offset := ub_offset b + length d, ub_written := ub_written b + int (length d),
       ub_out := ub_out b @ d, ub_reader := BodyCopied d\<rparr>) h"
proof -
  let ?b = "b\<lparr>ub_offset := ub_offset b + length d, ub_written := ub_written b + int (length d),
       ub_out := ub_out b @ d, ub_reader := BodyCopied d\<rparr>"
  have split: "concat (map fst (current_batch b)) = d @ concat (map fst (current_batch ?b))"
  proof (cases "ub_current b")
    case (Some c)
    have "drop (ub_offset b) c = d @ drop (ub_offset b + length d) c"
      using assms(4) Some
      by (metis (no_types, lifting) append_take_drop_id current_left_def drop_drop length_take min.commute option.simps(5) take_all_iff add.commute drop_take nle_le take_take append_eq_conv_conj)
    with Some show ?thesis by (simp add: current_batch_def current_left_def)
  qed (use assms(4) in \<open>simp add: current_batch_def current_left_def\<close>)
  note i = assms(1) [unfolded data_inv_def]
  have "ub_out b @ concat (map fst (pipeline b)) = ub_out ?b @ concat (map fst (pipeline ?b))"
    using split assms(2) by (simp add: pipeline_def)
  moreover have "ub_out b @ concat (map fst (pipeline b)) = take (consumed (ub_exact b)) (drop p0 S)"
    using i assms(3) by blast
  ultimately have "ub_out ?b @ concat (map fst (pipeline ?b)) = take (consumed (ub_exact b)) (drop p0 S)" by metis
  moreover from this have "prefix (ub_out ?b) (take (consumed (ub_exact b)) (drop p0 S))" by (metis prefixI)
  ultimately show ?thesis using i by (simp add: data_inv_def pipeline_def)
qed

lemma body_go_data:
  assumes "body_go b h = Some (b', h')" and "data_inv src S p0 sz fin b h" and "current_inv b" and "flags_inv b"
  shows "data_inv src S p0 sz fin b' h'"
proof (cases "ub_reader b")
  case (BodyStart n)
  with assms(1,4) show ?thesis
    by (cases "ub_once b") (auto simp: body_go.simps pipeline_def flags_inv_def intro!: data_inv_frame [OF assms(2)])
next
  case (BodyLoop n)
  show ?thesis
  proof (cases "current_left b \<noteq> [] \<and> \<not> ub_close_called b")
    case True
    with assms(1) BodyLoop body_copy_data [OF assms(2) BodyLoop _ refl] show ?thesis
      by (auto simp: body_go.simps Let_def)
  next
    case False
    with assms(1) BodyLoop show ?thesis
      by (auto simp: body_go.simps pipeline_def split: if_splits list.splits intro!: data_inv_frame [OF assms(2)])
  qed
next
  case (BodyGot n c)
  with assms(1,3) show ?thesis
    by (cases c) (auto simp: body_go.simps pipeline_def current_batch_def current_left_def current_inv_def split: if_splits
        intro!: data_inv_frame [OF assms(2)])
next
  case (BodyFinish d e)
  with assms(1) show ?thesis
    by (cases "ub_close_called b") (auto simp: body_go.simps pipeline_def intro!: data_inv_frame [OF assms(2)])
next
  case (BodyCopied d)
  with assms(1) show ?thesis
    by (auto simp: body_go.simps pipeline_def current_batch_def split: if_splits option.splits intro!: data_inv_frame [OF assms(2)])
qed (use assms(1) in \<open>auto simp: body_go.simps pipeline_def intro!: data_inv_frame [OF assms(2)]\<close>)


lemma body_other_data:
  assumes "data_inv src S p0 sz fin b h" and "flags_inv b"
  shows "pump_stop b = Some b' \<Longrightarrow> data_inv src S p0 sz fin b' h"
    and "body_call n b = Some b' \<Longrightarrow> data_inv src S p0 sz fin b' h"
    and "body_stop b = Some b' \<Longrightarrow> data_inv src S p0 sz fin b' h"
    and "data_inv src S p0 sz fin (close_call_body b) h"
    and "close_go_body b = Some b' \<Longrightarrow> data_inv src S p0 sz fin b' h"
proof -
  show "data_inv src S p0 sz fin b' h" if "pump_stop b = Some b'"
    using that by (cases "ub_pump b") (auto simp: pump_stop.simps split: if_splits intro!: data_inv_frame [OF assms(1)])
  show "data_inv src S p0 sz fin b' h" if "body_call n b = Some b'"
    using that by (auto simp: body_call.simps pipeline_def split: if_splits intro!: data_inv_frame [OF assms(1)])
  show "data_inv src S p0 sz fin b' h" if "body_stop b = Some b'"
    using that by (cases "ub_reader b") (auto simp: body_stop.simps split: if_splits intro!: data_inv_frame [OF assms(1)])
  show "data_inv src S p0 sz fin (close_call_body b) h"
    by (cases "ub_close_called b") (auto simp: close_call_fields intro!: data_inv_frame [OF assms(1)] assms(1))
  show "data_inv src S p0 sz fin b' h" if "close_go_body b = Some b'"
    using that assms(2)
    by (auto simp: close_go_body_def flags_inv_def pipeline_def split: if_splits intro!: data_inv_frame [OF assms(1)])
qed

lemma perform_data:
  assumes "body_perform src a b h = Some (b', h')" and "data_inv src S p0 sz fin b h" and "holds_stream src S"
    and "flags_inv b" and "current_inv b"
  shows "data_inv src S p0 sz fin b' h'"
  using assms(1) by (rule perform_cases)
    (auto intro: pump_go_data [OF _ assms(2,3)] body_go_data [OF _ assms(2,5,4)] body_other_data [OF assms(2,4)])

end
