(* ===== verification/UploadGuarantees.thy ===== *)
theory UploadGuarantees
  imports UploadBody
begin

text \<open>
  What an upload body promises: it refines a one-way stream of the declared bytes, reports
  \<open>io.EOF\<close> behind all of them only, and lets go of the caller's reader after \<open>Close\<close>.
\<close>

section \<open>An honest end\<close>

fun only_last :: "goerr option list \<Rightarrow> bool" where
  "only_last [] = True"
| "only_last (e # es) = ((e \<noteq> None \<longrightarrow> es = []) \<and> only_last es)"

fun filling :: "pump_pc \<Rightarrow> bool" where
  "filling (PumpPut c) = False"
| "filling PumpExit = False"
| "filling PumpDone = False"
| "filling p = True"

definition errs_ok :: "goerr option list \<Rightarrow> pump_pc \<Rightarrow> int \<Rightarrow> bool" where
  "errs_ok es p left \<longleftrightarrow>
     only_last es \<and> (filling p \<longrightarrow> list_all (\<lambda>e. e = None) es) \<and> (list_ex is_eof es \<longrightarrow> left = 0)"

text \<open>\<open>io.EOF\<close> is passed on behind all the declared bytes.\<close>

definition end_inv :: "upload_body \<Rightarrow> bool" where
  "end_inv b \<longleftrightarrow>
     (\<not> ub_close_called b \<longrightarrow> errs_ok (map snd (pipeline b)) (ub_pump b) (er_remaining (ub_exact b))) \<and>
     (\<forall>d. ub_reader b = BodyCopied d \<and> current_left b = [] \<and> is_eof (ub_current_err b) \<longrightarrow>
        int (length (ub_out b)) = er_expected (ub_exact b)) \<and>
     (\<forall>d e. ub_reader b = BodyFinish d e \<and> is_eof e \<longrightarrow> int (length (ub_out b)) = er_expected (ub_exact b)) \<and>
     (\<forall>d e. ub_result b = Some (d, e) \<and> is_eof e \<longrightarrow> int (length (ub_out b)) = er_expected (ub_exact b))"

lemma only_last_append: "only_last (xs @ [e]) \<longleftrightarrow> list_all (\<lambda>e. e = None) xs"
  by (induction xs) auto

lemma errs_more: "list_all (\<lambda>e. e = None) es \<Longrightarrow> (is_eof e \<longrightarrow> left = 0) \<Longrightarrow> (filling p \<longrightarrow> e = None) \<Longrightarrow> errs_ok (es @ [e]) p left"
  by (auto simp: errs_ok_def only_last_append list_ex_iff list_all_iff)

lemma errs_tail: "errs_ok (e # es) p left \<Longrightarrow> errs_ok es p left"
  by (auto simp: errs_ok_def)

lemma errs_head: "errs_ok (e # es) p left \<Longrightarrow> is_eof e \<Longrightarrow> es = [] \<and> left = 0"
  by (auto simp: errs_ok_def)

lemma pipeline_errs_pump:
  "map snd (pipeline b) = map snd (current_batch b @ body_holds (ub_reader b) @ ub_chunks b) @ map snd (pump_holds (ub_pump b))"
  by (simp add: pipeline_def)

lemma drained:
  assumes "data_inv src S p0 sz fin b h" and "\<not> ub_close_called b" and "concat (map fst (pipeline b)) = []"
    and "er_remaining (ub_exact b) = 0"
  shows "int (length (ub_out b)) = er_expected (ub_exact b)"
  using assms by (auto simp: data_inv_def exact_ok_def consumed_def)

lemma read_errs:
  assumes "errs_ok es PumpRead left" and "is_eof e \<longrightarrow> left' = 0"
  shows "errs_ok (es @ map snd (pump_holds (if d \<noteq> [] \<or> e \<noteq> None then PumpPut (d, e) else PumpFill)))
    (if d \<noteq> [] \<or> e \<noteq> None then PumpPut (d, e) else PumpFill) left'"
proof -
  have none: "list_all (\<lambda>e. e = None) es" using assms(1) by (simp add: errs_ok_def)
  show ?thesis
  proof (cases "d \<noteq> [] \<or> e \<noteq> None")
    case True
    with errs_more [OF none assms(2), of "PumpPut (d, e)"] show ?thesis by simp
  next
    case False
    have "\<not> list_ex is_eof es" using none by (auto simp: list_ex_iff list_all_iff)
    with False assms(1) show ?thesis by (simp add: errs_ok_def)
  qed
qed

lemma put_errs:
  "errs_ok (es @ [e]) (PumpPut (d, e)) left \<Longrightarrow> errs_ok (es @ [e]) (if d = [] \<or> e \<noteq> None then PumpExit else PumpTake) left"
  by (auto simp: errs_ok_def only_last_append)

lemma same_errs: "errs_ok es p left \<Longrightarrow> (filling p' \<longrightarrow> filling p) \<Longrightarrow> errs_ok es p' left"
  by (auto simp: errs_ok_def)

lemma pump_errs:
  assumes "pump_go src b h = Some (b', h')" and "data_inv src S p0 sz fin b h" and "holds_stream src S"
    and "errs_ok (map snd (pipeline b)) (ub_pump b) (er_remaining (ub_exact b))"
  shows "errs_ok (map snd (pipeline b')) (ub_pump b') (er_remaining (ub_exact b'))"
proof -
  let ?es = "map snd (current_batch b @ body_holds (ub_reader b) @ ub_chunks b)"
  have ok: "errs_ok (?es @ map snd (pump_holds (ub_pump b))) (ub_pump b) (er_remaining (ub_exact b))"
    using assms(4) by (simp add: pipeline_def)
  show ?thesis
  proof (cases "ub_pump b")
    case PumpRead
    obtain d e r h1 where rd: "exact_read src (nat (buffer_size (ub_exact b))) (ub_exact b) h = (((d, e), r), h1)"
      by (metis surj_pair)
    have "er_size_err (ub_exact b) = None" "exact_ok src S p0 (ub_exact b) h"
      using assms(2) PumpRead by (simp_all add: data_inv_def)
    from exact_read_ok [OF this(2) assms(3) this(1) rd] have "exact_reads S p0 (ub_exact b) d e r" by blast
    then have e: "is_eof e \<longrightarrow> er_remaining r = 0" by (auto simp: exact_reads_def)
    have b': "b' = b\<lparr>ub_exact := r, ub_pump := (if d \<noteq> [] \<or> e \<noteq> None then PumpPut (d, e) else PumpFill)\<rparr>"
      using assms(1) PumpRead rd by (simp add: pump_go.simps)
    have "errs_ok ?es PumpRead (er_remaining (ub_exact b))" using ok PumpRead by simp
    from read_errs [OF this e, of d] show ?thesis unfolding b' by (simp add: pipeline_def del: if_split)
  next
    case (PumpPut c)
    obtain d e where c: "c = (d, e)" by (cases c)
    have "errs_ok (?es @ [e]) (PumpPut (d, e)) (er_remaining (ub_exact b))" using ok PumpPut c by simp
    from put_errs [OF this] show ?thesis
      using assms(1) PumpPut c by (cases "d = [] \<or> e \<noteq> None") (auto simp: pump_go.simps pipeline_def split: if_splits)
  next
    case PumpInit
    have none: "list_all (\<lambda>e. e = None) ?es" using ok PumpInit by (simp add: errs_ok_def)
    have ok': "errs_ok ?es PumpInit (er_remaining (ub_exact b))" using ok PumpInit by simp
    show ?thesis
    proof (cases "er_expected (ub_exact b) \<le> 0")
      case True
      then have "er_remaining (ub_exact b) = 0" using assms(2) by (auto simp: data_inv_def exact_ok_def)
      with errs_more [OF none, of "Some eof" "er_remaining (ub_exact b)" "PumpPut ([], Some eof)"]
      show ?thesis using assms(1) PumpInit True by (auto simp: pump_go.simps pipeline_def)
    next
      case False
      with assms(1) PumpInit same_errs [OF ok', of PumpTake] show ?thesis
        by (auto simp: pump_go.simps pipeline_def)
    qed
  next
    case PumpTake
    with assms(1) same_errs [OF ok, of PumpFill] show ?thesis by (auto simp: pump_go.simps pipeline_def split: if_splits)
  next
    case PumpFill
    with assms(1) same_errs [OF ok, of "ub_pump b'"] show ?thesis
      by (cases "ub_close_called b") (auto simp: pump_go.simps pipeline_def)
  next
    case PumpExit
    with assms(1) same_errs [OF ok, of PumpDone] show ?thesis by (auto simp: pump_go.simps pipeline_def)
  qed (use assms(1) in \<open>simp_all add: pump_go.simps\<close>)
qed

lemma pump_end:
  assumes "pump_go src b h = Some (b', h')" and "end_inv b" and "data_inv src S p0 sz fin b h" and "holds_stream src S"
  shows "end_inv b'"
proof -
  have "er_expected (ub_exact b') = er_expected (ub_exact b)"
    using assms(3) pump_go_data [OF assms(1,3,4)] by (simp add: data_inv_def)
  moreover have "current_left b' = current_left b"
    using pump_go_keeps [OF assms(1)] by (simp add: current_left_def split: option.split)
  ultimately show ?thesis
    using assms(2) pump_go_keeps [OF assms(1)] pump_errs [OF assms(1,3,4)] by (simp add: end_inv_def)
qed

lemma pipeline_recycled:
  "pipeline (recycle_current b) = body_holds (ub_reader b) @ ub_chunks b @ pump_holds (ub_pump b)"
  by (simp add: pipeline_def)

text \<open>A step that keeps the pipeline, the delivered bytes and what \<open>Read\<close> reports.\<close>

lemma end_frame:
  assumes "end_inv b" and "ub_exact b' = ub_exact b" "ub_out b' = ub_out b" "ub_pump b' = ub_pump b"
    and "\<not> ub_close_called b' \<longrightarrow> \<not> ub_close_called b \<and> map snd (pipeline b') = map snd (pipeline b)"
    and "\<forall>d. ub_reader b' = BodyCopied d \<longrightarrow> ub_reader b = BodyCopied d \<and> current_left b' = current_left b \<and>
      ub_current_err b' = ub_current_err b"
    and "\<forall>d e. ub_reader b' = BodyFinish d e \<and> is_eof e \<longrightarrow> ub_reader b = BodyFinish d e"
    and "\<forall>d e. ub_result b' = Some (d, e) \<and> is_eof e \<longrightarrow> ub_result b = Some (d, e) \<or> ub_reader b = BodyFinish d e"
  shows "end_inv b'"
  using assms unfolding end_inv_def by metis

lemma body_start_end:
  assumes "body_go b h = Some (b', h')" and "ub_reader b = BodyStart n" and "end_inv b" and "flags_inv b"
  shows "end_inv b'"
proof (cases "ub_once b \<or> ub_close_called b")
  case True
  with assms show ?thesis
    by (cases "ub_once b") (auto simp: body_go.simps pipeline_def start_pump_def intro!: end_frame [OF assms(3)])
next
  case False
  then have b': "b' = (start_pump (b\<lparr>ub_once := True\<rparr>))\<lparr>ub_reader := BodyLoop n\<rparr>" and off: "ub_pump b = PumpOff"
    using assms by (auto simp: body_go.simps flags_inv_def)
  have "errs_ok (map snd (pipeline b')) (ub_pump b') (er_remaining (ub_exact b'))"
    using assms(3) False off assms(2) by (simp add: b' end_inv_def pipeline_def errs_ok_def)
  with assms(3) False show ?thesis by (simp add: b' end_inv_def)
qed

text \<open>A batch that ends with an error is the last; one that ends with \<open>io.EOF\<close> completes the body.\<close>

lemma leading_eof:
  assumes "end_inv b" and "data_inv src S p0 sz fin b h" and "\<not> ub_close_called b"
    and "pipeline b = ([], e) # cs" and "is_eof e"
  shows "int (length (ub_out b)) = er_expected (ub_exact b)"
proof -
  have "errs_ok (e # map snd cs) (ub_pump b) (er_remaining (ub_exact b))"
    using assms(1,3,4) by (simp add: end_inv_def)
  from errs_head [OF this assms(5)] have "cs = []" "er_remaining (ub_exact b) = 0" by auto
  then show ?thesis using drained [OF assms(2,3)] assms(4) by simp
qed

lemma end_tail:
  assumes "end_inv b" and "\<not> ub_close_called b" and "pipeline b = c # cs"
  shows "errs_ok (map snd cs) (ub_pump b) (er_remaining (ub_exact b))"
  using assms errs_tail [of "snd c" "map snd cs"] by (simp add: end_inv_def)

lemma body_got_end:
  assumes "body_go b h = Some (b', h')" and "ub_reader b = BodyGot n (d, e)" and "end_inv b"
    and "data_inv src S p0 sz fin b h" and "current_inv b"
  shows "end_inv b'"
proof -
  have cur: "ub_current b = None" using assms(2,5) by (simp add: current_inv_def)
  then have pipe: "pipeline b = (d, e) # ub_chunks b @ pump_holds (ub_pump b)"
    using assms(2) by (simp add: pipeline_def current_batch_def)
  consider "ub_close_called b" | "\<not> ub_close_called b" "d = []" | "\<not> ub_close_called b" "d \<noteq> []" by blast
  then show ?thesis
  proof cases
    case 1
    with assms(1-3) show ?thesis
      by (auto simp: body_go.simps body_closed_def is_eof_def errors_is_def eof_def intro!: end_frame [OF assms(3)])
  next
    case 2
    have b': "b' = b\<lparr>ub_reader := BodyFinish [] e\<rparr>" using assms(1,2) 2 by (simp add: body_go.simps)
    have "errs_ok (map snd (ub_chunks b @ pump_holds (ub_pump b))) (ub_pump b) (er_remaining (ub_exact b))"
      using end_tail [OF assms(3) 2(1) pipe] .
    moreover have "is_eof e \<Longrightarrow> int (length (ub_out b)) = er_expected (ub_exact b)"
      using leading_eof [OF assms(3,4) 2(1), of e] pipe 2(2) by simp
    ultimately show ?thesis using assms(3) cur by (simp add: b' end_inv_def pipeline_def current_batch_def)
  next
    case 3
    have b': "b' = b\<lparr>ub_current := Some d, ub_offset := 0, ub_current_err := e, ub_reader := BodyLoop n\<rparr>"
      using assms(1,2) 3 by (simp add: body_go.simps)
    have "pipeline b' = pipeline b" unfolding pipe by (simp add: b' pipeline_def current_batch_def current_left_def)
    then show ?thesis by (intro end_frame [OF assms(3)]) (simp_all add: b' 3)
  qed
qed


lemma data_inv_length: "data_inv src S p0 sz fin b h \<Longrightarrow> int (length (ub_out b)) \<le> er_expected (ub_exact b)"
  using prefix_length_le [of "ub_out b" "take (consumed (ub_exact b)) (drop p0 S)"]
  by (auto simp: data_inv_def exact_ok_def consumed_def)

lemma body_loop_end:
  assumes "body_go b h = Some (b', h')" and "ub_reader b = BodyLoop n" and "end_inv b" and "data_inv src S p0 sz fin b h"
    and "current_inv b" and "flags_inv b"
  shows "end_inv b'"
proof -
  have none: "current_left b = [] \<Longrightarrow> ub_current b = None" using assms(2,5) by (auto simp: current_inv_def)
  consider "current_left b \<noteq> []" "ub_close_called b" | "current_left b \<noteq> []" "\<not> ub_close_called b"
    | c cs where "current_left b = []" "ub_chunks b = c # cs"
    using assms(1,2) by (cases "ub_chunks b"; cases "current_left b = []") (auto simp: body_go.simps)
  then show ?thesis
  proof cases
    case 1
    with assms(1-3) show ?thesis
      by (auto simp: body_go.simps body_closed_def is_eof_def errors_is_def eof_def intro!: end_frame [OF assms(3)])
  next
    case 2
    let ?d = "take n (current_left b)"
    have b': "b' = b\<lparr>ub_offset := ub_offset b + length ?d, ub_written := ub_written b + int (length ?d),
        ub_out := ub_out b @ ?d, ub_reader := BodyCopied ?d\<rparr>"
      using assms(1,2) 2 by (simp add: body_go.simps Let_def)
    have "map snd (pipeline b') = map snd (pipeline b)"
      using assms(2) by (simp add: b' pipeline_def current_batch_def split: option.split)
    then have ok: "errs_ok (map snd (pipeline b')) (ub_pump b') (er_remaining (ub_exact b'))"
      using assms(3) 2 by (simp add: b' end_inv_def)
    have data: "data_inv src S p0 sz fin b' h'" by (rule body_go_data [OF assms(1,4,5,6)])
    have all: "int (length (ub_out b')) = er_expected (ub_exact b)" if r: "ub_result b = Some (d, e)" "is_eof e" for d e
    proof -
      have "int (length (ub_out b)) = er_expected (ub_exact b)" using assms(3) r by (simp add: end_inv_def)
      with data_inv_length [OF data] show ?thesis by (simp add: b')
    qed
    have ended: "int (length (ub_out b')) = er_expected (ub_exact b)" if left: "current_left b' = []" and e: "is_eof (ub_current_err b)"
    proof -
      have "ub_current b' \<noteq> None" using current_there [OF 2(1)] by (simp add: b')
      then obtain cs where pipe: "pipeline b' = ([], ub_current_err b) # cs"
        using left by (auto simp: pipeline_def current_batch_def b')
      have "errs_ok (ub_current_err b # map snd cs) (ub_pump b') (er_remaining (ub_exact b'))" using ok pipe by simp
      from errs_head [OF this e] have cs: "cs = []" and none_left: "er_remaining (ub_exact b') = 0" by auto
      show ?thesis using drained [OF data _ _ none_left] pipe cs 2(2) by (simp add: b')
    qed
    have "end_inv b'" unfolding end_inv_def
    proof (intro conjI allI impI)
      show "errs_ok (map snd (pipeline b')) (ub_pump b') (er_remaining (ub_exact b'))" by (rule ok)
    qed (use all ended in \<open>auto simp: b'\<close>)
    then show ?thesis .
  next
    case 3
    have b': "b' = b\<lparr>ub_chunks := cs, ub_reader := BodyGot n c\<rparr>" using assms(1,2) 3 by (simp add: body_go.simps)
    have "pipeline b' = pipeline b" using none [OF 3(1)] assms(2) 3(2) by (simp add: b' pipeline_def)
    then show ?thesis by (intro end_frame [OF assms(3)]) (simp_all add: b')
  qed
qed

lemma body_copied_end:
  assumes "body_go b h = Some (b', h')" and "ub_reader b = BodyCopied d" and "end_inv b" and "data_inv src S p0 sz fin b h"
    and "current_inv b"
  shows "end_inv b'"
proof (cases "current_left b = []")
  case True
  let ?e = "ub_current_err b"
  have pipe: "pipeline b = ([], ?e) # ub_chunks b @ pump_holds (ub_pump b)"
    using assms(2,5) True by (auto simp: pipeline_def current_batch_def current_inv_def)
  have b': "b' = (recycle_current b)\<lparr>ub_reader := BodyFinish d ?e\<rparr>" using assms(1,2) True by (simp add: body_go.simps)
  have "errs_ok (map snd (pipeline b')) (ub_pump b') (er_remaining (ub_exact b'))" if "\<not> ub_close_called b"
    using end_tail [OF assms(3) that pipe] by (simp add: b' pipeline_def)
  moreover have "int (length (ub_out b)) = er_expected (ub_exact b)" if "is_eof ?e"
    using assms(2,3) True that by (simp add: end_inv_def)
  ultimately show ?thesis using assms(3) by (auto simp: b' end_inv_def)
next
  case False
  with assms(1,2) show ?thesis
    by (auto simp: body_go.simps pipeline_def intro!: end_frame [OF assms(3)])
qed


lemma body_finish_end:
  assumes "body_go b h = Some (b', h')" and "ub_reader b = BodyFinish d e" and "end_inv b"
  shows "end_inv b'"
  using assms(1,2)
  by (cases "ub_close_called b") (auto simp: body_go.simps pipeline_def intro!: end_frame [OF assms(3)])

lemma body_go_end:
  assumes "body_go b h = Some (b', h')" and "end_inv b" and "data_inv src S p0 sz fin b h" and "current_inv b" and "flags_inv b"
  shows "end_inv b'"
proof (cases "ub_reader b")
  case BodyIdle
  with assms(1) show ?thesis by (simp add: body_go.simps)
next
  case (BodyGot n c)
  then show ?thesis using body_got_end [OF assms(1) _ assms(2-4)] by (cases c) simp
qed (use assms in \<open>blast intro: body_start_end body_loop_end body_copied_end body_finish_end\<close>)+

lemma body_other_end:
  assumes "end_inv b" and "flags_inv b" and "current_inv b"
  shows "pump_stop b = Some b' \<Longrightarrow> end_inv b'"
    and "body_call n b = Some b' \<Longrightarrow> end_inv b'"
    and "body_stop b = Some b' \<Longrightarrow> end_inv b'"
    and "end_inv (close_call_body b)"
    and "close_go_body b = Some b' \<Longrightarrow> end_inv b'"
proof -
  have no: "\<not> is_eof (Some body_closed)" by (simp add: body_closed_def is_eof_def errors_is_def eof_def)
  show "end_inv b'" if "pump_stop b = Some b'"
    using that assms(1) by (cases "ub_pump b") (auto simp: pump_stop.simps end_inv_def split: if_splits)
  show "end_inv b'" if "body_call n b = Some b'"
    using that no by (auto simp: body_call.simps pipeline_def split: if_splits intro!: end_frame [OF assms(1)])
  show "end_inv b'" if "body_stop b = Some b'"
    using that no by (cases "ub_reader b") (auto simp: body_stop.simps split: if_splits intro!: end_frame [OF assms(1)])
  show "end_inv (close_call_body b)"
    by (cases "ub_close_called b") (auto simp: close_call_fields intro!: end_frame [OF assms(1)] assms(1))
  show "end_inv b'" if "close_go_body b = Some b'"
    using that assms(2)
    by (auto simp: close_go_body_def flags_inv_def pipeline_def split: if_splits intro!: end_frame [OF assms(1)])
qed

lemma perform_end:
  assumes "body_perform src a b h = Some (b', h')" and "data_inv src S p0 sz fin b h" and "holds_stream src S"
    and "flags_inv b" and "current_inv b" and "end_inv b"
  shows "end_inv b'"
  using assms(1) by (rule perform_cases)
    (auto intro: pump_end [OF _ assms(6,2,3)] body_go_end [OF _ assms(6,2,5,4)] body_other_end [OF assms(6,4,5)])

end
