(* ===== verification/UploadRuns.thy ===== *)
theory UploadRuns
  imports UploadGuarantees
begin

text \<open>
  The runs of an upload body over a caller's reader: what the transport receives, the queue that
  the body implements, how \<open>Close\<close> releases the reader, and a run that hangs.
\<close>

section \<open>Reachable bodies\<close>

text \<open>The reader that a request body of \<open>sz\<close> bytes starts with, at \<open>offset\<close> in the blob.\<close>

definition exact_at :: "int \<Rightarrow> int \<Rightarrow> bool \<Rightarrow> exact_reader" where
  "exact_at offset sz fin = (new_exact_reader sz fin)\<lparr>er_offset := offset\<rparr>"

text \<open>The bytes that were declared: \<open>sz\<close> of them from the position of the source on.\<close>

definition declared :: "source \<Rightarrow> byte list \<Rightarrow> history \<Rightarrow> int \<Rightarrow> byte list" where
  "declared src S h0 sz = take (nat sz) (drop (source_pos src h0) S)"

lemma source_pos_elsewhere: "\<not> of_source e \<Longrightarrow> source_pos src (e # h) = source_pos src h"
  by (auto simp: of_source_def split: event.splits)

lemma body_inv:
  assumes "body_reached src (exact_at off sz fin) wire h0 b h" and "holds_stream src S" and "0 \<le> sz"
  shows "flags_inv b \<and> current_inv b \<and> data_inv src S (source_pos src h0) sz fin b h \<and> end_inv b"
  using assms(1)
proof (induction rule: body_reached.induct)
  case body_new
  then show ?case
    using assms(3)
    by (auto simp: flags_inv_def current_inv_def data_inv_def end_inv_def errs_ok_def exact_ok_def consumed_def
        exact_at_def new_exact_reader_def new_upload_body_def pipeline_def current_batch_def)
next
  case (body_step b h a b' h')
  then have f: "flags_inv b" and c: "current_inv b" and d: "data_inv src S (source_pos src h0) sz fin b h" and e: "end_inv b"
    and run: "body_perform src a b h = Some (b', h')" by auto
  show ?case
    using perform_flags [OF run f] perform_current [OF run c] perform_data [OF run d assms(2) f c]
      perform_end [OF run d assms(2) f c e] by blast
next
  case (body_elsewhere b h e)
  have "data_inv src S (source_pos src h0) sz fin b (e # h)"
    by (rule data_inv_frame [of src S "source_pos src h0" sz fin b h b "e # h"])
      (use body_elsewhere in \<open>simp_all add: source_pos_elsewhere del: source_pos.simps\<close>)
  with body_elsewhere show ?case by blast
qed

lemma body_done:
  assumes "data_inv src S p0 sz fin b h" and "int (length (ub_out b)) = sz"
  shows "ub_out b = take (nat sz) (drop p0 S)"
proof -
  have p: "prefix (ub_out b) (take (consumed (ub_exact b)) (drop p0 S))" and c: "consumed (ub_exact b) \<le> nat sz"
    using assms(1) by (auto simp: data_inv_def exact_ok_def consumed_def)
  from p have "ub_out b = take (length (ub_out b)) (take (consumed (ub_exact b)) (drop p0 S))"
    by (metis append_eq_conv_conj prefixE)
  moreover have "length (ub_out b) = nat sz" using assms(2) by simp
  moreover have "length (ub_out b) \<le> consumed (ub_exact b)" using prefix_length_le [OF p] by simp
  ultimately show ?thesis using c by (metis le_antisym min_def order_refl take_take)
qed

lemma validated_body:
  assumes "data_inv src S p0 sz fin b h" and "body_validate b = None"
  shows "ub_out b = take (nat sz) (drop p0 S) \<and> int (length (ub_out b)) = sz \<and>
    (fin \<longrightarrow> length S \<le> p0 + nat sz)"
proof -
  have v: "ub_written b = sz" "er_size_err (ub_exact b) = None" "er_remaining (ub_exact b) = 0"
    "er_require_eof (ub_exact b) \<longrightarrow> er_eof_validated (ub_exact b)"
    using assms by (auto simp: body_validate_def exact_validate_def data_inv_def Let_def split: option.splits if_splits)
  have "int (length (ub_out b)) = sz" using assms(1) v by (simp add: data_inv_def)
  moreover have "fin \<longrightarrow> length S \<le> p0 + nat sz"
    using assms(1) v by (auto simp: data_inv_def exact_ok_def consumed_def)
  ultimately show ?thesis using body_done [OF assms(1)] by blast
qed

text \<open>
  C5. An upload sends the declared bytes and nothing else: whatever the interleaving of the pump,
  the transport's reads and \<open>Close\<close>, what the transport has received is a prefix of the declared
  bytes; a \<open>Read\<close> reports \<open>io.EOF\<close> only behind all of them; and a body that validates has
  delivered all of them, with the source proved to end there when it must.
\<close>

theorem upload_body_order:
  assumes "holds_stream src S" and "0 \<le> sz" and "body_reached src (exact_at off sz fin) wire h0 b h"
  shows "prefix (ub_out b) (declared src S h0 sz) \<and>
    (case ub_result b of Some (d, e) \<Rightarrow> is_eof e \<longrightarrow> ub_out b = declared src S h0 sz | None \<Rightarrow> True) \<and>
    (body_validate b = None \<longrightarrow>
       ub_out b = declared src S h0 sz \<and> int (length (ub_out b)) = sz \<and>
       (fin \<longrightarrow> length S \<le> source_pos src h0 + nat sz))"
proof -
  have inv: "data_inv src S (source_pos src h0) sz fin b h" "end_inv b" using body_inv [OF assms(3,1,2)] by auto
  have "consumed (ub_exact b) \<le> nat sz" using inv(1) by (auto simp: data_inv_def exact_ok_def consumed_def)
  then have "prefix (take (consumed (ub_exact b)) (drop (source_pos src h0) S)) (declared src S h0 sz)"
    unfolding declared_def by (metis le_Suc_ex prefix_more prefix_order.refl)
  then have "prefix (ub_out b) (declared src S h0 sz)"
    using inv(1) prefix_order.trans unfolding data_inv_def by blast
  moreover have "ub_out b = declared src S h0 sz" if "ub_result b = Some (d, e)" "is_eof e" for d e
  proof -
    have "int (length (ub_out b)) = sz" using inv that by (simp add: end_inv_def data_inv_def)
    from body_done [OF inv(1) this] show ?thesis by (simp add: declared_def)
  qed
  moreover note validated_body [OF inv(1), folded declared_def]
  ultimately show ?thesis by (cases "ub_result b") auto
qed

section \<open>Refinement of a byte queue\<close>

text \<open>The contract of the body: a queue that is filled from the declared bytes, emptied in order, and closed once.\<close>

record byte_queue =
  bq_queue :: "byte list"
  bq_out :: "byte list"
  bq_closed :: bool

inductive queue_step :: "byte list \<Rightarrow> byte_queue \<Rightarrow> byte_queue \<Rightarrow> bool" for X :: "byte list" where
  queue_fill:
    "\<not> bq_closed q \<Longrightarrow> prefix (bq_out q @ bq_queue q @ d) X \<Longrightarrow> queue_step X q (q\<lparr>bq_queue := bq_queue q @ d\<rparr>)"
| queue_deliver:
    "\<not> bq_closed q \<Longrightarrow> bq_queue q = d @ rest \<Longrightarrow>
     queue_step X q (q\<lparr>bq_queue := rest, bq_out := bq_out q @ d\<rparr>)"
| queue_close: "\<not> bq_closed q \<Longrightarrow> queue_step X q (q\<lparr>bq_queue := [], bq_closed := True\<rparr>)"

definition queue_of :: "upload_body \<Rightarrow> byte_queue" where
  "queue_of b =
     \<lparr>bq_queue = (if ub_close_called b then [] else concat (map fst (pipeline b))), bq_out = ub_out b,
      bq_closed = ub_close_called b\<rparr>"

lemma body_go_keeps:
  assumes "body_go b h = Some (b', h')"
  shows "ub_exact b' = ub_exact b \<and> ub_close_called b' = ub_close_called b \<and>
    (if ub_close_called b then ub_out b' = ub_out b else \<exists>d. ub_out b' = ub_out b @ d)"
proof (cases "ub_reader b")
  case (BodyStart n)
  with assms show ?thesis by (cases "ub_once b") (auto simp: body_go.simps)
next
  case (BodyGot n c)
  with assms show ?thesis by (cases c) (auto simp: body_go.simps split: if_splits)
next
  case (BodyFinish d e)
  with assms show ?thesis by (cases "ub_close_called b") (auto simp: body_go.simps)
next
  case (BodyLoop n)
  with assms show ?thesis by (cases "ub_close_called b") (auto simp: body_go.simps Let_def split: if_splits list.splits)
qed (use assms in \<open>auto simp: body_go.simps split: if_splits\<close>)


lemma perform_keeps:
  assumes "body_perform src a b h = Some (b', h')"
  shows "(ub_close_called b \<longrightarrow> ub_close_called b' \<and> ub_out b' = ub_out b) \<and>
    (ub_close_called b' \<longrightarrow> ub_close_called b \<or> ub_out b' = ub_out b) \<and>
    (ub_out b' = ub_out b \<or> ub_exact b' = ub_exact b \<and> (\<exists>d. ub_out b' = ub_out b @ d))"
  using assms
proof (rule perform_cases)
  show "pump_go src b h = Some (b', h') \<Longrightarrow> ?thesis" using pump_go_keeps [of src b h b' h'] by auto
  show "body_go b h = Some (b', h') \<Longrightarrow> ?thesis" using body_go_keeps [of b h b' h'] by (auto split: if_splits)
  show "pump_stop b = Some b' \<Longrightarrow> ?thesis" by (auto simp: pump_stop.simps split: pump_pc.splits if_splits)
  show "body_call n b = Some b' \<Longrightarrow> ?thesis" for n by (auto simp: body_call.simps split: if_splits)
  show "body_stop b = Some b' \<Longrightarrow> ?thesis" by (auto simp: body_stop.simps split: body_pc.splits if_splits)
  show "b' = close_call_body b \<Longrightarrow> ?thesis" by (cases "ub_close_called b") (auto simp: close_call_fields)
  show "close_go_body b = Some b' \<Longrightarrow> ?thesis" by (auto simp: close_go_body_def split: if_splits)
qed

text \<open>What was taken from the source never shrinks.\<close>

lemma perform_consumed:
  assumes "body_perform src a b h = Some (b', h')" and "data_inv src S p0 sz fin b h" and "holds_stream src S"
  shows "consumed (ub_exact b) \<le> consumed (ub_exact b')"
  using assms(1)
proof (rule perform_cases)
  assume go: "pump_go src b h = Some (b', h')"
  show ?thesis
  proof (cases "ub_pump b")
    case PumpRead
    obtain d e r h1 where rd: "exact_read src (nat (buffer_size (ub_exact b))) (ub_exact b) h = (((d, e), r), h1)"
      by (metis surj_pair)
    have "er_size_err (ub_exact b) = None" "exact_ok src S p0 (ub_exact b) h"
      using assms(2) PumpRead by (simp_all add: data_inv_def)
    from exact_read_ok [OF this(2) assms(3) this(1) rd] go PumpRead rd show ?thesis
      by (auto simp: pump_go.simps exact_reads_def)
  next
    case (PumpPut c)
    with go show ?thesis by (cases c) (auto simp: pump_go.simps split: if_splits)
  qed (use go in \<open>auto simp: pump_go.simps split: if_splits\<close>)
qed (auto simp: pump_stop.simps body_call.simps body_stop.simps close_call_body_def close_go_body_def
    dest: body_go_keeps split: pump_pc.splits body_pc.splits if_splits)

text \<open>
  C12. The body implements its contract: with staged batches, the current batch and batches in the
  goroutines' hands read as one queue of bytes, every step of the pump, of a \<open>Read\<close> and of
  \<open>Close\<close> is a step of a queue that is filled from the declared bytes in order, hands them out
  in order and is closed once, or it changes nothing of the queue.
\<close>

theorem upload_body_refines:
  assumes "holds_stream src S" and "0 \<le> sz" and "body_reached src (exact_at off sz fin) wire h0 b h"
    and "body_perform src a b h = Some (b', h')"
  shows "queue_step (declared src S h0 sz) (queue_of b) (queue_of b') \<or> queue_of b' = queue_of b"
proof -
  let ?p0 = "source_pos src h0"
  have i: "data_inv src S ?p0 sz fin b h" using body_inv [OF assms(3,1,2)] by blast
  have i': "data_inv src S ?p0 sz fin b' h'"
    using body_inv [OF body_reached.body_step [OF assms(3,4)] assms(1,2)] by blast
  note k = perform_keeps [OF assms(4)]
  show ?thesis
  proof (cases "ub_close_called b \<or> ub_close_called b'")
    case True
    with k have "ub_close_called b'" "ub_out b' = ub_out b" by auto
    then show ?thesis
      using queue_close [of "queue_of b" "declared src S h0 sz"] by (cases "ub_close_called b") (auto simp: queue_of_def)
  next
    case False
    let ?q = "concat (map fst (pipeline b))" and ?q' = "concat (map fst (pipeline b'))"
    have eq: "ub_out b @ ?q = take (consumed (ub_exact b)) (drop ?p0 S)"
      "ub_out b' @ ?q' = take (consumed (ub_exact b')) (drop ?p0 S)"
      using i i' False by (simp_all add: data_inv_def)
    have c: "consumed (ub_exact b) \<le> consumed (ub_exact b')" "consumed (ub_exact b') \<le> nat sz"
      using perform_consumed [OF assms(4) i assms(1)] i' by (auto simp: data_inv_def exact_ok_def consumed_def)
    then have p: "prefix (ub_out b @ ?q) (ub_out b' @ ?q')" "prefix (ub_out b' @ ?q') (declared src S h0 sz)"
      unfolding eq declared_def by (metis le_Suc_ex prefix_more prefix_order.refl)+
    consider "ub_out b' = ub_out b" | d where "ub_exact b' = ub_exact b" "ub_out b' = ub_out b @ d" using k by blast
    then show ?thesis
    proof cases
      case 1
      with p(1) obtain d where "?q' = ?q @ d" by (auto elim: prefixE)
      with 1 p(2) queue_fill [of "queue_of b" d "declared src S h0 sz"] False show ?thesis
        by (simp add: queue_of_def)
    next
      case 2
      with eq have "?q = d @ ?q'" by (metis append.assoc same_append_eq)
      with 2 queue_deliver [of "queue_of b" d ?q' "declared src S h0 sz"] False show ?thesis
        by (simp add: queue_of_def)
    qed
  qed
qed

section \<open>Letting go\<close>

text \<open>Only the pump's read touches the caller's reader, and it is never under way in a released body.\<close>

lemma perform_released:
  assumes "body_perform src a b h = Some (b', h')" and "flags_inv b" and "ub_released b"
  shows "ub_released b' \<and> ub_exact b' = ub_exact b \<and> h' = h"
proof -
  have f: "ub_close_called b" "ub_pump b = PumpOff \<or> ub_pump b = PumpDone" "ub_reader b = BodyIdle"
    using assms(2,3) by (auto simp: flags_inv_def)
  from assms(1) show ?thesis
  proof (rule perform_cases)
    show "pump_go src b h = Some (b', h') \<Longrightarrow> ?thesis" using f(2) by (auto simp: pump_go.simps)
    show "pump_stop b = Some b' \<Longrightarrow> h' = h \<Longrightarrow> ?thesis" using f(2) by (auto simp: pump_stop.simps split: if_splits)
    show "body_call n b = Some b' \<Longrightarrow> h' = h \<Longrightarrow> ?thesis" for n using f assms(3) by (auto simp: body_call.simps split: if_splits)
    show "body_go b h = Some (b', h') \<Longrightarrow> ?thesis" using f by (auto simp: body_go.simps)
    show "body_stop b = Some b' \<Longrightarrow> h' = h \<Longrightarrow> ?thesis" using f by (auto simp: body_stop.simps)
    show "b' = close_call_body b \<Longrightarrow> h' = h \<Longrightarrow> ?thesis" using f assms(3) by (auto simp: close_call_body_def)
    show "close_go_body b = Some b' \<Longrightarrow> h' = h \<Longrightarrow> ?thesis" using assms(3) by (auto simp: close_go_body_def split: if_splits)
  qed
qed


text \<open>After \<open>Close\<close>: what is left of a \<open>Read\<close> runs to its end, then what is left of the pump.\<close>

definition wind_step :: "source \<Rightarrow> upload_body \<times> history \<Rightarrow> upload_body \<times> history" where
  "wind_step src s =
     (case s of (b, h) \<Rightarrow>
        if ub_reader b \<noteq> BodyIdle then
          (case body_stop b of
             Some b' \<Rightarrow> (b', h)
           | None \<Rightarrow> (case body_go b h of Some r \<Rightarrow> r | None \<Rightarrow> (b, h)))
        else
          (case pump_stop b of
             Some b' \<Rightarrow> (b', h)
           | None \<Rightarrow> (case pump_go src b h of Some r \<Rightarrow> r | None \<Rightarrow> (b, h))))"

fun wind_down :: "source \<Rightarrow> nat \<Rightarrow> upload_body \<times> history \<Rightarrow> upload_body \<times> history" where
  "wind_down src 0 s = s"
| "wind_down src (Suc n) s = wind_down src n (wind_step src s)"

fun pump_rank :: "pump_pc \<Rightarrow> nat" where
  "pump_rank PumpInit = 3"
| "pump_rank PumpRead = 3"
| "pump_rank PumpTake = 2"
| "pump_rank PumpFill = 2"
| "pump_rank (PumpPut c) = 2"
| "pump_rank PumpExit = 1"
| "pump_rank p = 0"

fun body_rank :: "body_pc \<Rightarrow> nat" where
  "body_rank (BodyStart n) = 3"
| "body_rank (BodyFinish d e) = 1"
| "body_rank BodyIdle = 0"
| "body_rank p = 2"

definition rank :: "upload_body \<Rightarrow> nat" where
  "rank b = body_rank (ub_reader b) + pump_rank (ub_pump b)"

lemma rank_bound: "rank b \<le> 6"
  by (cases "ub_reader b"; cases "ub_pump b") (simp_all add: rank_def)

lemma rank_done: "rank b = 0 \<Longrightarrow> ub_reader b = BodyIdle \<and> (ub_pump b = PumpOff \<or> ub_pump b = PumpDone)"
  by (cases "ub_reader b"; cases "ub_pump b") (simp_all add: rank_def)

lemma wind_reader:
  assumes "ub_close_called b" and "ub_reader b \<noteq> BodyIdle" and "wind_step src (b, h) = (b', h')"
  shows "rank b' < rank b \<and> ub_pump b' = ub_pump b \<and> (\<exists>a. body_perform src a b h = Some (b', h'))"
proof -
  have cases: "body_stop b = Some b' \<and> h' = h \<or> body_stop b = None \<and> body_go b h = Some (b', h')"
    using assms by (cases "ub_reader b")
      (auto simp: wind_step_def body_stop.simps body_go.simps split: option.splits if_splits prod.splits)
  then have "\<exists>a. body_perform src a b h = Some (b', h')"
    by (metis body_perform.simps(4,5) option.simps(9))
  moreover have "rank b' < rank b \<and> ub_pump b' = ub_pump b"
  proof (cases "ub_reader b")
    case (BodyStart n)
    with cases assms(1) show ?thesis
      by (cases "ub_once b") (auto simp: rank_def body_stop.simps body_go.simps start_pump_def)
  next
    case (BodyGot n c)
    with cases assms(1) show ?thesis by (cases c) (auto simp: rank_def body_stop.simps body_go.simps)
  next
    case (BodyLoop n)
    with cases assms(1) show ?thesis
      by (cases "current_left b = []") (auto simp: rank_def body_stop.simps body_go.simps)
  next
    case (BodyCopied d)
    with cases show ?thesis
      by (cases "current_left b = []") (auto simp: rank_def body_stop.simps body_go.simps)
  qed (use cases assms(1,2) in \<open>auto simp: rank_def body_stop.simps body_go.simps\<close>)
  ultimately show ?thesis by blast
qed

lemma wind_pump:
  assumes "ub_close_called b" and "ub_reader b = BodyIdle" and "wind_step src (b, h) = (b', h')" and "rank b \<noteq> 0"
  shows "rank b' < rank b \<and> (ub_pump b \<noteq> PumpRead \<longrightarrow> h' = h \<and> ub_pump b' \<noteq> PumpRead) \<and>
    (\<exists>a. body_perform src a b h = Some (b', h'))"
proof -
  have cases: "pump_stop b = Some b' \<and> h' = h \<or> pump_stop b = None \<and> pump_go src b h = Some (b', h')"
    using assms by (cases "ub_pump b")
      (auto simp: wind_step_def rank_def pump_stop.simps pump_go.simps split: option.splits if_splits prod.splits)
  then have "\<exists>a. body_perform src a b h = Some (b', h')"
    by (metis body_perform.simps(1,2) option.simps(9))
  moreover have "rank b' < rank b \<and> (ub_pump b \<noteq> PumpRead \<longrightarrow> h' = h \<and> ub_pump b' \<noteq> PumpRead)"
    using cases assms(1,2,4)
    by (cases "ub_pump b") (auto simp: rank_def pump_stop.simps pump_go.simps split: if_splits prod.splits)
  ultimately show ?thesis by blast
qed


lemma wind_step_closed:
  assumes "ub_close_called b" and "rank b \<noteq> 0" and "wind_step src (b, h) = (b', h')"
  shows "rank b' < rank b \<and> ub_close_called b' \<and> ub_out b' = ub_out b \<and> (\<exists>a. body_perform src a b h = Some (b', h')) \<and>
    (ub_pump b \<noteq> PumpRead \<longrightarrow> filter of_source h' = filter of_source h \<and> ub_pump b' \<noteq> PumpRead)"
proof (cases "ub_reader b = BodyIdle")
  case True
  note w = wind_pump [OF assms(1) True assms(3,2)]
  then obtain a where "body_perform src a b h = Some (b', h')" by blast
  with w perform_keeps [OF this] assms(1) show ?thesis by auto
next
  case False
  note w = wind_reader [OF assms(1) False assms(3)]
  then obtain a where a: "body_perform src a b h = Some (b', h')" by blast
  have "filter of_source h' = filter of_source h"
    using assms(3) False
    by (auto simp: wind_step_def body_go.simps wire_add_def of_source_def Let_def
        split: option.splits body_pc.splits if_splits list.splits)
  with w a perform_keeps [OF a] assms(1) show ?thesis by auto
qed

lemma wind_down_idle:
  assumes "rank b = 0"
  shows "wind_down src n (b, h) = (b, h)"
proof (induction n)
  case (Suc n)
  have "wind_step src (b, h) = (b, h)"
    using rank_done [OF assms] by (auto simp: wind_step_def pump_stop.simps pump_go.simps)
  with Suc show ?case by simp
qed simp

lemma wind_down_closed:
  assumes "ub_close_called b" and "rank b \<le> n" and "body_reached src exact wire h0 b h" and "wind_down src n (b, h) = (b', h')"
  shows "rank b' = 0 \<and> ub_close_called b' \<and> ub_out b' = ub_out b \<and> body_reached src exact wire h0 b' h' \<and>
    (ub_pump b \<noteq> PumpRead \<longrightarrow> filter of_source h' = filter of_source h)"
  using assms
proof (induction n arbitrary: b h)
  case 0
  then show ?case by simp
next
  case (Suc n)
  show ?case
  proof (cases "rank b = 0")
    case True
    with Suc.prems wind_down_idle [OF True, of src "Suc n" h] show ?thesis by simp
  next
    case False
    obtain b1 h1 where w: "wind_step src (b, h) = (b1, h1)" by (metis surj_pair)
    note c = wind_step_closed [OF Suc.prems(1) False w]
    then obtain a where a: "body_perform src a b h = Some (b1, h1)" by blast
    from c have r: "ub_close_called b1" "rank b1 \<le> n" using Suc.prems(2) by auto
    from Suc.IH [OF r body_reached.body_step [OF Suc.prems(3) a]] Suc.prems(4) w c show ?thesis by auto
  qed
qed

lemma release_reached: "body_reached src exact wire h0 b h \<Longrightarrow> rank b = 0 \<Longrightarrow> ub_close_called b \<Longrightarrow> ub_released b"
  using body_flags [of src exact wire h0 b h] rank_done [of b] by (auto simp: flags_inv_def)

text \<open>
  C16. \<open>Close\<close> gives the caller's reader back: from any state in which it was called, at most six
  further steps of the pending \<open>Read\<close> and the pump release the body, with no byte more
  delivered; the only access to the caller's reader on the way is a \<open>Read\<close> of it that was under
  way; and once the body is released no step of it touches the reader again.
\<close>

theorem upload_body_release:
  assumes "body_reached src exact wire h0 b h" and "ub_close_called b" and "wind_down src 6 (b, h) = (b', h')"
  shows "ub_released b' \<and> ub_out b' = ub_out b \<and> body_reached src exact wire h0 b' h' \<and>
    (ub_pump b \<noteq> PumpRead \<longrightarrow> filter of_source h' = filter of_source h) \<and>
    (\<forall>a b'' h''. body_perform src a b' h' = Some (b'', h'') \<longrightarrow>
       ub_released b'' \<and> ub_exact b'' = ub_exact b' \<and> h'' = h')"
proof -
  note w = wind_down_closed [OF assms(2) rank_bound assms(1,3)]
  then have r: "ub_released b'" using release_reached by blast
  moreover have "flags_inv b'" using w body_flags by blast
  ultimately show ?thesis using w perform_released by blast
qed

section \<open>A source that ends with its last bytes\<close>

fun body_run :: "source \<Rightarrow> body_action list \<Rightarrow> upload_body \<times> history \<Rightarrow> upload_body \<times> history" where
  "body_run src [] s = s"
| "body_run src (a # as) s =
     body_run src as (case body_perform src a (fst s) (snd s) of Some s' \<Rightarrow> s' | None \<Rightarrow> s)"

lemma body_run_reached:
  "body_reached src exact wire h0 b h \<Longrightarrow> body_run src as (b, h) = (b', h') \<Longrightarrow> body_reached src exact wire h0 b' h'"
proof (induction as arbitrary: b h)
  case (Cons a as)
  then show ?case
    by (cases "body_perform src a b h") (auto intro: body_reached.body_step)
qed simp

text \<open>
  A reader over a list, as \<open>bytes.Reader\<close> and \<open>bytes.Buffer\<close> are; the bytes at the end come with
  \<open>io.EOF\<close> or before it, as \<open>io.Reader\<close> leaves open.
\<close>

fun list_pos :: "byte list \<Rightarrow> bool \<Rightarrow> history \<Rightarrow> nat" where
  "list_pos S seekable [] = 0"
| "list_pos S seekable (e # h) =
     (case e of
        EvSourceRead n \<Rightarrow> list_pos S seekable h + min n (length S - list_pos S seekable h)
      | EvSourceSeek k \<Rightarrow> if seekable then nat k else list_pos S seekable h
      | _ \<Rightarrow> list_pos S seekable h)"

definition list_source :: "byte list \<Rightarrow> bool \<Rightarrow> bool \<Rightarrow> source" where
  "list_source S seekable together =
     \<lparr>so_read = (\<lambda>h n.
        let p = list_pos S seekable h; k = min n (length S - p) in
        (int k, drop p S, if length S \<le> p + k \<and> (k = 0 \<or> together) then Some eof else None)),
      so_seekable = seekable, so_tell = (\<lambda>h. Inr (int (list_pos S seekable h))),
      so_seek = (\<lambda>h k. if seekable then None else Some (Text []))\<rparr>"

lemma list_source_pos: "source_pos (list_source S seekable together) h = list_pos S seekable h"
  by (induction h) (auto simp: list_source_def Let_def split: event.split)

lemma list_source_holds: "holds_stream (list_source S seekable together) S"
proof -
  have f: "take k (filled n d) = take k d" if "k \<le> n" "k \<le> length d" for k n and d :: "byte list"
    using that by (simp add: filled_def min_def)
  show ?thesis
    unfolding holds_stream_def list_source_pos
    by (auto simp: list_source_def Let_def f)
qed

definition one_read :: "body_action list" where
  "one_read = [BodyCall 8, BodyGo, PumpGo, PumpGo, PumpGo, PumpGo, PumpGo, PumpGo, BodyGo, BodyGo, BodyGo, BodyGo, BodyGo]"

definition second_read :: "body_action list" where
  "second_read = [PumpGo, PumpGo, PumpGo, PumpGo, PumpGo, BodyCall 8, BodyGo, BodyGo, BodyGo, BodyGo, BodyClose]"

definition three_bytes :: "bool \<Rightarrow> body_action list \<Rightarrow> upload_body \<times> history" where
  "three_bytes together as =
     body_run (list_source [1, 2, 3] False together) as (new_upload_body (exact_at 0 3 True) None, [])"

lemma three_reached:
  "three_bytes together as = (b, h) \<Longrightarrow>
   body_reached (list_source [1, 2, 3] False together) (exact_at 0 3 True) None [] b h"
  unfolding three_bytes_def by (rule body_run_reached [OF body_new])

lemma upload_body_order_witness:
  "\<exists>b h. body_reached (list_source [1, 2, 3] False False) (exact_at 0 3 True) None [] b h \<and> body_validate b = None \<and>
     ub_out b = [1, 2, 3]"
proof -
  obtain b h where r: "three_bytes False (one_read @ second_read) = (b, h)" by (metis surj_pair)
  have "body_validate (fst (three_bytes False (one_read @ second_read))) = None" by code_simp
  then have v: "body_validate b = None" by (simp add: r)
  have "declared (list_source [1, 2, 3] False False) [1, 2, 3] [] 3 = [1, 2, 3]" by (simp add: declared_def)
  with upload_body_order [OF list_source_holds _ three_reached [OF r]] three_reached [OF r] v show ?thesis by auto
qed

lemma upload_body_refines_witness:
  "\<exists>b h b' h'. body_perform (list_source [1, 2, 3] False False) BodyGo b h = Some (b', h') \<and>
     ub_out b = [] \<and> ub_out b' = [1, 2, 3] \<and> queue_step [1, 2, 3] (queue_of b) (queue_of b')"
proof -
  let ?src = "list_source [1, 2, 3] False False"
  obtain b h where r: "three_bytes False (take 10 one_read) = (b, h)" by (metis surj_pair)
  have "ub_out (fst (three_bytes False (take 10 one_read))) = [] \<and>
      map_option (\<lambda>s. ub_out (fst s)) (body_perform ?src BodyGo (fst (three_bytes False (take 10 one_read)))
        (snd (three_bytes False (take 10 one_read)))) = Some [1, 2, 3]" by code_simp
  then obtain b' h' where b: "ub_out b = []" "body_perform ?src BodyGo b h = Some (b', h')" "ub_out b' = [1, 2, 3]"
    by (auto simp: r simp del: body_perform.simps)
  then have "queue_of b' \<noteq> queue_of b" by (auto simp: queue_of_def)
  moreover have "declared ?src [1, 2, 3] [] 3 = [1, 2, 3]" by (simp add: declared_def)
  ultimately show ?thesis
    using upload_body_refines [OF list_source_holds _ three_reached [OF r] b(2)] b by auto
qed

lemma upload_body_release_witness:
  "\<exists>b h b' h'. three_bytes False (take 6 one_read @ [BodyClose]) = (b, h) \<and> \<not> ub_released b \<and>
     wind_down (list_source [1, 2, 3] False False) 6 (b, h) = (b', h') \<and> ub_released b'"
proof -
  obtain b h where r: "three_bytes False (take 6 one_read @ [BodyClose]) = (b, h)" by (metis surj_pair)
  have "ub_close_called (fst (three_bytes False (take 6 one_read @ [BodyClose]))) \<and>
      \<not> ub_released (fst (three_bytes False (take 6 one_read @ [BodyClose])))" by code_simp
  then have c: "ub_close_called b" "\<not> ub_released b" by (simp_all add: r)
  obtain b' h' where w: "wind_down (list_source [1, 2, 3] False False) 6 (b, h) = (b', h')" by (metis surj_pair)
  from upload_body_release [OF three_reached [OF r] c(1) w] r w c(2) show ?thesis by blast
qed

end
