(* ===== verification/Commit.thy ===== *)
theory Commit
  imports Session UploadRuns
begin

text \<open>
  push.go: the request body of an upload with its replay over redirects and retries
  (\<open>readerReplay\<close>), the final PUT (\<open>commitUpload\<close>) and one monolithic attempt (\<open>pushOnce\<close>).
\<close>

section \<open>What an upload works with\<close>

text \<open>
  \<open>up_courier\<close> is the transport's side of a round trip: how its reads of the request body
  interleave with the body's pump. By the contract of \<open>RoundTripper\<close> it then closes the body.
  \<open>up_source\<close> is the caller's reader.
\<close>

record uploader =
  up_source :: source
  up_courier :: "history \<Rightarrow> request \<Rightarrow> body_action list"

text \<open>
  \<open>ps_start\<close> is \<open>readerReplay.start\<close>, None where there is no replay because the reader cannot
  seek; \<open>ps_body\<close> is the latest request body: \<open>readerReplay.current\<close>, or the initial body.
  \<open>ps_accepted\<close> collects the bytes of the bodies that the registry accepted in this attempt.
\<close>

record push_state =
  ps_start :: "int option"
  ps_body :: "upload_body option"
  ps_tracker :: "progress_tracker option"
  ps_wire :: "wire_tracker option"
  ps_accepted :: "byte list"

section \<open>Bodies in transit\<close>

text \<open>\<open>Close\<close>, and what is left to run: \<open>closeAndWait\<close>.\<close>

definition shut_body :: "source \<Rightarrow> upload_body \<Rightarrow> history \<Rightarrow> upload_body \<times> history" where
  "shut_body src b h =
     wind_down src 6
       ((case close_go_body (close_call_body b) of Some b' \<Rightarrow> b' | None \<Rightarrow> close_call_body b), h)"

definition close_and_wait :: "source \<Rightarrow> upload_body option \<Rightarrow> history \<Rightarrow> upload_body option \<times> history" where
  "close_and_wait src b h =
     (case b of None \<Rightarrow> (None, h) | Some x \<Rightarrow> (case shut_body src x h of (x', h') \<Rightarrow> (Some x', h')))"

text \<open>A round trip consumes the body as the courier likes and closes it.\<close>

definition send_body :: "uploader \<Rightarrow> request \<Rightarrow> upload_body option \<Rightarrow> history \<Rightarrow> upload_body option \<times> history" where
  "send_body U req b h =
     (case b of
        None \<Rightarrow> (None, h)
      | Some x \<Rightarrow>
          if rq_length req = 0 then (b, h)
          else
            (case body_run (up_source U) (up_courier U h req) (x, h) of
               (x1, h1) \<Rightarrow> close_and_wait (up_source U) (Some x1) h1))"

text \<open>\<open>waitCurrentReleased\<close>; the transport has closed the previous body, so it is released.\<close>

definition body_source_error :: "upload_body option \<Rightarrow> goerr option" where
  "body_source_error b = (case b of None \<Rightarrow> None | Some x \<Rightarrow> source_error_if_released x)"

definition new_body :: "int \<Rightarrow> int \<Rightarrow> bool \<Rightarrow> wire_tracker option \<Rightarrow> upload_body" where
  "new_body offset sz fin wire = new_upload_body ((new_exact_reader sz fin)\<lparr>er_offset := offset\<rparr>) wire"

text \<open>\<open>getBody\<close>, the replay hook of a request over a reader that can seek.\<close>

definition get_body ::
    "uploader \<Rightarrow> int \<Rightarrow> int \<Rightarrow> int \<Rightarrow> bool \<Rightarrow> wire_tracker option \<Rightarrow> upload_body option \<Rightarrow> history
      \<Rightarrow> (goerr option \<times> upload_body option) \<times> history" where
  "get_body U start offset sz fin wire b h =
     (case body_source_error b of
        Some e \<Rightarrow> ((Some e, b), h)
      | None \<Rightarrow>
        (case source_seek (up_source U) start h of
           (Some e, h1) \<Rightarrow> ((Some (wrapf ''rewinding redirected upload body'' e), b), h1)
         | (None, h1) \<Rightarrow> ((None, Some (new_body offset sz fin wire)), h1)))"

definition upload_hooks ::
    "uploader \<Rightarrow> int option \<Rightarrow> int \<Rightarrow> int \<Rightarrow> bool \<Rightarrow> wire_tracker option \<Rightarrow> upload_body option body_hooks" where
  "upload_hooks U start offset sz fin wire =
     \<lparr>hk_length = (sz \<noteq> 0), hk_send = send_body U,
      hk_get = (if sz = 0 then None else map_option (\<lambda>s. get_body U s offset sz fin wire) start),
      hk_close = close_and_wait (up_source U)\<rparr>"

definition replay_redirect :: "int \<Rightarrow> bool" where
  "replay_redirect status \<longleftrightarrow> status = 307 \<or> status = 308"

section \<open>The digest parameter\<close>

definition is_digest_key :: "string \<Rightarrow> bool" where
  "is_digest_key key \<longleftrightarrow> query_unescape key = Some ''digest''"

definition digest_part :: "string \<Rightarrow> string \<Rightarrow> string" where
  "digest_part escaped part =
     (let key = fst (str_cut (CHR ''='') part) in
      if is_digest_key key then key @ ''='' @ escaped else part)"

definition with_digest :: "url \<Rightarrow> string \<Rightarrow> url" where
  "with_digest u dgst =
     (let escaped = query_escape dgst; parts = str_split (CHR ''&'') (u_raw_query u) in
      if list_ex (\<lambda>p. is_digest_key (fst (str_cut (CHR ''='') p))) parts then
        u\<lparr>u_raw_query := str_join (CHR ''&'') (map (digest_part escaped) parts)\<rparr>
      else if u_raw_query u = [] then u\<lparr>u_raw_query := ''digest='' @ escaped\<rparr>
      else u\<lparr>u_raw_query := u_raw_query u @ ''&digest='' @ escaped\<rparr>)"

section \<open>The final PUT\<close>

text \<open>\<open>newCommitRequest\<close>: the request, and the state with its body registered.\<close>

definition new_commit_request :: "url \<Rightarrow> int \<Rightarrow> push_state \<Rightarrow> (goerr + request) \<times> push_state" where
  "new_commit_request u sz s =
     (case new_request ''PUT'' u of
        Inl e \<Rightarrow> (Inl (wrapf ''building commit request'' e), s)
      | Inr req \<Rightarrow>
        let req' = req\<lparr>rq_length := sz,
                      rq_header := header_set ''Content-Type'' ''application/octet-stream'' (rq_header req)\<rparr> in
        if sz > 0 then
          (case (if ps_start s = None then None else body_source_error (ps_body s)) of
             Some e \<Rightarrow> (Inl (wrapf ''registering commit request body'' e), s)
           | None \<Rightarrow> (Inr req', s\<lparr>ps_body := Some (new_body 0 sz True (ps_wire s))\<rparr>))
        else (Inr req', s))"

definition committing :: "goerr \<Rightarrow> goerr" where
  "committing e = wrapf ''committing upload'' e"

text \<open>A proven error of the source comes first.\<close>

definition unless_source :: "upload_body option \<Rightarrow> (goerr \<Rightarrow> goerr) \<Rightarrow> bool \<times> goerr option \<Rightarrow> bool \<times> goerr option" where
  "unless_source b wrap otherwise =
     (case body_source_error b of Some e \<Rightarrow> (False, Some (wrap e)) | None \<Rightarrow> otherwise)"

definition reject_commit_response ::
    "env \<Rightarrow> response \<Rightarrow> upload_session \<Rightarrow> url \<Rightarrow> upload_body option \<Rightarrow> history
      \<Rightarrow> (bool \<times> goerr option) \<times> upload_session \<times> history" where
  "reject_commit_response E resp session upload_url b h =
     (let located = (if rs_status resp = 202
                     then Some (resolve_location (response_request_url resp (Some upload_url))
                                 (header_get (rs_header resp) ''Location''))
                     else None);
          session' = (case located of Some (Inr u) \<Rightarrow> session\<lparr>us_url := u\<rparr> | _ \<Rightarrow> session) in
      case interpret_error E resp h of
        (e, h1) \<Rightarrow>
          (unless_source b committing
             (case located of
                Some (Inl le) \<Rightarrow>
                  (False, Some (Wrapf (''committing upload: '' @ err_text e
                     @ '' (could not resolve upload-session Location for cleanup: '' @ err_text le @ '')'') [e, le]))
              | _ \<Rightarrow> (retryable_registry_status e, Some (committing e))),
           session', body_close (rs_body resp) h1))"

definition unreplayable :: "string \<Rightarrow> int \<Rightarrow> goerr" where
  "unreplayable label status =
     Text (label @ '': registry returned '' @ fmt_d status
       @ '' but the reader is not an io.Seeker, so the request body cannot be replayed'')"

text \<open>What \<open>commitUpload\<close> makes of the response.\<close>

definition commit_response ::
    "env \<Rightarrow> client \<Rightarrow> response \<Rightarrow> upload_session \<Rightarrow> url \<Rightarrow> int \<Rightarrow> push_state \<Rightarrow> history
      \<Rightarrow> (bool \<times> goerr option) \<times> upload_session \<times> history" where
  "commit_response E c resp session upload_url sz s h =
     (let status = rs_status resp; b = ps_body s in
      if \<not> cl_write_redirects c \<and> replay_redirect status then
        (unless_source b committing (False, Some (committing (Internal ErrWriteRedirectRejected))), session,
         drain_and_close (rs_body resp) h)
      else if sz > 0 \<and> ps_start s = None \<and> replay_redirect status then
        (unless_source b committing
           (case resolve_location (response_request_url resp (Some upload_url))
                   (header_get (rs_header resp) ''Location'') of
              Inl le \<Rightarrow> (False, Some (Wrapf (''committing upload: '' @ internal_text ErrInvalidRedirectTarget
                          @ '': '' @ err_text le) [Internal ErrInvalidRedirectTarget, le]))
            | Inr u \<Rightarrow> (False, Some (unreplayable ''committing upload'' status))),
         session, drain_and_close (rs_body resp) h)
      else if status \<noteq> 201 then reject_commit_response E resp session upload_url b h
      else
        ((False, case b of None \<Rightarrow> None | Some x \<Rightarrow> map_option committing (body_validate x)), session,
         drain_and_close (rs_body resp) h))"

text \<open>\<open>commitUpload\<close>.\<close>

definition commit_upload ::
    "env \<Rightarrow> client \<Rightarrow> uploader \<Rightarrow> upload_session \<Rightarrow> string \<Rightarrow> int \<Rightarrow> push_state \<Rightarrow> history
      \<Rightarrow> (bool \<times> goerr option) \<times> upload_session \<times> push_state \<times> history" where
  "commit_upload E c U session dgst sz s h =
     (let upload_url = with_digest (us_url session) dgst in
      case new_commit_request upload_url sz s of
        (Inl e, s1) \<Rightarrow> ((False, Some e), session, s1, h)
      | (Inr req, s1) \<Rightarrow>
        (case do_location_request E (cl_write_redirects c)
                (upload_hooks U (ps_start s1) 0 sz True (ps_wire s1)) req (Some (us_registry session)) (ps_body s1) h of
           (Inl e, b, h1) \<Rightarrow>
             (case close_and_wait (up_source U) b h1 of
                (b', h2) \<Rightarrow>
                  (unless_source b' committing (retryable_request_error e, Some (committing e)), session,
                   s1\<lparr>ps_body := b'\<rparr>, h2))
         | (Inr resp, b, h1) \<Rightarrow>
             (case commit_response E c resp session upload_url sz (s1\<lparr>ps_body := b\<rparr>) h1 of
                (out, session', h2) \<Rightarrow> (out, session', s1\<lparr>ps_body := b\<rparr>, h2))))"

section \<open>One monolithic attempt\<close>

text \<open>The deferred cleanup of an attempt that did not commit; its error is dropped.\<close>

definition abandon_session :: "env \<Rightarrow> client \<Rightarrow> upload_session \<Rightarrow> history \<Rightarrow> history" where
  "abandon_session E c session h = snd (cancel_upload_session E c session h)"

definition accept_body :: "push_state \<Rightarrow> push_state" where
  "accept_body s =
     s\<lparr>ps_accepted := ps_accepted s @ (case ps_body s of None \<Rightarrow> [] | Some x \<Rightarrow> ub_out x)\<rparr>"

definition push_once ::
    "env \<Rightarrow> client \<Rightarrow> uploader \<Rightarrow> repository \<Rightarrow> string \<Rightarrow> int \<Rightarrow> push_state \<Rightarrow> history
      \<Rightarrow> (bool \<times> goerr option) \<times> push_state \<times> history" where
  "push_once E c U repo dgst sz s h =
     (case open_session E c repo [] h of
        (Inl (again, e), h1) \<Rightarrow> ((again, Some e), s, h1)
      | (Inr session, h1) \<Rightarrow>
        (case commit_upload E c U session dgst sz (s\<lparr>ps_accepted := []\<rparr>) h1 of
           ((again, Some e), session', s1, h2) \<Rightarrow> ((again, Some e), s1, abandon_session E c session' h2)
         | ((again, None), session', s1, h2) \<Rightarrow>
             (case tracker_set sz (ps_tracker s1) h2 of
                (t, h3) \<Rightarrow> ((False, None), accept_body (s1\<lparr>ps_tracker := t\<rparr>), h3))))"

section \<open>Bodies in transit\<close>

text \<open>The events of a running body.\<close>

definition body_event :: "event \<Rightarrow> bool" where
  "body_event e \<longleftrightarrow> (case e of EvSourceRead n \<Rightarrow> True | EvWire k \<Rightarrow> True | _ \<Rightarrow> False)"

definition ran :: "history \<Rightarrow> history \<Rightarrow> bool" where
  "ran h h' \<longleftrightarrow> (\<exists>es. h' = es @ h \<and> list_all body_event es)"

lemma ran_refl [simp, intro]: "ran h h"
  by (simp add: ran_def)

lemma ran_trans: "ran h h1 \<Longrightarrow> ran h1 h2 \<Longrightarrow> ran h h2"
  unfolding ran_def by (metis append.assoc list_all_append)

lemma ran_Cons [simp]: "body_event e \<Longrightarrow> ran h h' \<Longrightarrow> ran h (e # h')"
  unfolding ran_def by (metis append_Cons list.pred_inject(2))

lemma ran_settled: "ran h h' \<Longrightarrow> settled E {} h h'"
proof -
  have "settled E {} h (es @ h)" if "list_all body_event es" for es
    using that by (induction es) (auto simp: body_event_def intro!: settled_event split: event.splits)
  then show "ran h h' \<Longrightarrow> settled E {} h h'" by (auto simp: ran_def)
qed

lemma ran_sent: "ran h h' \<Longrightarrow> sent h' = sent h"
proof -
  have "sent (es @ h) = sent h" if "list_all body_event es" for es
    using that by (induction es) (auto simp: body_event_def split: event.splits)
  then show "ran h h' \<Longrightarrow> sent h' = sent h" by (auto simp: ran_def)
qed

lemma probe_ran: "probe_loop src left r h = ((e, r'), h') \<Longrightarrow> ran h h'"
proof (induction left arbitrary: h)
  case (Suc left)
  obtain n d x h1 where rd: "source_read src 1 h = ((n, d, x), h1)" by (metis prod_cases4 surj_pair)
  then have "ran h h1" by (auto simp: source_read_def body_event_def split: prod.splits)
  with Suc rd show ?case by (auto split: if_splits option.splits intro: ran_trans)
qed auto

lemma exact_read_ran: "exact_read src p r h = ((d, r'), h') \<Longrightarrow> ran h h'"
proof -
  assume a: "exact_read src p r h = ((d, r'), h')"
  let ?p = "if int p > er_remaining r then nat (er_remaining r) else p"
  obtain n d0 x h1 where rd: "source_read src ?p h = ((n, d0, x), h1)" by (metis prod_cases4 surj_pair)
  then have one: "ran h h1" by (auto simp: source_read_def body_event_def split: prod.splits)
  have step: "ran h1 h''" if "exact_answer src q n d0 x r h1 = (o', h'')" for q o' h''
    using that probe_ran [of src max_consecutive_empty_reads _ h1]
    by (auto simp: exact_answer_def probe_eof_def Let_def split: if_splits prod.splits option.splits)
  show ?thesis
  proof (cases "er_remaining r = 0")
    case True
    with a show ?thesis by (simp add: exact_read_def)
  next
    case False
    with a rd have "exact_answer src ?p n d0 x r h1 = ((d, r'), h')"
      by (simp add: exact_read_def Let_def split: if_splits)
    with step one show ?thesis by (blast intro: ran_trans)
  qed
qed

lemma perform_ran: "body_perform src a b h = Some (b', h') \<Longrightarrow> ran h h'"
proof (erule perform_cases)
  assume go: "pump_go src b h = Some (b', h')"
  show ?thesis
  proof (cases "ub_pump b")
    case (PumpPut c)
    with go show ?thesis by (cases c) (auto simp: pump_go.simps split: if_splits)
  qed (use go in \<open>auto simp: pump_go.simps split: if_splits prod.splits dest: exact_read_ran\<close>)
next
  assume go: "body_go b h = Some (b', h')"
  show ?thesis
  proof (cases "ub_reader b")
    case (BodyGot n c)
    with go show ?thesis by (cases c) (auto simp: body_go.simps split: if_splits)
  qed (use go in \<open>auto simp: body_go.simps wire_add_def body_event_def Let_def split: if_splits list.splits option.splits\<close>)
qed auto

text \<open>
  A body over the stream \<open>S\<close> from \<open>p0\<close> on, as the machine keeps it; and one that has been let go.
\<close>

definition good_body :: "source \<Rightarrow> byte list \<Rightarrow> nat \<Rightarrow> int \<Rightarrow> bool \<Rightarrow> upload_body \<Rightarrow> history \<Rightarrow> bool" where
  "good_body src S p0 sz fin b h \<longleftrightarrow> flags_inv b \<and> current_inv b \<and> data_inv src S p0 sz fin b h"

lemma good_perform:
  "body_perform src a b h = Some (b', h') \<Longrightarrow> holds_stream src S \<Longrightarrow> good_body src S p0 sz fin b h \<Longrightarrow>
   good_body src S p0 sz fin b' h'"
  unfolding good_body_def by (meson perform_flags perform_current perform_data)

lemma good_elsewhere:
  assumes "good_body src S p0 sz fin b h" and "\<not> of_source e" shows "good_body src S p0 sz fin b (e # h)"
proof -
  have d: "data_inv src S p0 sz fin b h" using assms(1) by (simp add: good_body_def)
  have "data_inv src S p0 sz fin b (e # h)"
    by (rule data_inv_frame [OF d]) (use assms(2) in \<open>simp_all add: source_pos_elsewhere del: source_pos.simps\<close>)
  with assms(1) show ?thesis by (simp add: good_body_def)
qed

lemma good_new:
  assumes "source_pos src h = p0" and "0 \<le> sz" shows "good_body src S p0 sz fin (new_body off sz fin wire) h"
  using assms
  by (auto simp: good_body_def flags_inv_def current_inv_def data_inv_def exact_ok_def consumed_def
      new_exact_reader_def new_upload_body_def new_body_def pipeline_def current_batch_def)

text \<open>Runs of a body, with and without a stream.\<close>

definition kept_body :: "(upload_body \<Rightarrow> history \<Rightarrow> bool) \<Rightarrow> source \<Rightarrow> bool" where
  "kept_body I src \<longleftrightarrow> (\<forall>a b h b' h'. I b h \<longrightarrow> body_perform src a b h = Some (b', h') \<longrightarrow> I b' h')"

lemma kept_flags: "kept_body (\<lambda>b h. flags_inv b) src"
  unfolding kept_body_def using perform_flags by blast

lemma kept_good: "holds_stream src S \<Longrightarrow> kept_body (good_body src S p0 sz fin) src"
  unfolding kept_body_def using good_perform by blast

lemma body_run_kept:
  "kept_body I src \<Longrightarrow> I b h \<Longrightarrow> body_run src as (b, h) = (b', h') \<Longrightarrow> I b' h' \<and> ran h h'"
proof (induction as arbitrary: b h)
  case (Cons a as)
  show ?case
  proof (cases "body_perform src a b h")
    case None
    with Cons show ?thesis by (simp del: body_perform.simps)
  next
    case (Some r)
    obtain b1 h1 where r: "r = (b1, h1)" by (metis surj_pair)
    have "I b1 h1" using Cons.prems(1,2) Some r unfolding kept_body_def by blast
    with Cons.IH [OF Cons.prems(1) this] Cons.prems(3) Some r perform_ran [of src a b h b1 h1] show ?thesis
      by (auto simp del: body_perform.simps intro: ran_trans)
  qed
qed simp

lemma wind_step_kept:
  assumes "kept_body I src" and "I b h" and "ub_close_called b" and "wind_step src (b, h) = (b', h')"
  shows "I b' h' \<and> ran h h' \<and> ub_close_called b' \<and> (rank b \<noteq> 0 \<longrightarrow> rank b' < rank b)"
proof (cases "rank b = 0")
  case True
  from wind_down_idle [OF True, of src 1 h] assms True show ?thesis by simp
next
  case False
  note w = wind_step_closed [OF assms(3) False assms(4)]
  then obtain a where "body_perform src a b h = Some (b', h')" by blast
  with w assms(1,2) perform_ran show ?thesis unfolding kept_body_def by blast
qed

lemma wind_down_kept:
  assumes "kept_body I src" and "I b h" and "ub_close_called b" and "wind_down src n (b, h) = (b', h')"
  shows "I b' h' \<and> ran h h' \<and> ub_close_called b' \<and> (rank b \<le> n \<longrightarrow> rank b' = 0)"
  using assms(2-4)
proof (induction n arbitrary: b h)
  case (Suc n)
  obtain b1 h1 where w: "wind_step src (b, h) = (b1, h1)" by (metis surj_pair)
  note k = wind_step_kept [OF assms(1) Suc.prems(1,2) w]
  have "rank b = 0 \<Longrightarrow> b1 = b \<and> h1 = h" using wind_down_idle [of b src 1 h] w by simp
  with Suc.IH [of b1 h1] Suc.prems(3) k w show ?case by (cases "rank b = 0") (auto intro: ran_trans)
qed simp

lemma shut_body_kept:
  assumes "kept_body I src" and "I b h" and "shut_body src b h = (b', h')"
  shows "I b' h' \<and> ran h h' \<and> ub_close_called b' \<and> rank b' = 0"
proof -
  let ?c = "close_call_body b"
  let ?d = "case close_go_body ?c of Some x \<Rightarrow> x | None \<Rightarrow> ?c"
  have "body_perform src BodyClose b h = Some (?c, h)" by simp
  then have c: "I ?c h" using assms(1,2) unfolding kept_body_def by blast
  have "close_go_body ?c = Some x \<Longrightarrow> I x h" for x
    using assms(1) c unfolding kept_body_def by (metis body_perform.simps(7) option.simps(9))
  with c have d: "I ?d h" by (auto split: option.split)
  have "ub_close_called ?d" by (auto simp: close_go_body_def close_call_body_def split: option.split)
  from wind_down_kept [OF assms(1) d this] assms(3) rank_bound [of ?d] show ?thesis by (auto simp: shut_body_def)
qed

lemma shut_released: "shut_body src b h = (b', h') \<Longrightarrow> flags_inv b \<Longrightarrow> flags_inv b' \<and> ub_released b'"
  using shut_body_kept [OF kept_flags, of b src h b' h'] rank_done [of b'] by (auto simp: flags_inv_def)


section \<open>Bodies and redirects\<close>

text \<open>
  What holds of a request body through a redirect chain: \<open>P req\<close> before a request is sent with
  it, \<open>Q\<close> once the transport has closed it.
\<close>

locale carried_body =
  fixes hooks :: "'b body_hooks"
    and first :: request
    and P :: "request \<Rightarrow> 'b \<Rightarrow> history \<Rightarrow> bool"
    and Q :: "'b \<Rightarrow> history \<Rightarrow> bool"
  assumes sent_closed: "P req b h \<Longrightarrow> hk_send hooks req b h = (b', h') \<Longrightarrow> Q b' h'"
    and replayed: "hk_get hooks = Some g \<Longrightarrow> Q b h \<Longrightarrow> g b h = ((None, b'), h') \<Longrightarrow>
      rq_length req = rq_length first \<Longrightarrow> P req b' h'"
    and replay_failed: "hk_get hooks = Some g \<Longrightarrow> Q b h \<Longrightarrow> g b h = ((Some e, b'), h') \<Longrightarrow> Q b' h'"
    and closed: "P req b h \<Longrightarrow> hk_close hooks b h = (b', h') \<Longrightarrow> Q b' h'"
    and still_closed: "Q b h \<Longrightarrow> P req b h"
    and elsewhere: "P req b h \<Longrightarrow> \<not> of_source ev \<Longrightarrow> P req b (ev # h)"
    and closed_elsewhere: "Q b h \<Longrightarrow> \<not> of_source ev \<Longrightarrow> Q b (ev # h)"
begin

lemma round_trip_closed: "Q b h \<Longrightarrow> scoped_round_trip E req h = (out, h') \<Longrightarrow> Q b h'"
  by (auto simp: scoped_round_trip_def of_source_def split: if_splits dest!: round_trip_sent intro!: closed_elsewhere)

lemma hop_carries:
  assumes "P req b h" and "client_hop E allow hooks first via req b h = res"
  shows "case res of Inl (out, b', h') \<Rightarrow> Q b' h' | Inr (req', b', h') \<Rightarrow> P req' b' h'"
proof -
  obtain b1 h1 where s: "hk_send hooks req b h = (b1, h1)" by (metis surj_pair)
  obtain out h2 where t: "scoped_round_trip E req h1 = (out, h2)" by (metis surj_pair)
  have q: "Q b1 h2" using sent_closed [OF assms(1) s] t by (rule round_trip_closed)
  have qc: "Q x (body_close k g)" if "Q x g" for x k g
    using that by (auto simp: body_close_def of_source_def intro!: closed_elsewhere)
  have pc: "P r x (body_close k g)" if "P r x g" for r x k g
    using that by (auto simp: body_close_def of_source_def intro!: elsewhere)
  show ?thesis
  proof (cases out)
    case (Inl e)
    with assms(2) s t q show ?thesis by (auto simp: client_hop_def)
  next
    case (Inr resp)
    show ?thesis
    proof (cases "redirect_behavior hooks (rq_method req) (rs_status resp)")
      case None
      with assms(2) s t q Inr show ?thesis by (auto simp: client_hop_def)
    next
      case (Some mb)
      obtain m ib where mb: "mb = (m, ib)" by (cases mb)
      let ?loc = "header_get (rs_header resp) ''Location''"
      show ?thesis
      proof (cases "?loc = [] \<or> url_parse_ref (rq_url req) ?loc = None")
        case True
        show ?thesis
          using assms(2) s t q Inr Some mb True closed [OF still_closed [OF qc [OF q]]]
          by (auto simp: client_hop_def Let_def split: prod.splits)
      next
        case False
        then obtain u where u: "url_parse_ref (rq_url req) ?loc = Some u" "?loc \<noteq> []" by auto
        let ?req = "next_request first (via @ [req]) u m ib"
        obtain r b2 h3 where g: "replay_body hooks ib b1 h2 = ((r, b2), h3)" by (metis prod_cases3 surj_pair)
        have ok: "r = None \<Longrightarrow> P ?req b2 h3" "r \<noteq> None \<Longrightarrow> Q b2 h3"
          using g replayed [OF _ q, of _ b2 h3 ?req] replay_failed [OF _ q, of _ _ b2 h3] still_closed [OF q]
          by (auto simp: replay_body_def next_request_def Let_def split: option.splits if_splits)
        show ?thesis
        proof (cases r)
          case None
          then have p: "P ?req b2 (body_close (rs_body resp) h3)" using ok(1) pc by blast
          show ?thesis
            using assms(2) s t Inr Some mb u g None p closed [OF p]
            by (auto simp: client_hop_def Let_def split: option.splits prod.splits)
        next
          case (Some e)
          then have "Q b2 (body_close (rs_body resp) h3)" using ok(2) qc by blast
          with assms(2) s t Inr \<open>redirect_behavior hooks (rq_method req) (rs_status resp) = Some mb\<close> mb u g Some
          show ?thesis by (auto simp: client_hop_def Let_def)
        qed
      qed
    qed
  qed
qed

lemma loop_carries:
  "P req b h \<Longrightarrow> client_loop E allow hooks first via req b h = (out, b', h') \<Longrightarrow> Q b' h'"
proof (induction "max_redirects - length via" arbitrary: via req b h rule: less_induct)
  case less
  show ?case
  proof (cases "client_hop E allow hooks first via req b h")
    case (Inl r)
    with hop_carries [OF less.prems(1) Inl] less.prems(2) show ?thesis by (simp add: client_loop.simps)
  next
    case (Inr r)
    obtain req1 b1 h1 where r: "r = (req1, b1, h1)" by (metis prod_cases3)
    have p: "P req1 b1 h1" using hop_carries [OF less.prems(1) Inr] r by simp
    have "length (via @ [req]) < max_redirects"
      using client_hop_next [OF Inr [unfolded r]] check_redirect_hops by blast
    then have "max_redirects - length (via @ [req]) < max_redirects - length via" by simp
    from less.hyps [OF this p] less.prems(2) Inr r show ?thesis by (simp add: client_loop.simps [of E allow hooks first via])
  qed
qed

end

lemma location_request_carries:
  assumes "carried_body hooks (with_registry_origin req u) P Q" and "P (with_registry_origin req u) b h"
    and "do_location_request E allow hooks req u b h = (out, b', h')"
  shows "Q b' h'"
proof -
  obtain out' where "client_loop E allow hooks (with_registry_origin req u) [] (with_registry_origin req u) b h = (out', b', h')"
    using assms(3) by (auto simp: do_location_request_def client_do_def split: prod.splits sum.splits)
  from carried_body.loop_carries [OF assms(1,2) this] show ?thesis .
qed

section \<open>The body of an upload request\<close>

text \<open>
  Over the stream \<open>S\<close>: the body of the request in hand starts at \<open>p0\<close>, and after a request it is
  released. With no stream: it is released.
\<close>

definition at_rest :: "upload_body option \<Rightarrow> bool" where
  "at_rest b \<longleftrightarrow> (case b of None \<Rightarrow> True | Some x \<Rightarrow> flags_inv x \<and> ub_released x)"

definition streams :: "source \<Rightarrow> byte list \<Rightarrow> nat \<Rightarrow> int \<Rightarrow> bool \<Rightarrow> upload_body option \<Rightarrow> history \<Rightarrow> bool" where
  "streams src S p0 sz fin b h \<longleftrightarrow> (\<exists>x. b = Some x \<and> good_body src S p0 sz fin x h)"

lemma good_flags: "good_body src S p0 sz fin x h \<Longrightarrow> flags_inv x"
  by (simp add: good_body_def)

lemma close_and_wait_rest:
  assumes "close_and_wait src b h = (b', h')" and "\<forall>x. b = Some x \<longrightarrow> flags_inv x"
  shows "at_rest b' \<and> ran h h'"
proof (cases b)
  case (Some x)
  obtain x' h1 where sh: "shut_body src x h = (x', h1)" by (metis surj_pair)
  have "flags_inv x" using assms(2) Some by simp
  with shut_released [OF sh] shut_body_kept [OF kept_flags _ sh] assms(1) Some sh show ?thesis
    by (auto simp: close_and_wait_def at_rest_def)
qed (use assms in \<open>simp add: close_and_wait_def at_rest_def\<close>)

lemma close_and_wait_streams:
  assumes "close_and_wait src b h = (b', h')" and "holds_stream src S" and "streams src S p0 sz fin b h"
  shows "streams src S p0 sz fin b' h' \<and> at_rest b'"
proof -
  obtain x where x: "b = Some x" "good_body src S p0 sz fin x h" using assms(3) by (auto simp: streams_def)
  obtain x' h1 where sh: "shut_body src x h = (x', h1)" by (metis surj_pair)
  from shut_body_kept [OF kept_good [OF assms(2)] x(2) sh] shut_released [OF sh good_flags [OF x(2)]] assms(1) x(1) sh
  show ?thesis by (auto simp: close_and_wait_def streams_def at_rest_def)
qed

lemma at_rest_flags: "at_rest b \<Longrightarrow> b = Some x \<Longrightarrow> flags_inv x"
  by (simp add: at_rest_def)

lemma flags_new: "flags_inv (new_body off sz fin wire)"
  by (simp add: flags_inv_def new_body_def new_upload_body_def)

text \<open>With no assumption on the source: every body is let go.\<close>

definition carried :: "request \<Rightarrow> upload_body option \<Rightarrow> bool" where
  "carried req b \<longleftrightarrow> (\<forall>x. b = Some x \<longrightarrow> flags_inv x) \<and> (at_rest b \<or> rq_length req \<noteq> 0)"

lemma send_body_rest:
  assumes "carried req b" and "send_body U req b h = (b', h')" shows "at_rest b'"
proof (cases "b = None \<or> rq_length req = 0")
  case True
  with assms show ?thesis by (auto simp: carried_def send_body_def at_rest_def split: option.splits)
next
  case False
  then obtain x where x: "b = Some x" "rq_length req \<noteq> 0" "flags_inv x" using assms(1) by (auto simp: carried_def)
  obtain x1 h1 where r: "body_run (up_source U) (up_courier U h req) (x, h) = (x1, h1)" by (metis surj_pair)
  have "flags_inv x1" using body_run_kept [OF kept_flags x(3) r] by blast
  with close_and_wait_rest [of "up_source U" "Some x1" h1 b' h'] assms(2) x r show ?thesis by (simp add: send_body_def)
qed

interpretation rests: carried_body "upload_hooks U start offset sz fin wire" "req0\<lparr>rq_length := sz\<rparr>"
    "\<lambda>req b h. carried req b" "\<lambda>b h. at_rest b"
  for U start offset sz fin wire req0
proof
  fix req b h b' h'
  assume "carried req b" and "hk_send (upload_hooks U start offset sz fin wire) req b h = (b', h')"
  then show "at_rest b'" using send_body_rest [of req b U h b' h'] by (simp add: upload_hooks_def)
next
  fix g b h b' h' req
  assume "hk_get (upload_hooks U start offset sz fin wire) = Some g" and "at_rest b"
    and "g b h = ((None, b'), h')" and "rq_length (req :: request) = rq_length (req0\<lparr>rq_length := sz\<rparr>)"
  then show "carried req b'"
    by (auto simp: upload_hooks_def get_body_def carried_def flags_new split: if_splits option.splits prod.splits)
next
  fix g b h e b' h'
  assume "hk_get (upload_hooks U start offset sz fin wire) = Some g" and "at_rest b" and "g b h = ((Some e, b'), h')"
  then show "at_rest b'"
    by (auto simp: upload_hooks_def get_body_def split: if_splits option.splits prod.splits)
next
  fix req b h b' h'
  assume "carried req b" and "hk_close (upload_hooks U start offset sz fin wire) b h = (b', h')"
  then show "at_rest b'" using close_and_wait_rest by (auto simp: upload_hooks_def carried_def)
qed (auto simp: carried_def at_rest_flags)

text \<open>Over a stream: every body of the chain carries the bytes from \<open>p0\<close> on.\<close>

definition stream_case :: "uploader \<Rightarrow> int option \<Rightarrow> byte list \<Rightarrow> nat \<Rightarrow> int \<Rightarrow> bool" where
  "stream_case U start S p0 sz \<longleftrightarrow>
     holds_stream (up_source U) S \<and> 0 < sz \<and> (\<forall>s. start = Some s \<longrightarrow> nat s = p0)"

lemma streams_elsewhere: "streams src S p0 sz fin b h \<Longrightarrow> \<not> of_source ev \<Longrightarrow> streams src S p0 sz fin b (ev # h)"
  using good_elsewhere by (auto simp: streams_def)

lemma send_body_streams:
  assumes "holds_stream (up_source U) S" and "streams (up_source U) S p0 sz fin b h" and "at_rest b \<or> rq_length req \<noteq> 0"
    and "send_body U req b h = (b', h')"
  shows "streams (up_source U) S p0 sz fin b' h' \<and> at_rest b'"
proof (cases "rq_length req = 0")
  case True
  with assms show ?thesis by (auto simp: send_body_def streams_def)
next
  case False
  obtain x where x: "b = Some x" "good_body (up_source U) S p0 sz fin x h" using assms(2) by (auto simp: streams_def)
  obtain x1 h1 where r: "body_run (up_source U) (up_courier U h req) (x, h) = (x1, h1)" by (metis surj_pair)
  have "streams (up_source U) S p0 sz fin (Some x1) h1"
    using body_run_kept [OF kept_good [OF assms(1)] x(2) r] by (simp add: streams_def)
  from close_and_wait_streams [OF _ assms(1) this, of b' h'] assms(4) x(1) r False show ?thesis by (simp add: send_body_def)
qed

interpretation flows: carried_body "upload_hooks U start offset sz fin wire" "req0\<lparr>rq_length := sz\<rparr>"
    "\<lambda>req b h. stream_case U start S p0 sz \<longrightarrow>
       streams (up_source U) S p0 sz fin b h \<and> (at_rest b \<or> rq_length req \<noteq> 0)"
    "\<lambda>b h. stream_case U start S p0 sz \<longrightarrow> streams (up_source U) S p0 sz fin b h \<and> at_rest b"
  for U start offset sz fin wire req0 S p0
proof
  fix req b h b' h'
  assume "stream_case U start S p0 sz \<longrightarrow> streams (up_source U) S p0 sz fin b h \<and> (at_rest b \<or> rq_length (req :: request) \<noteq> 0)"
    and "hk_send (upload_hooks U start offset sz fin wire) req b h = (b', h')"
  then show "stream_case U start S p0 sz \<longrightarrow> streams (up_source U) S p0 sz fin b' h' \<and> at_rest b'"
    using send_body_streams [of U S p0 sz fin b h req b' h'] by (auto simp: upload_hooks_def stream_case_def)
next
  fix g b h b' h' req
  assume g: "hk_get (upload_hooks U start offset sz fin wire) = Some g" "g b h = ((None, b'), h')"
    and len: "rq_length (req :: request) = rq_length (req0\<lparr>rq_length := sz\<rparr>)"
  show "stream_case U start S p0 sz \<longrightarrow> streams (up_source U) S p0 sz fin b' h' \<and> (at_rest b' \<or> rq_length req \<noteq> 0)"
  proof
    assume c: "stream_case U start S p0 sz"
    from g c obtain k where k: "start = Some k" "nat k = p0" "b' = Some (new_body offset sz fin wire)"
        "h' = EvSourceSeek k # h" "so_seek (up_source U) h k = None"
      by (auto simp: upload_hooks_def get_body_def source_seek_def stream_case_def split: if_splits option.splits prod.splits)
    then have "source_pos (up_source U) h' = p0" by simp
    with good_new [OF this, of sz S fin offset wire] k c len show
      "streams (up_source U) S p0 sz fin b' h' \<and> (at_rest b' \<or> rq_length req \<noteq> 0)"
      by (auto simp: streams_def stream_case_def)
  qed
next
  fix g b h e b' h'
  assume "hk_get (upload_hooks U start offset sz fin wire) = Some g" and "g b h = ((Some e, b'), h')"
    and q: "stream_case U start S p0 sz \<longrightarrow> streams (up_source U) S p0 sz fin b h \<and> at_rest b"
  then have "b' = b \<and> (h' = h \<or> (\<exists>k. h' = EvSourceSeek k # h \<and> so_seek (up_source U) h k \<noteq> None))"
    by (auto simp: upload_hooks_def get_body_def source_seek_def split: if_splits option.splits prod.splits)
  then have same: "b' = b" "source_pos (up_source U) h' = source_pos (up_source U) h" by auto
  with q show "stream_case U start S p0 sz \<longrightarrow> streams (up_source U) S p0 sz fin b' h' \<and> at_rest b'"
    by (auto simp: streams_def good_body_def intro: data_inv_frame)
next
  fix req b h b' h'
  assume "stream_case U start S p0 sz \<longrightarrow> streams (up_source U) S p0 sz fin b h \<and> (at_rest b \<or> rq_length (req :: request) \<noteq> 0)"
    and "hk_close (upload_hooks U start offset sz fin wire) b h = (b', h')"
  then show "stream_case U start S p0 sz \<longrightarrow> streams (up_source U) S p0 sz fin b' h' \<and> at_rest b'"
    using close_and_wait_streams [of "up_source U" b h b' h' S p0 sz fin] by (auto simp: upload_hooks_def stream_case_def)
qed (auto intro: streams_elsewhere)

end
