(* ===== verification/CommitRuns.thy ===== *)
theory CommitRuns
  imports Commit
begin

text \<open>
  What the final PUT and a monolithic attempt do: how many requests they send, that they let every
  body go, and which bytes the registry has accepted when they report success.
\<close>

section \<open>What a commit does\<close>

lemma kept_any: "kept_body (\<lambda>b h. True) src"
  by (simp add: kept_body_def)

lemma close_and_wait_ran: "close_and_wait src b h = (b', h') \<Longrightarrow> ran h h'"
  using shut_body_kept [OF kept_any] by (fastforce simp: close_and_wait_def split: option.splits prod.splits)

lemma send_body_ran: "send_body U req b h = (b', h') \<Longrightarrow> ran h h'"
  using body_run_kept [OF kept_any] close_and_wait_ran
  by (fastforce simp: send_body_def split: option.splits prod.splits if_splits intro: ran_trans)

lemma upload_hooks_settling: "settling_hooks E (upload_hooks U start offset sz fin wire)"
  unfolding settling_hooks_def
proof (intro conjI allI impI)
  fix req b h
  show "settled E {} h (snd (hk_send (upload_hooks U start offset sz fin wire) req b h))"
    by (rule ran_settled, rule send_body_ran [of U req b h "fst (send_body U req b h)"]) (simp add: upload_hooks_def)
  show "settled E {} h (snd (hk_close (upload_hooks U start offset sz fin wire) b h))"
    by (rule ran_settled, rule close_and_wait_ran [of "up_source U" b h "fst (close_and_wait (up_source U) b h)"]) (simp add: upload_hooks_def)
next
  fix g b h
  assume "hk_get (upload_hooks U start offset sz fin wire) = Some g"
  then show "settled E {} h (snd (g b h))"
    by (auto simp: upload_hooks_def get_body_def source_seek_def intro!: settled_event split: if_splits option.splits prod.splits)
qed

lemma upload_hooks_quiet: "quiet_hooks (upload_hooks U start offset sz fin wire)"
  unfolding quiet_hooks_def
proof (intro conjI allI impI)
  fix req b h
  show "sent (snd (hk_send (upload_hooks U start offset sz fin wire) req b h)) = sent h"
    by (rule ran_sent, rule send_body_ran [of U req b h "fst (send_body U req b h)"]) (simp add: upload_hooks_def)
  show "sent (snd (hk_close (upload_hooks U start offset sz fin wire) b h)) = sent h"
    by (rule ran_sent, rule close_and_wait_ran [of "up_source U" b h "fst (close_and_wait (up_source U) b h)"]) (simp add: upload_hooks_def)
next
  fix g b h
  assume "hk_get (upload_hooks U start offset sz fin wire) = Some g"
  then show "sent (snd (g b h)) = sent h"
    by (auto simp: upload_hooks_def get_body_def source_seek_def split: if_splits option.splits prod.splits)
qed

text \<open>An upload request: at most ten sends, all with its method, bodies let go.\<close>

lemma upload_request:
  assumes "do_location_request E allow (upload_hooks U start offset sz fin wire) req u b h = (out, b', h')"
    and "rq_length req = sz" and "\<forall>x. b = Some x \<longrightarrow> flags_inv x" and "at_rest b \<or> sz \<noteq> 0"
  shows "at_rest b' \<and> settled E (kept out) h h' \<and> length (sent h') \<le> length (sent h) + 10 \<and>
    (\<exists>rs. sent h' = rs @ sent h \<and> rs \<noteq> [] \<and> list_all (\<lambda>sr. rq_method (snd sr) = rq_method req) rs)"
proof -
  let ?req = "with_registry_origin req u"
  have eq: "?req\<lparr>rq_length := sz\<rparr> = ?req" using assms(2) by (simp add: with_registry_origin_def split: option.split)
  have "carried ?req b" using assms(2-4) by (simp add: carried_def with_registry_origin_def split: option.split)
  from location_request_carries [OF rests.carried_body_axioms [of U start offset sz fin wire ?req, unfolded eq] this assms(1)]
  have r: "at_rest b'" .
  obtain out' where d: "client_do E allow (upload_hooks U start offset sz fin wire) ?req b h = (out', b', h')"
    using assms(1) do_location_request_do by metis
  show ?thesis
    using r settled_location_request [OF upload_hooks_settling assms(1)] client_do_sent [OF upload_hooks_quiet d]
    by (auto simp: chain_ok_def max_redirects_def list_all_iff)
qed


text \<open>The same over a stream: the bytes of the body that came with the response.\<close>

lemma upload_request_streams:
  assumes "do_location_request E allow (upload_hooks U start offset sz fin wire) req u b h = (out, b', h')"
    and "rq_length req = sz" and "stream_case U start S p0 sz" and "streams (up_source U) S p0 sz fin b h"
  shows "streams (up_source U) S p0 sz fin b' h' \<and> at_rest b'"
proof -
  let ?req = "with_registry_origin req u"
  have eq: "?req\<lparr>rq_length := sz\<rparr> = ?req" using assms(2) by (simp add: with_registry_origin_def split: option.split)
  have "rq_length ?req \<noteq> 0" using assms(2,3) by (simp add: with_registry_origin_def stream_case_def split: option.split)
  with location_request_carries [OF flows.carried_body_axioms [where U = U and start = start and S = S and ?p0.0 = p0 and sz = sz and offset = offset and fin = fin and wire = wire and ?req0.0 = ?req, unfolded eq] _ assms(1)]
    assms(3,4) show ?thesis by blast
qed

lemma new_request_fields: "new_request m u = Inr req \<Longrightarrow> rq_method req = m \<and> rq_length req = 0"
  by (auto simp: new_request_def split: option.splits)

lemma new_commit_request_fields:
  assumes "new_commit_request u sz s = (Inr req, s1)"
  shows "rq_length req = sz \<and> rq_method req = ''PUT'' \<and> ps_start s1 = ps_start s \<and> ps_wire s1 = ps_wire s \<and>
    ps_tracker s1 = ps_tracker s \<and> ps_accepted s1 = ps_accepted s \<and>
    ps_body s1 = (if sz > 0 then Some (new_body 0 sz True (ps_wire s)) else ps_body s)"
  using assms by (auto simp: new_commit_request_def Let_def dest: new_request_fields split: sum.splits if_splits option.splits)

lemma commit_response_settled:
  assumes "commit_response E c resp session u sz s h1 = (out, session', h2)" and "settled E {rs_body resp} h h1"
  shows "settled E {} h h2 \<and> sent h2 = sent h1"
proof -
  have r: "settled E {} h h3 \<and> sent h3 = sent h1"
    if rj: "reject_commit_response E resp session u b h1 = (o', s', h3)" for u b o' s' h3
  proof -
    obtain e g where i: "interpret_error E resp h1 = (e, g)" by (metis surj_pair)
    with rj have "h3 = body_close (rs_body resp) g" by (simp add: reject_commit_response_def Let_def)
    with settled_rejected [OF assms(2) i] i show ?thesis
      by (auto simp: body_close_def interpret_error_def now_def body_drain_def)
  qed
  have d: "settled E {} h (drain_and_close (rs_body resp) h1) \<and> sent (drain_and_close (rs_body resp) h1) = sent h1"
    using settled_consumed(3) [OF assms(2)] by (simp add: drain_and_close_def body_close_def body_drain_def)
  show ?thesis using assms(1) r d unfolding commit_response_def Let_def by (auto split: if_splits)
qed

lemma commit_upload_run:
  assumes "commit_upload E c U session dgst sz s h = (out, session', s', h')" and "at_rest (ps_body s)" and "0 \<le> sz"
  shows "at_rest (ps_body s') \<and> settled E {} h h' \<and> length (sent h') \<le> length (sent h) + 10 \<and>
    ps_start s' = ps_start s \<and> ps_accepted s' = ps_accepted s \<and> ps_tracker s' = ps_tracker s \<and> ps_wire s' = ps_wire s"
proof -
  let ?u = "with_digest (us_url session) dgst"
  obtain r s1 where n: "new_commit_request ?u sz s = (r, s1)" by (metis surj_pair)
  show ?thesis
  proof (cases r)
    case (Inl e)
    with n have "s1 = s" by (auto simp: new_commit_request_def Let_def split: sum.splits if_splits option.splits)
    with assms n Inl show ?thesis by (auto simp: commit_upload_def Let_def)
  next
    case (Inr req)
    note f = new_commit_request_fields [OF n [unfolded Inr]]
    obtain res b h1 where run: "do_location_request E (cl_write_redirects c)
        (upload_hooks U (ps_start s1) 0 sz True (ps_wire s1)) req (Some (us_registry session)) (ps_body s1) h = (res, b, h1)"
      by (metis prod_cases3)
    have "\<forall>x. ps_body s1 = Some x \<longrightarrow> flags_inv x" and "at_rest (ps_body s1) \<or> sz \<noteq> 0"
      using f assms(2,3) by (auto simp: flags_new dest: at_rest_flags)
    with upload_request [OF run] f have q: "at_rest b" "settled E (kept res) h h1" "length (sent h1) \<le> length (sent h) + 10" by auto
    show ?thesis
    proof (cases res)
      case (Inl e)
      obtain b' h2 where w: "close_and_wait (up_source U) b h1 = (b', h2)" by (metis surj_pair)
      have "at_rest b' \<and> ran h1 h2" using close_and_wait_rest [OF w] q(1) at_rest_flags by blast
      with assms(1) n Inr run Inl w q f ran_sent ran_settled [of h1 h2 E] settled_trans [of E "{}" h h1 "{}" h2] show ?thesis
        by (auto simp: commit_upload_def Let_def)
    next
      case (Inr resp)
      obtain o' ss h2 where cr: "commit_response E c resp session ?u sz (s1\<lparr>ps_body := b\<rparr>) h1 = (o', ss, h2)" by (metis prod_cases3)
      have "settled E {} h h2 \<and> sent h2 = sent h1" using commit_response_settled [OF cr] q(2) Inr by simp
      with assms(1) n \<open>r = Inr req\<close> run Inr cr q f show ?thesis by (auto simp: commit_upload_def Let_def)
    qed
  qed
qed

text \<open>The bytes of a body that validates, and that its source ends there.\<close>

definition delivered :: "upload_body option \<Rightarrow> byte list" where
  "delivered b = (case b of None \<Rightarrow> [] | Some x \<Rightarrow> ub_out x)"

lemma streams_validated:
  assumes "streams src S p0 sz fin (Some x) h" and "body_validate x = None"
  shows "ub_out x = take (nat sz) (drop p0 S) \<and> int (length (ub_out x)) = sz \<and> (fin \<longrightarrow> length S \<le> p0 + nat sz) \<and>
    source_pos src h = p0 + nat sz"
proof -
  have d: "data_inv src S p0 sz fin x h" using assms(1) by (simp add: streams_def good_body_def)
  have "er_size_err (ub_exact x) = None \<and> er_remaining (ub_exact x) = 0"
    using assms(2) by (auto simp: body_validate_def exact_validate_def Let_def split: option.splits if_splits)
  then have "source_pos src h = p0 + nat sz" using d by (auto simp: data_inv_def exact_ok_def consumed_def)
  with validated_body [OF d assms(2)] show ?thesis by blast
qed

lemma commit_delivers:
  assumes "commit_upload E c U session dgst sz s h = ((again, None), session', s', h')"
    and "stream_case U (ps_start s) S p0 sz" and "source_pos (up_source U) h = p0"
  shows "delivered (ps_body s') = take (nat sz) (drop p0 S) \<and> int (length (delivered (ps_body s'))) = sz \<and>
    length S \<le> p0 + nat sz \<and>
    (\<exists>rs. sent h' = rs @ sent h \<and> rs \<noteq> [] \<and> list_all (\<lambda>sr. rq_method (snd sr) = ''PUT'') rs)"
proof -
  let ?u = "with_digest (us_url session) dgst"
  have sz: "0 < sz" using assms(2) by (simp add: stream_case_def)
  obtain r s1 where n: "new_commit_request ?u sz s = (r, s1)" by (metis surj_pair)
  obtain req where r: "r = Inr req" using assms(1) n by (cases r) (auto simp: commit_upload_def Let_def)
  note f = new_commit_request_fields [OF n [unfolded r]]
  obtain res b h1 where run: "do_location_request E (cl_write_redirects c)
      (upload_hooks U (ps_start s1) 0 sz True (ps_wire s1)) req (Some (us_registry session)) (ps_body s1) h = (res, b, h1)"
    by (metis prod_cases3)
  have st: "streams (up_source U) S p0 sz True (ps_body s1) h"
    using f sz good_new [OF assms(3)] by (simp add: streams_def)
  have b: "streams (up_source U) S p0 sz True b h1 \<and> at_rest b"
    by (rule upload_request_streams [OF run _ _ st]) (use f assms(2) in simp_all)
  obtain x where x: "b = Some x" using b by (auto simp: streams_def)
  have ps: "\<exists>rs. sent h1 = rs @ sent h \<and> rs \<noteq> [] \<and> list_all (\<lambda>sr. rq_method (snd sr) = ''PUT'') rs"
    using upload_request [OF run] f sz flags_new by auto
  obtain resp where resp: "res = Inr resp"
    using assms(1) n r run by (cases res) (auto simp: commit_upload_def unless_source_def Let_def split: prod.splits option.splits)
  obtain ss h2 where cr: "commit_response E c resp session ?u sz (s1\<lparr>ps_body := b\<rparr>) h1 = ((again, None), ss, h2)"
    using assms(1) n r run resp by (auto simp: commit_upload_def Let_def split: prod.splits)
  then have v: "body_validate x = None" and h2: "sent h2 = sent h1"
    using x by (auto simp: commit_response_def reject_commit_response_def unless_source_def drain_and_close_def body_close_def
        body_drain_def Let_def split: if_splits option.splits sum.splits prod.splits)
  have "ps_body s' = b \<and> h' = h2" using assms(1) n r run resp cr by (auto simp: commit_upload_def Let_def)
  with streams_validated [of "up_source U" S p0 sz True x h1] b x v ps h2 show ?thesis by (auto simp: delivered_def)
qed

section \<open>Requests that move no bytes\<close>

text \<open>They leave the caller's reader where it is.\<close>

interpretation bodiless: carried_body no_body first "\<lambda>req b h. source_pos src h = p" "\<lambda>b h. source_pos src h = p"
  for first src p
  by standard (auto simp: no_body_def source_pos_elsewhere simp del: source_pos.simps)

lemma location_request_pos:
  "do_location_request E allow no_body req u b h = (out, b', h') \<Longrightarrow> source_pos src h' = source_pos src h"
  by (rule location_request_carries [OF bodiless.carried_body_axioms]) (rule refl)

lemma registry_request_pos:
  assumes "do_registry_request E allow no_body req b h = (out, b', h')"
  shows "source_pos src h' = source_pos src h"
proof -
  obtain out' where "client_loop E allow no_body (with_registry_origin req (Some (rq_url req))) []
      (with_registry_origin req (Some (rq_url req))) b h = (out', b', h')"
    using assms by (auto simp: do_registry_request_def client_do_def split: prod.splits sum.splits)
  from bodiless.loop_carries [OF refl this] show ?thesis .
qed

lemma location_request_sends:
  "quiet_hooks hooks \<Longrightarrow> do_location_request E allow hooks req u b h = (out, b', h') \<Longrightarrow>
   length (sent h') \<le> length (sent h) + 10"
  using client_do_sent do_location_request_do by (fastforce simp: chain_ok_def max_redirects_def)

lemma interpret_error_pos: "interpret_error E resp h = (e, h') \<Longrightarrow> source_pos src h' = source_pos src h \<and> sent h' = sent h"
  by (auto simp: interpret_error_def now_def body_drain_def)

lemma open_session_run:
  assumes "open_session E c repo algorithm h = (r, h')"
  shows "settled E {} h h' \<and> length (sent h') \<le> length (sent h) + 10 \<and> source_pos src h' = source_pos src h"
proof (cases "new_request ''POST'' (session_url (client_scheme c) repo algorithm)")
  case (Inl e)
  with assms show ?thesis by (auto simp: open_session_def Let_def)
next
  case (Inr req)
  obtain out b h1 where run: "do_registry_request E (cl_write_redirects c) no_body req () h = (out, b, h1)"
    by (metis prod_cases3)
  have "length (sent h') = length (sent h1) \<and> source_pos src h' = source_pos src h1"
    using assms Inr run interpret_error_pos [of E _ h1 _ _ src]
    by (cases out) (auto simp: open_session_def Let_def drain_and_close_def body_close_def body_drain_def
        split: if_splits prod.splits sum.splits)
  with registry_request_sent [OF run] registry_request_pos [OF run] open_session_settled [OF assms] show ?thesis by simp
qed

lemma cancel_session_run:
  assumes "cancel_upload_session E c session h = (r, h')"
  shows "settled E {} h h' \<and> length (sent h') \<le> length (sent h) + 10"
proof -
  obtain r1 h1 where c: "ctx_err E h = (r1, h1)" by (metis surj_pair)
  show ?thesis
  proof (cases "r1 = None \<and> (\<exists>req. new_request ''DELETE'' (us_url session) = Inr req)")
    case False
    with assms c cancel_session_settled [OF assms] sent_ctx [OF c] show ?thesis
      by (auto simp: cancel_upload_session_def split: option.splits sum.splits)
  next
    case True
    then obtain req where req: "r1 = None" "new_request ''DELETE'' (us_url session) = Inr req" by blast
    obtain out b h2 where run: "do_location_request E (cl_write_redirects c) no_body req
        (Some (us_registry session)) () h1 = (out, b, h2)" by (metis prod_cases3)
    have "length (sent h') = length (sent h2)"
      using assms c req run interpret_error_pos [of E _ h2]
      by (cases out) (auto simp: cancel_upload_session_def body_close_def body_drain_def split: if_splits prod.splits)
    with location_request_sends [OF quiet_no_body run] sent_ctx [OF c] cancel_session_settled [OF assms] show ?thesis by simp
  qed
qed

section \<open>A monolithic attempt\<close>

definition attempt_ok :: "env \<Rightarrow> nat \<Rightarrow> push_state \<Rightarrow> history \<Rightarrow> push_state \<Rightarrow> history \<Rightarrow> bool" where
  "attempt_ok E price s h s' h' \<longleftrightarrow>
     at_rest (ps_body s') \<and> settled E {} h h' \<and> length (sent h') \<le> length (sent h) + price \<and>
     ps_start s' = ps_start s \<and> ps_wire s' = ps_wire s"

lemma tracker_set_run: "tracker_set n t h = (t', h') \<Longrightarrow> settled E {} h h' \<and> sent h' = sent h \<and> source_pos src h' = source_pos src h"
  by (auto simp: tracker_set_def intro!: settled_event split: option.splits if_splits)

lemma abandon_session_run:
  "settled E {} h (abandon_session E c session h) \<and> length (sent (abandon_session E c session h)) \<le> length (sent h) + 10"
  using cancel_session_run [of E c session h "fst (cancel_upload_session E c session h)"] by (simp add: abandon_session_def)

lemma push_once_run:
  assumes "push_once E c U repo dgst sz s h = (out, s', h')" and "at_rest (ps_body s)" and "0 \<le> sz"
  shows "attempt_ok E 30 s h s' h'"
proof -
  obtain r h1 where o: "open_session E c repo [] h = (r, h1)" by (metis surj_pair)
  note op = open_session_run [OF o, of "up_source U"]
  show ?thesis
  proof (cases r)
    case (Inl e)
    with assms o op show ?thesis by (cases e) (auto simp: push_once_def attempt_ok_def)
  next
    case (Inr session)
    obtain out1 session' s1 h2 where cm: "commit_upload E c U session dgst sz (s\<lparr>ps_accepted := []\<rparr>) h1 = (out1, session', s1, h2)"
      by (metis prod_cases4)
    have k: "at_rest (ps_body s1)" "settled E {} h1 h2" "length (sent h2) \<le> length (sent h1) + 10"
        "ps_start s1 = ps_start s" "ps_wire s1 = ps_wire s"
      using commit_upload_run [OF cm _ assms(3)] assms(2) by simp_all
    have k2: "settled E {} h h2" by (rule settled_then [OF _ k(2)]) (use op in blast)
    obtain again e where out1: "out1 = (again, e)" by (cases out1)
    show ?thesis
    proof (cases e)
      case (Some x)
      with assms(1) o Inr cm out1 have "s' = s1" "h' = abandon_session E c session' h2" by (auto simp: push_once_def)
      with k op abandon_session_run [of E h2 c session'] settled_then [OF k2] show ?thesis by (auto simp: attempt_ok_def)
    next
      case None
      obtain t h3 where t: "tracker_set sz (ps_tracker s1) h2 = (t, h3)" by (metis surj_pair)
      with assms(1) o Inr cm out1 None have "s' = accept_body (s1\<lparr>ps_tracker := t\<rparr>)" "h' = h3" by (auto simp: push_once_def)
      with k op settled_then [OF k2] tracker_set_run [OF t] show ?thesis by (auto simp: attempt_ok_def accept_body_def)
    qed
  qed
qed

lemma commit_accepted: "commit_upload E c U session dgst sz s h = (out, session', s', h') \<Longrightarrow> ps_accepted s' = ps_accepted s"
proof -
  assume a: "commit_upload E c U session dgst sz s h = (out, session', s', h')"
  obtain r s1 where n: "new_commit_request (with_digest (us_url session) dgst) sz s = (r, s1)" by (metis surj_pair)
  have "ps_accepted s1 = ps_accepted s"
    using n by (auto simp: new_commit_request_def Let_def split: sum.splits if_splits option.splits)
  with a n show ?thesis by (auto simp: commit_upload_def Let_def split: sum.splits prod.splits)
qed

lemma push_once_accepts:
  assumes "push_once E c U repo dgst sz s h = ((again, None), s', h')"
    and "stream_case U (ps_start s) S p0 sz" and "source_pos (up_source U) h = p0"
  shows "ps_accepted s' = take (nat sz) (drop p0 S) \<and> int (length (ps_accepted s')) = sz \<and> length S \<le> p0 + nat sz"
proof -
  obtain session h1 where o: "open_session E c repo [] h = (Inr session, h1)"
    using assms(1) by (auto simp: push_once_def split: prod.splits sum.splits option.splits)
  obtain again' session' s1 h2 where cm: "commit_upload E c U session dgst sz (s\<lparr>ps_accepted := []\<rparr>) h1 = ((again', None), session', s1, h2)"
    using assms(1) o by (auto simp: push_once_def split: prod.splits option.splits)
  obtain t h3 where t: "tracker_set sz (ps_tracker s1) h2 = (t, h3)" by (metis surj_pair)
  have b: "ps_accepted s1 = []" using cm commit_accepted by fastforce
  have acc: "ps_accepted s' = delivered (ps_body s1)"
    using assms(1) o cm t b by (auto simp: push_once_def accept_body_def delivered_def split: option.splits)
  have "stream_case U (ps_start (s\<lparr>ps_accepted := []\<rparr>)) S p0 sz" "source_pos (up_source U) h1 = p0"
    using assms(2,3) open_session_run [OF o, of "up_source U"] by simp_all
  from commit_delivers [OF cm this] show ?thesis unfolding acc by blast
qed

end
