(* ===== verification/Chunked.thy ===== *)
theory Chunked
  imports CommitRuns
begin

text \<open>
  chunked.go: one PATCH per chunk, the acknowledgement of each checked against the bytes sent
  so far, and an empty PUT that commits (\<open>chunkedOnce\<close>, \<open>patchChunk\<close>).
\<close>

section \<open>The acknowledgement\<close>

text \<open>\<open>parseRangeAck\<close>: the inclusive end, or None.\<close>

definition parse_range_ack :: "string \<Rightarrow> int option" where
  "parse_range_ack hdr =
     (case str_cut CHR ''-'' (trim_prefix hdr ''bytes='') of
        (start, end_text, found) \<Rightarrow>
          if \<not> found \<or> start \<noteq> ''0'' then None
          else (case parse_int end_text of
                  (e, Some _) \<Rightarrow> None
                | (e, None) \<Rightarrow> if e < 0 then None else Some e))"

section \<open>A chunk request\<close>

definition chunk_name :: "int \<Rightarrow> int \<Rightarrow> string" where
  "chunk_name offset ending = fmt_d offset @ ''-'' @ fmt_d ending"

definition chunk_label :: "int \<Rightarrow> int \<Rightarrow> string" where
  "chunk_label offset ending = ''uploading chunk '' @ chunk_name offset ending"

text \<open>\<open>readerReplay.position\<close>; without a replay there is nothing to capture.\<close>

definition replay_position :: "uploader \<Rightarrow> push_state \<Rightarrow> history \<Rightarrow> (goerr + int option) \<times> history" where
  "replay_position U s h =
     (if ps_start s = None then (Inr None, h)
      else
        (case body_source_error (ps_body s) of
           Some e \<Rightarrow> (Inl e, h)
         | None \<Rightarrow>
           (case source_tell (up_source U) h of
              (Inl e, h1) \<Rightarrow> (Inl e, h1)
            | (Inr p, h1) \<Rightarrow> (Inr (Some p), h1))))"

text \<open>
  \<open>newPatchRequest\<close>: the request, where its body starts in the reader (None without a replay),
  and the state with its body registered.
\<close>

definition new_patch_request ::
    "uploader \<Rightarrow> upload_session \<Rightarrow> int \<Rightarrow> int \<Rightarrow> bool \<Rightarrow> push_state \<Rightarrow> history
      \<Rightarrow> ((goerr + request \<times> int option) \<times> push_state) \<times> history" where
  "new_patch_request U session offset n final s h =
     (let ending = offset + n - 1 in
      case replay_position U s h of
        (Inl e, h1) \<Rightarrow>
          ((Inl (wrapf (''capturing chunk '' @ chunk_name offset ending @ '' for redirect replay'') e), s), h1)
      | (Inr start, h1) \<Rightarrow>
        (case new_request ''PATCH'' (us_url session) of
           Inl e \<Rightarrow> ((Inl (wrapf ''building chunk request'' e), s), h1)
         | Inr req \<Rightarrow>
           (case (if ps_start s = None then None else body_source_error (ps_body s)) of
              Some e \<Rightarrow>
                ((Inl (wrapf (''registering chunk '' @ chunk_name offset ending @ '' request body'') e), s), h1)
            | None \<Rightarrow>
                ((Inr (req\<lparr>rq_length := n,
                         rq_header := header_set ''Content-Range'' (chunk_name offset ending)
                           (header_set ''Content-Type'' ''application/octet-stream'' (rq_header req))\<rparr>, start),
                  s\<lparr>ps_body := Some (new_body offset n final (ps_wire s))\<rparr>), h1))))"

section \<open>One chunk\<close>

definition patch_failed :: "int \<Rightarrow> int \<Rightarrow> goerr \<Rightarrow> goerr" where
  "patch_failed offset ending e = wrapf (chunk_label offset ending) e"

text \<open>The last message quotes the header with \<open>%q\<close>, the parameter \<open>quote\<close>.\<close>

definition dropped_chunk :: "(string \<Rightarrow> string) \<Rightarrow> string \<Rightarrow> int \<Rightarrow> int \<Rightarrow> goerr" where
  "dropped_chunk quote hdr offset ending =
     Text (''registry acknowledged Range '' @ quote hdr @ '' after chunk '' @ chunk_name offset ending
       @ '': the session did not advance by the bytes just sent, so the registry is dropping chunks ''
       @ ''(a known failure of hosted registries' chunked upload); abandoning the upload'')"

text \<open>What \<open>patchChunk\<close> makes of the response.\<close>

definition patch_accepted ::
    "(string \<Rightarrow> string) \<Rightarrow> response \<Rightarrow> upload_session \<Rightarrow> int \<Rightarrow> int \<Rightarrow> upload_body option
      \<Rightarrow> goerr option \<times> upload_session" where
  "patch_accepted quote resp session offset ending b =
     (let range = header_get (rs_header resp) ''Range''; location = header_get (rs_header resp) ''Location'' in
      case (case b of None \<Rightarrow> None | Some x \<Rightarrow> body_validate x) of
        Some e \<Rightarrow> (Some (patch_failed offset ending e), session)
      | None \<Rightarrow>
          if parse_range_ack range \<noteq> Some ending then (Some (dropped_chunk quote range offset ending), session)
          else if location = [] then (None, session)
          else
            (case resolve_location (response_request_url resp (Some (us_url session))) location of
               Inl e \<Rightarrow> (Some (wrapf (''after chunk '' @ chunk_name offset ending) e), session)
             | Inr u \<Rightarrow> (None, session\<lparr>us_url := u\<rparr>)))"

definition reject_patch_response ::
    "env \<Rightarrow> response \<Rightarrow> int \<Rightarrow> int \<Rightarrow> upload_body option \<Rightarrow> history \<Rightarrow> (bool \<times> goerr option) \<times> history" where
  "reject_patch_response E resp offset ending b h =
     (case interpret_error E resp h of
        (e, h1) \<Rightarrow>
          (unless_source b (patch_failed offset ending) (retryable_registry_status e, Some (patch_failed offset ending e)),
           body_close (rs_body resp) h1))"

definition patch_response ::
    "env \<Rightarrow> (string \<Rightarrow> string) \<Rightarrow> client \<Rightarrow> response \<Rightarrow> upload_session \<Rightarrow> int \<Rightarrow> int \<Rightarrow> push_state \<Rightarrow> history
      \<Rightarrow> ((bool \<times> goerr option) \<times> upload_session) \<times> history" where
  "patch_response E quote c resp session offset ending s h =
     (let status = rs_status resp; b = ps_body s; gone = drain_and_close (rs_body resp) h in
      if \<not> cl_write_redirects c \<and> replay_redirect status then
        ((unless_source b (patch_failed offset ending)
            (False, Some (patch_failed offset ending (Internal ErrWriteRedirectRejected))), session), gone)
      else if ps_start s = None \<and> replay_redirect status then
        ((unless_source b (patch_failed offset ending)
            (case resolve_location (response_request_url resp (Some (us_url session)))
                    (header_get (rs_header resp) ''Location'') of
               Inl le \<Rightarrow> (False, Some (Wrapf (chunk_label offset ending @ '': '' @ internal_text ErrInvalidRedirectTarget
                           @ '': '' @ err_text le) [Internal ErrInvalidRedirectTarget, le]))
             | Inr u \<Rightarrow> (False, Some (unreplayable (chunk_label offset ending) status))), session), gone)
      else if status \<noteq> 202 then
        (case reject_patch_response E resp offset ending b h of (out, h1) \<Rightarrow> ((out, session), h1))
      else
        (case patch_accepted quote resp session offset ending b of (e, session') \<Rightarrow> (((False, e), session'), gone)))"

text \<open>\<open>patchChunk\<close>.\<close>

definition patch_chunk ::
    "env \<Rightarrow> (string \<Rightarrow> string) \<Rightarrow> client \<Rightarrow> uploader \<Rightarrow> upload_session \<Rightarrow> int \<Rightarrow> int \<Rightarrow> bool \<Rightarrow> push_state \<Rightarrow> history
      \<Rightarrow> (bool \<times> goerr option) \<times> upload_session \<times> push_state \<times> history" where
  "patch_chunk E quote c U session offset n final s h =
     (let ending = offset + n - 1 in
      case new_patch_request U session offset n final s h of
        ((Inl e, s1), h1) \<Rightarrow> ((False, Some e), session, s1, h1)
      | ((Inr (req, start), s1), h1) \<Rightarrow>
        (case do_location_request E (cl_write_redirects c)
                (upload_hooks U start offset n final (ps_wire s1)) req (Some (us_registry session)) (ps_body s1) h1 of
           (Inl e, b, h2) \<Rightarrow>
             (case close_and_wait (up_source U) b h2 of
                (b', h3) \<Rightarrow>
                  (unless_source b' (patch_failed offset ending)
                     (retryable_request_error e, Some (patch_failed offset ending e)), session,
                   s1\<lparr>ps_body := b'\<rparr>, h3))
         | (Inr resp, b, h2) \<Rightarrow>
             (case patch_response E quote c resp session offset ending (s1\<lparr>ps_body := b\<rparr>) h2 of
                ((out, session'), h3) \<Rightarrow> (out, session', s1\<lparr>ps_body := b\<rparr>, h3))))"

section \<open>One chunked attempt\<close>

text \<open>
  The loop over the chunks. Each round moves \<open>offset\<close> by at least one byte where the chunk size is
  positive; the loop runs with fuel.
\<close>

fun patch_loop ::
    "env \<Rightarrow> (string \<Rightarrow> string) \<Rightarrow> client \<Rightarrow> uploader \<Rightarrow> int \<Rightarrow> int \<Rightarrow> nat
      \<Rightarrow> upload_session \<Rightarrow> int \<Rightarrow> push_state \<Rightarrow> history
      \<Rightarrow> ((bool \<times> goerr option) \<times> upload_session \<times> push_state \<times> history) option" where
  "patch_loop E quote c U sz chunk fuel session offset s h =
     (if \<not> offset < sz then Some ((False, None), session, s, h)
      else
        (case fuel of
           0 \<Rightarrow> None
         | Suc left \<Rightarrow>
             (let n = min chunk (sz - offset) in
              case patch_chunk E quote c U session offset n (offset + n = sz) s h of
                ((again, Some e), session', s1, h1) \<Rightarrow> Some ((again, Some e), session', s1, h1)
              | ((again, None), session', s1, h1) \<Rightarrow>
                  (case tracker_set (offset + n) (ps_tracker s1) h1 of
                     (t, h2) \<Rightarrow>
                       patch_loop E quote c U sz chunk left session' (offset + n) (accept_body (s1\<lparr>ps_tracker := t\<rparr>)) h2))))"

declare patch_loop.simps [simp del]

text \<open>\<open>chunkedOnce\<close>: the commit has no body and no replay, so the last chunk's body stays as it is.\<close>

definition commit_chunks ::
    "env \<Rightarrow> client \<Rightarrow> uploader \<Rightarrow> upload_session \<Rightarrow> string \<Rightarrow> push_state \<Rightarrow> history
      \<Rightarrow> (bool \<times> goerr option) \<times> upload_session \<times> history" where
  "commit_chunks E c U session dgst s h =
     (case commit_upload E c U session dgst 0 (s\<lparr>ps_start := None, ps_body := None\<rparr>) h of
        (out, session', _, h1) \<Rightarrow> (out, session', h1))"

definition chunk_fuel :: "int \<Rightarrow> nat" where
  "chunk_fuel sz = nat sz"

definition chunked_once ::
    "env \<Rightarrow> (string \<Rightarrow> string) \<Rightarrow> (string \<Rightarrow> string) \<Rightarrow> client \<Rightarrow> uploader \<Rightarrow> repository \<Rightarrow> string \<Rightarrow> int
      \<Rightarrow> push_state \<Rightarrow> history \<Rightarrow> ((bool \<times> goerr option) \<times> push_state \<times> history) option" where
  "chunked_once E quote algorithm_of c U repo dgst sz s h =
     (case open_session E c repo (algorithm_of dgst) h of
        (Inl (again, e), h1) \<Rightarrow> Some ((again, Some e), s, h1)
      | (Inr session, h1) \<Rightarrow>
          map_option (\<lambda>(out, session', s1, h2).
              (case out of
                 (again, Some e) \<Rightarrow> ((again, Some e), s1, abandon_session E c session' h2)
               | (_, None) \<Rightarrow>
                   (case commit_chunks E c U session' dgst s1 h2 of
                      ((again, Some e), session2, h3) \<Rightarrow> ((again, Some e), s1, abandon_session E c session2 h3)
                    | ((again, None), session2, h3) \<Rightarrow> ((False, None), s1, h3))))
            (patch_loop E quote c U sz (max (cl_chunk_size c) (us_min_chunk session)) (chunk_fuel sz) session 0
              (s\<lparr>ps_accepted := []\<rparr>) h1))"

end
