(* ===== verification/ChunkedRuns.thy ===== *)
theory ChunkedRuns
  imports Chunked
begin

text \<open>
  What a chunked upload does: the loop ends, every chunk is sent from its place in the stream and
  counts only with an acknowledgement of exactly its last byte, every body is let go.
\<close>

section \<open>One chunk\<close>

text \<open>The reader's own idea of its position, where it has one.\<close>

definition tells_position :: "source \<Rightarrow> bool" where
  "tells_position src \<longleftrightarrow> (\<forall>h p. so_tell src h = Inr p \<longrightarrow> nat p = source_pos src h)"

lemma replay_position_run:
  assumes "replay_position U s h = (Inr start, h')"
  shows "settled E {} h h' \<and> sent h' = sent h \<and> source_pos src h' = source_pos src h \<and>
    (start = None \<longleftrightarrow> ps_start s = None) \<and>
    (tells_position (up_source U) \<longrightarrow> (\<forall>k. start = Some k \<longrightarrow> nat k = source_pos (up_source U) h))"
  using assms
  by (auto simp: replay_position_def source_tell_def tells_position_def intro!: settled_event split: if_splits option.splits sum.splits)

lemma new_patch_request_run:
  assumes "new_patch_request U session offset n final s h = ((r, s1), h')"
  shows "settled E {} h h' \<and> sent h' = sent h \<and>
    ps_start s1 = ps_start s \<and> ps_wire s1 = ps_wire s \<and> ps_accepted s1 = ps_accepted s \<and> ps_tracker s1 = ps_tracker s \<and>
    (case r of
       Inl e \<Rightarrow> ps_body s1 = ps_body s
     | Inr (req, start) \<Rightarrow>
         rq_length req = n \<and> rq_method req = ''PATCH'' \<and> source_pos (up_source U) h' = source_pos (up_source U) h \<and>
         ps_body s1 = Some (new_body offset n final (ps_wire s)) \<and>
         (tells_position (up_source U) \<longrightarrow> (\<forall>k. start = Some k \<longrightarrow> nat k = source_pos (up_source U) h)))"
proof -
  obtain pos h1 where p: "replay_position U s h = (pos, h1)" by (metis surj_pair)
  show ?thesis
  proof (cases pos)
    case (Inl e)
    with p have "h1 = h \<or> h1 = EvSourceTell # h"
      by (auto simp: replay_position_def source_tell_def split: if_splits option.splits sum.splits)
    with assms p Inl show ?thesis by (auto simp: new_patch_request_def Let_def intro: settled_event)
  next
    case (Inr start)
    note q = replay_position_run [OF p [unfolded Inr], of E "up_source U"]
    show ?thesis
      using assms p Inr q by (auto simp: new_patch_request_def Let_def dest!: new_request_fields split: sum.splits if_splits option.splits)
  qed
qed

lemma reject_patch_settled:
  assumes "reject_patch_response E resp offset ending b h1 = (out, h2)" and "settled E {rs_body resp} h h1"
  shows "settled E {} h h2 \<and> sent h2 = sent h1 \<and> source_pos src h2 = source_pos src h1"
proof -
  obtain e g where i: "interpret_error E resp h1 = (e, g)" by (metis surj_pair)
  with assms(1) have "h2 = body_close (rs_body resp) g" by (simp add: reject_patch_response_def)
  with settled_rejected [OF assms(2) i] interpret_error_pos [OF i, of src] show ?thesis by (simp add: body_close_def)
qed

lemma drained_response:
  "settled E {b} h h1 \<Longrightarrow> settled E {} h (drain_and_close b h1)"
  "sent (drain_and_close b h1) = sent h1"
  "source_pos src (drain_and_close b h1) = source_pos src h1"
  by (rule settled_consumed(3)) (simp_all add: drain_and_close_def body_close_def body_drain_def)

lemma patch_response_run:
  assumes "patch_response E quote c resp session offset ending s h1 = ((out, session'), h2)"
    and "settled E {rs_body resp} h h1"
  shows "settled E {} h h2 \<and> sent h2 = sent h1 \<and> source_pos src h2 = source_pos src h1"
proof (cases "rs_status resp \<noteq> 202 \<and> \<not> replay_redirect (rs_status resp)")
  case True
  obtain o1 g where r: "reject_patch_response E resp offset ending (ps_body s) h1 = (o1, g)" by (metis surj_pair)
  with assms(1) True have "h2 = g" by (auto simp: patch_response_def Let_def)
  with reject_patch_settled [OF r assms(2)] show ?thesis by simp
next
  case False
  then show ?thesis
    using assms(1) drained_response(1) [OF assms(2)] drained_response(2,3) reject_patch_settled [OF _ assms(2)]
    by (auto simp: patch_response_def Let_def split: if_splits prod.splits)
qed

lemma patch_chunk_run:
  assumes "patch_chunk E quote c U session offset n final s h = (out, session', s', h')" and "at_rest (ps_body s)" and "0 < n"
  shows "attempt_ok E 10 s h s' h' \<and> ps_accepted s' = ps_accepted s \<and> ps_tracker s' = ps_tracker s"
proof -
  let ?e = "offset + n - 1"
  obtain r s1 h1 where n: "new_patch_request U session offset n final s h = ((r, s1), h1)" by (metis prod_cases3 surj_pair)
  note f = new_patch_request_run [OF n, of E]
  show ?thesis
  proof (cases r)
    case (Inl e)
    with assms(1,2) n f show ?thesis by (auto simp: patch_chunk_def Let_def attempt_ok_def)
  next
    case (Inr rp)
    obtain req start where rp: "rp = (req, start)" by (cases rp)
    obtain res b h2 where run: "do_location_request E (cl_write_redirects c)
        (upload_hooks U start offset n final (ps_wire s1)) req (Some (us_registry session)) (ps_body s1) h1 = (res, b, h2)"
      by (metis prod_cases3)
    have q: "at_rest b" "settled E (kept res) h1 h2" "length (sent h2) \<le> length (sent h1) + 10"
      using upload_request [OF run] f Inr rp assms(3) flags_new by auto
    have s2: "settled E (kept res) h h2" by (rule settled_then [OF _ q(2)]) (use f in blast)
    show ?thesis
    proof (cases res)
      case (Inl e)
      obtain b' h3 where w: "close_and_wait (up_source U) b h2 = (b', h3)" by (metis surj_pair)
      have z: "at_rest b' \<and> ran h2 h3" using close_and_wait_rest [OF w] q(1) at_rest_flags by blast
      with settled_then [of E h h2 "{}" h3] s2 Inl ran_settled have "settled E {} h h3" by simp
      with assms(1) n \<open>r = Inr rp\<close> rp run Inl w q f z ran_sent show ?thesis
        by (auto simp: patch_chunk_def Let_def attempt_ok_def)
    next
      case (Inr resp)
      obtain o1 ss h3 where pr: "patch_response E quote c resp session offset ?e (s1\<lparr>ps_body := b\<rparr>) h2 = ((o1, ss), h3)"
        by (metis prod_cases3 surj_pair)
      have "settled E {} h h3 \<and> sent h3 = sent h2" using patch_response_run [OF pr] s2 Inr by simp
      with assms(1) n \<open>r = Inr rp\<close> rp run Inr pr q f show ?thesis by (auto simp: patch_chunk_def Let_def attempt_ok_def)
    qed
  qed
qed

lemma patch_response_done:
  assumes "patch_response E quote c resp session offset ending s h = (((again, None), session'), h')"
  shows "rs_status resp = 202 \<and> parse_range_ack (header_get (rs_header resp) ''Range'') = Some ending \<and>
    (\<forall>x. ps_body s = Some x \<longrightarrow> body_validate x = None) \<and> h' = drain_and_close (rs_body resp) h"
  using assms
  by (auto simp: patch_response_def reject_patch_response_def patch_accepted_def unless_source_def Let_def
      split: if_splits option.splits sum.splits prod.splits)

text \<open>A chunk that counts: its bytes are the next ones of the stream, and it was acknowledged.\<close>

lemma patch_chunk_delivers:
  assumes "patch_chunk E quote c U session offset n final s h = ((again, None), session', s', h')"
    and "holds_stream (up_source U) S" and "tells_position (up_source U)" and "0 < n"
  shows "delivered (ps_body s') = take (nat n) (drop (source_pos (up_source U) h) S) \<and>
    int (length (delivered (ps_body s'))) = n \<and> (final \<longrightarrow> length S \<le> source_pos (up_source U) h + nat n) \<and>
    source_pos (up_source U) h' = source_pos (up_source U) h + nat n \<and>
    (\<exists>req hooks b h1 resp h2.
       do_location_request E (cl_write_redirects c) hooks req (Some (us_registry session)) b h1 = (Inr resp, ps_body s', h2) \<and>
       rq_method req = ''PATCH'' \<and> rs_status resp = 202 \<and>
       parse_range_ack (header_get (rs_header resp) ''Range'') = Some (offset + n - 1))"
proof -
  let ?src = "up_source U" and ?e = "offset + n - 1"
  let ?p0 = "source_pos ?src h"
  obtain r s1 h1 where n: "new_patch_request U session offset n final s h = ((r, s1), h1)" by (metis prod_cases3 surj_pair)
  obtain req start where r: "r = Inr (req, start)" using assms(1) n by (cases r) (auto simp: patch_chunk_def Let_def)
  note f = new_patch_request_run [OF n, of E, unfolded r]
  obtain res b h2 where run: "do_location_request E (cl_write_redirects c)
      (upload_hooks U start offset n final (ps_wire s1)) req (Some (us_registry session)) (ps_body s1) h1 = (res, b, h2)"
    by (metis prod_cases3)
  have pos1: "source_pos ?src h1 = ?p0" using f by simp
  have "streams ?src S ?p0 n final (ps_body s1) h1"
    using f good_new [OF pos1] assms(4) by (simp add: streams_def)
  moreover have "stream_case U start S ?p0 n" using f assms(2-4) by (simp add: stream_case_def)
  ultimately have b: "streams ?src S ?p0 n final b h2 \<and> at_rest b"
    using upload_request_streams [OF run] f by simp
  obtain x where x: "b = Some x" using b by (auto simp: streams_def)
  obtain resp where resp: "res = Inr resp"
    using assms(1) n r run by (cases res) (auto simp: patch_chunk_def unless_source_def Let_def split: prod.splits option.splits)
  obtain ss h3 where pr: "patch_response E quote c resp session offset ?e (s1\<lparr>ps_body := b\<rparr>) h2 = (((again, None), ss), h3)"
    using assms(1) n r run resp by (auto simp: patch_chunk_def Let_def split: prod.splits)
  have s': "ps_body s' = b \<and> h' = h3" using assms(1) n r run resp pr by (auto simp: patch_chunk_def Let_def)
  note d = patch_response_done [OF pr]
  have pos: "source_pos ?src h' = source_pos ?src h2" using d s' drained_response(3) by simp
  have v: "ub_out x = take (nat n) (drop ?p0 S) \<and> int (length (ub_out x)) = n \<and> (final \<longrightarrow> length S \<le> ?p0 + nat n) \<and>
      source_pos ?src h2 = ?p0 + nat n"
    by (rule streams_validated) (use b x d in auto)
  have "\<exists>req hooks b h1 resp h2.
       do_location_request E (cl_write_redirects c) hooks req (Some (us_registry session)) b h1 = (Inr resp, ps_body s', h2) \<and>
       rq_method req = ''PATCH'' \<and> rs_status resp = 202 \<and>
       parse_range_ack (header_get (rs_header resp) ''Range'') = Some ?e"
    using run resp s' d f by (auto intro!: exI)
  moreover have "delivered (ps_body s') = ub_out x" using s' x by (simp add: delivered_def)
  ultimately show ?thesis using v pos by metis
qed

text \<open>
  C6. A chunk counts only when the registry has it: where \<open>patchChunk\<close> reports success, the body
  of the request carried exactly the next \<open>n\<close> bytes of the caller's stream, a final chunk ended
  with the stream, the reader stands behind the chunk, and the PATCH was answered by a 202 whose
  \<open>Range\<close> acknowledges the upload up to exactly the chunk's last byte.
\<close>

theorem chunk_acknowledged:
  assumes "patch_chunk E quote c U session offset n final s h = ((again, None), session', s', h')"
    and "holds_stream (up_source U) S" and "tells_position (up_source U)" and "0 < n"
  shows "delivered (ps_body s') = take (nat n) (drop (source_pos (up_source U) h) S) \<and>
    int (length (delivered (ps_body s'))) = n \<and> (final \<longrightarrow> length S \<le> source_pos (up_source U) h + nat n) \<and>
    source_pos (up_source U) h' = source_pos (up_source U) h + nat n \<and>
    (\<exists>req hooks b h1 resp h2.
       do_location_request E (cl_write_redirects c) hooks req (Some (us_registry session)) b h1 = (Inr resp, ps_body s', h2) \<and>
       rq_method req = ''PATCH'' \<and> rs_status resp = 202 \<and>
       parse_range_ack (header_get (rs_header resp) ''Range'') = Some (offset + n - 1))"
  using patch_chunk_delivers [OF assms] .

section \<open>The loop over the chunks\<close>

definition chunk_count :: "int \<Rightarrow> int \<Rightarrow> nat" where
  "chunk_count chunk left = nat ((left + chunk - 1) div chunk)"

lemma chunk_count_step:
  assumes "0 < chunk" and "0 < left"
  shows "chunk_count chunk left = Suc (chunk_count chunk (left - min chunk left))"
proof (cases "left \<le> chunk")
  case True
  have "(left + chunk - 1) div chunk = 1" using True assms by (intro int_div_pos_eq [of _ _ _ "left - 1"]) auto
  then show ?thesis using True assms by (simp add: chunk_count_def)
next
  case False
  have "(left + chunk - 1) div chunk = (left - chunk + chunk - 1) div chunk + 1"
    using assms(1) div_add_self2 [of chunk "left - 1"] by (simp add: algebra_simps)
  moreover have "0 \<le> (left - chunk + chunk - 1) div chunk" using False assms by (simp add: pos_imp_zdiv_nonneg_iff)
  ultimately show ?thesis using False assms by (simp add: chunk_count_def nat_add_distrib)
qed

lemma patch_loop_end: "\<not> offset < sz \<Longrightarrow> patch_loop E quote c U sz chunk fuel session offset s h = Some ((False, None), session, s, h)"
  by (subst patch_loop.simps) simp

lemma patch_loop_step:
  assumes "offset < sz" and "patch_chunk E quote c U session offset (min chunk (sz - offset)) (offset + min chunk (sz - offset) = sz) s h
      = ((again, e), session', s1, h1)"
  shows "patch_loop E quote c U sz chunk (Suc fuel) session offset s h =
    (case e of
       Some x \<Rightarrow> Some ((again, Some x), session', s1, h1)
     | None \<Rightarrow> (case tracker_set (offset + min chunk (sz - offset)) (ps_tracker s1) h1 of
         (t, h2) \<Rightarrow> patch_loop E quote c U sz chunk fuel session' (offset + min chunk (sz - offset))
           (accept_body (s1\<lparr>ps_tracker := t\<rparr>)) h2))"
  using assms by (subst patch_loop.simps) (simp add: Let_def split: option.split)

lemma patch_loop_total:
  "0 < chunk \<Longrightarrow> nat (sz - offset) \<le> fuel \<Longrightarrow> patch_loop E quote c U sz chunk fuel session offset s h \<noteq> None"
proof (induction fuel arbitrary: session offset s h)
  case 0
  then show ?case by (simp add: patch_loop_end)
next
  case (Suc fuel)
  show ?case
  proof (cases "offset < sz")
    case True
    obtain again e session' s1 h1 where p: "patch_chunk E quote c U session offset (min chunk (sz - offset))
        (offset + min chunk (sz - offset) = sz) s h = ((again, e), session', s1, h1)" by (metis surj_pair)
    obtain t h2 where t: "tracker_set (offset + min chunk (sz - offset)) (ps_tracker s1) h1 = (t, h2)" by (metis surj_pair)
    have "nat (sz - (offset + min chunk (sz - offset))) \<le> fuel" using Suc.prems True by linarith
    from Suc.IH [OF Suc.prems(1) this] show ?thesis
      by (simp add: patch_loop_step [OF True p] t split: option.split)
  qed (simp add: patch_loop_end)
qed

lemma attempt_ok_trans:
  assumes "attempt_ok E k s h s1 h1" and "attempt_ok E l s1 h1 s2 h2" shows "attempt_ok E (k + l) s h s2 h2"
  using assms settled_then [of E h h1 "{}" h2] by (auto simp: attempt_ok_def)

lemma accepted_chunk_ok:
  assumes "attempt_ok E k s h s1 h1" and "tracker_set m (ps_tracker s1) h1 = (t, h2)"
  shows "attempt_ok E k s h (accept_body (s1\<lparr>ps_tracker := t\<rparr>)) h2"
  using assms tracker_set_run [OF assms(2), of E] settled_then [of E h h1 "{}" h2] by (auto simp: attempt_ok_def accept_body_def)

lemma patch_loop_run:
  assumes "0 < chunk"
  shows "patch_loop E quote c U sz chunk fuel session offset s h = Some (out, session', s', h') \<Longrightarrow> at_rest (ps_body s) \<Longrightarrow>
    attempt_ok E (10 * chunk_count chunk (sz - offset)) s h s' h'"
proof (induction fuel arbitrary: session offset s h)
  case 0
  then have "\<not> offset < sz" by (subst (asm) patch_loop.simps) (auto split: if_splits)
  with 0 show ?case by (auto simp: patch_loop_end attempt_ok_def)
next
  case (Suc fuel)
  show ?case
  proof (cases "offset < sz")
    case True
    let ?n = "min chunk (sz - offset)"
    obtain again e session1 s1 h1 where p: "patch_chunk E quote c U session offset ?n (offset + ?n = sz) s h
        = ((again, e), session1, s1, h1)" by (metis surj_pair)
    obtain t h2 where t: "tracker_set (offset + ?n) (ps_tracker s1) h1 = (t, h2)" by (metis surj_pair)
    have one: "attempt_ok E 10 s h s1 h1" using patch_chunk_run [OF p Suc.prems(2)] True assms by simp
    have count: "10 * chunk_count chunk (sz - offset) = 10 + 10 * chunk_count chunk (sz - (offset + ?n))"
      using chunk_count_step [OF assms, of "sz - offset"] True by (simp add: algebra_simps)
    show ?thesis
    proof (cases e)
      case (Some x)
      with Suc.prems(1) patch_loop_step [OF True p, of fuel] have "s' = s1 \<and> h' = h1" by auto
      with one show ?thesis unfolding count by (auto simp: attempt_ok_def)
    next
      case None
      let ?s = "accept_body (s1\<lparr>ps_tracker := t\<rparr>)"
      have acc: "attempt_ok E 10 s h ?s h2" by (rule accepted_chunk_ok [OF one t])
      have "patch_loop E quote c U sz chunk fuel session1 (offset + ?n) ?s h2 = Some (out, session', s', h')"
        using Suc.prems(1) patch_loop_step [OF True p, of fuel] None t by simp
      moreover have "at_rest (ps_body ?s)" using acc by (simp add: attempt_ok_def)
      ultimately show ?thesis unfolding count by (rule attempt_ok_trans [OF acc Suc.IH])
    qed
  next
    case False
    with Suc.prems show ?thesis by (auto simp: patch_loop_end attempt_ok_def)
  qed
qed

text \<open>The loop's invariant over a stream: what was accepted is the stream up to \<open>offset\<close>.\<close>

definition chunk_inv :: "source \<Rightarrow> byte list \<Rightarrow> nat \<Rightarrow> int \<Rightarrow> int \<Rightarrow> push_state \<Rightarrow> history \<Rightarrow> bool" where
  "chunk_inv src S p0 sz offset s h \<longleftrightarrow>
     0 \<le> offset \<and> offset \<le> sz \<and> source_pos src h = p0 + nat offset \<and>
     ps_accepted s = take (nat offset) (drop p0 S) \<and> int (length (ps_accepted s)) = offset \<and>
     (offset = sz \<longrightarrow> 0 < sz \<longrightarrow> length S \<le> p0 + nat sz)"

lemma chunk_inv_step:
  assumes "patch_chunk E quote c U session offset n (offset + n = sz) s h = ((again, None), session', s1, h1)"
    and "tracker_set m (ps_tracker s1) h1 = (t, h2)" and "chunk_inv (up_source U) S p0 sz offset s h"
    and "holds_stream (up_source U) S" and "tells_position (up_source U)" and "0 < n" and "offset + n \<le> sz"
    and "ps_accepted s1 = ps_accepted s"
  shows "chunk_inv (up_source U) S p0 sz (offset + n) (accept_body (s1\<lparr>ps_tracker := t\<rparr>)) h2"
proof -
  let ?src = "up_source U" and ?d = "delivered (ps_body s1)"
  have d: "?d = take (nat n) (drop (source_pos ?src h) S)" and len: "int (length ?d) = n"
    and final: "offset + n = sz \<longrightarrow> length S \<le> source_pos ?src h + nat n"
    and pos: "source_pos ?src h1 = source_pos ?src h + nat n"
    using patch_chunk_delivers [OF assms(1,4,5,6)] by blast+
  have i: "0 \<le> offset" "source_pos ?src h = p0 + nat offset" "ps_accepted s = take (nat offset) (drop p0 S)"
      "int (length (ps_accepted s)) = offset" using assms(3) unfolding chunk_inv_def by blast+
  have nat: "nat (offset + n) = nat offset + nat n" using i(1) assms(6) by (simp add: nat_add_distrib)
  have acc: "ps_accepted (accept_body (s1\<lparr>ps_tracker := t\<rparr>)) = ps_accepted s @ ?d"
    using assms(8) by (simp add: accept_body_def delivered_def split: option.split)
  have "ps_accepted s @ ?d = take (nat (offset + n)) (drop p0 S)" using i d nat by (simp add: take_add add.commute [of p0])
  moreover have "source_pos ?src h2 = p0 + nat (offset + n)" using tracker_set_run [OF assms(2)] pos i nat by simp
  moreover have "int (length (ps_accepted s @ ?d)) = offset + n" using i(4) len by simp
  moreover have "offset + n = sz \<longrightarrow> length S \<le> p0 + nat sz" using final i(2) nat by auto
  moreover have "0 \<le> offset + n" using i(1) assms(6) by simp
  ultimately show ?thesis using assms(7) unfolding chunk_inv_def acc by blast
qed

lemma patch_loop_accepts:
  assumes "0 < chunk" and "holds_stream (up_source U) S" and "tells_position (up_source U)"
  shows "patch_loop E quote c U sz chunk fuel session offset s h = Some ((again, None), session', s', h') \<Longrightarrow>
    at_rest (ps_body s) \<Longrightarrow> chunk_inv (up_source U) S p0 sz offset s h \<Longrightarrow> chunk_inv (up_source U) S p0 sz sz s' h'"
proof (induction fuel arbitrary: session offset s h)
  case 0
  then have "\<not> offset < sz" by (subst (asm) patch_loop.simps) (auto split: if_splits)
  with 0 show ?case by (auto simp: patch_loop_end chunk_inv_def)
next
  case (Suc fuel)
  show ?case
  proof (cases "offset < sz")
    case True
    let ?n = "min chunk (sz - offset)"
    obtain again1 e session1 s1 h1 where p: "patch_chunk E quote c U session offset ?n (offset + ?n = sz) s h
        = ((again1, e), session1, s1, h1)" by (metis surj_pair)
    obtain t h2 where t: "tracker_set (offset + ?n) (ps_tracker s1) h1 = (t, h2)" by (metis surj_pair)
    have n: "0 < ?n" "offset + ?n \<le> sz" using True assms(1) by simp_all
    note one = patch_chunk_run [OF p Suc.prems(2) n(1)]
    have e: "e = None" using Suc.prems(1) patch_loop_step [OF True p, of fuel] by (cases e) auto
    let ?s = "accept_body (s1\<lparr>ps_tracker := t\<rparr>)"
    have "patch_loop E quote c U sz chunk fuel session1 (offset + ?n) ?s h2 = Some ((again, None), session', s', h')"
      using Suc.prems(1) patch_loop_step [OF True p, of fuel] e t by simp
    moreover have "at_rest (ps_body ?s)" using one by (simp add: attempt_ok_def accept_body_def)
    moreover have "chunk_inv (up_source U) S p0 sz (offset + ?n) ?s h2"
      by (rule chunk_inv_step [OF p [unfolded e] t Suc.prems(3) assms(2,3) n]) (use one in simp)
    ultimately show ?thesis by (rule Suc.IH)
  next
    case False
    with Suc.prems show ?thesis by (auto simp: patch_loop_end chunk_inv_def)
  qed
qed

section \<open>A chunked attempt\<close>

lemma chunk_count_antimono:
  assumes "0 < k" and "k \<le> k'" and "0 \<le> left" shows "chunk_count k' left \<le> chunk_count k left"
proof (cases "left = 0")
  case True
  with assms show ?thesis by (simp add: chunk_count_def div_pos_pos_trivial)
next
  case False
  have up: "(left + j - 1) div j = (left - 1) div j + 1" if "0 < j" for j
    using that div_add_self2 [of j "left - 1"] by (simp add: algebra_simps)
  have "(left - 1) div k' \<le> (left - 1) div k" using assms False by (intro zdiv_mono2) auto
  with up [of k] up [of k'] assms show ?thesis by (simp add: chunk_count_def)
qed

lemma commit_chunks_run:
  assumes "commit_chunks E c U session dgst s h = (out, session', h')"
  shows "settled E {} h h' \<and> length (sent h') \<le> length (sent h) + 10"
proof -
  obtain o1 s1 t h1 where cm: "commit_upload E c U session dgst 0 (s\<lparr>ps_start := None, ps_body := None\<rparr>) h = (o1, s1, t, h1)"
    by (metis prod_cases4)
  have "at_rest None" by (simp add: at_rest_def)
  with commit_upload_run [OF cm] assms cm show ?thesis by (simp add: commit_chunks_def)
qed

lemma chunked_once_cases:
  assumes "chunked_once E quote algorithm_of c U repo dgst sz s h = Some (out, s', h')"
  obtains again e where "out = (again, Some e)" "s' = s" "open_session E c repo (algorithm_of dgst) h = (Inl (again, e), h')"
  | session h1 session' h2 again e where "open_session E c repo (algorithm_of dgst) h = (Inr session, h1)"
      "patch_loop E quote c U sz (max (cl_chunk_size c) (us_min_chunk session)) (chunk_fuel sz) session 0 (s\<lparr>ps_accepted := []\<rparr>) h1
        = Some ((again, Some e), session', s', h2)" "out = (again, Some e)" "h' = abandon_session E c session' h2"
  | session h1 session' h2 again again' e session2 h3 where "open_session E c repo (algorithm_of dgst) h = (Inr session, h1)"
      "patch_loop E quote c U sz (max (cl_chunk_size c) (us_min_chunk session)) (chunk_fuel sz) session 0 (s\<lparr>ps_accepted := []\<rparr>) h1
        = Some ((again, None), session', s', h2)" "commit_chunks E c U session' dgst s' h2 = ((again', Some e), session2, h3)"
      "out = (again', Some e)" "h' = abandon_session E c session2 h3"
  | session h1 session' h2 again again' session2 where "open_session E c repo (algorithm_of dgst) h = (Inr session, h1)"
      "patch_loop E quote c U sz (max (cl_chunk_size c) (us_min_chunk session)) (chunk_fuel sz) session 0 (s\<lparr>ps_accepted := []\<rparr>) h1
        = Some ((again, None), session', s', h2)" "commit_chunks E c U session' dgst s' h2 = ((again', None), session2, h')"
      "out = (False, None)"
proof -
  note that' = that
  obtain r h1 where o: "open_session E c repo (algorithm_of dgst) h = (r, h1)" by (metis surj_pair)
  show thesis
  proof (cases r)
    case (Inl q)
    with assms o that'(1) show thesis by (cases q) (auto simp: chunked_once_def)
  next
    case (Inr session)
    obtain again e session' s1 h2 where l: "patch_loop E quote c U sz (max (cl_chunk_size c) (us_min_chunk session))
        (chunk_fuel sz) session 0 (s\<lparr>ps_accepted := []\<rparr>) h1 = Some ((again, e), session', s1, h2)"
      using assms o Inr by (auto simp: chunked_once_def)
    show thesis
    proof (cases e)
      case (Some x)
      with assms o Inr l that'(2) show thesis by (auto simp: chunked_once_def)
    next
      case None
      obtain again' e' session2 h3 where m: "commit_chunks E c U session' dgst s1 h2 = ((again', e'), session2, h3)"
        by (metis surj_pair)
      show thesis
      proof (cases e')
        case (Some x)
        with assms o Inr l None m that'(3) show thesis by (auto simp: chunked_once_def)
      next
        case None
        with assms o Inr l \<open>e = None\<close> m that'(4) show thesis by (auto simp: chunked_once_def)
      qed
    qed
  qed
qed

definition chunked_price :: "client \<Rightarrow> int \<Rightarrow> nat" where
  "chunked_price c sz = 30 + 10 * chunk_count (cl_chunk_size c) sz"

lemma chunked_once_total: "0 < cl_chunk_size c \<Longrightarrow> chunked_once E quote algorithm_of c U repo dgst sz s h \<noteq> None"
proof -
  assume c: "0 < cl_chunk_size c"
  have "patch_loop E quote c U sz (max (cl_chunk_size c) m) (chunk_fuel sz) session 0 t h1 \<noteq> None" for m session t h1
    by (rule patch_loop_total) (use c in \<open>simp_all add: chunk_fuel_def\<close>)
  then show ?thesis
    by (cases "open_session E c repo (algorithm_of dgst) h"; cases "fst (open_session E c repo (algorithm_of dgst) h)")
      (auto simp: chunked_once_def simp del: not_None_eq)
qed

lemma chunked_once_run:
  assumes "chunked_once E quote algorithm_of c U repo dgst sz s h = Some (out, s', h')" and "at_rest (ps_body s)"
    and "0 < cl_chunk_size c" and "0 \<le> sz"
  shows "attempt_ok E (chunked_price c sz) s h s' h'"
proof -
  let ?k = "10 + 10 * chunk_count (cl_chunk_size c) sz"
  have loop: "attempt_ok E ?k s h s' h2"
    if o: "open_session E c repo (algorithm_of dgst) h = (Inr session, h1)"
      and l: "patch_loop E quote c U sz (max (cl_chunk_size c) (us_min_chunk session)) (chunk_fuel sz) session 0 (s\<lparr>ps_accepted := []\<rparr>) h1
        = Some (q, session', s', h2)" for session h1 q session' h2
  proof -
    have "attempt_ok E (10 * chunk_count (max (cl_chunk_size c) (us_min_chunk session)) (sz - 0)) (s\<lparr>ps_accepted := []\<rparr>) h1 s' h2"
      by (rule patch_loop_run [OF _ l]) (use assms in simp_all)
    moreover have "chunk_count (max (cl_chunk_size c) (us_min_chunk session)) sz \<le> chunk_count (cl_chunk_size c) sz"
      by (rule chunk_count_antimono) (use assms in simp_all)
    ultimately show ?thesis
      using open_session_run [OF o, of "up_source U"] settled_then [of E h h1 "{}" h2] by (auto simp: attempt_ok_def)
  qed
  have later: "attempt_ok E (k + 10) s h s' h3"
    if "attempt_ok E k s h s' h2" "settled E {} h2 h3" "length (sent h3) \<le> length (sent h2) + 10" for k h2 h3
    using that settled_then [of E h h2 "{}" h3] by (auto simp: attempt_ok_def)
  have weak: "attempt_ok E k s h s' h2 \<Longrightarrow> k \<le> m \<Longrightarrow> attempt_ok E m s h s' h2" for k m h2 by (auto simp: attempt_ok_def)
  show ?thesis
  proof (rule chunked_once_cases [OF assms(1)])
    fix again e
    assume "out = (again, Some e)" "s' = s" "open_session E c repo (algorithm_of dgst) h = (Inl (again, e), h')"
    then show ?thesis using assms(2) open_session_run [of E c repo "algorithm_of dgst" h "Inl (again, e)" h' "up_source U"]
      by (simp add: attempt_ok_def chunked_price_def)
  next
    fix session h1 session' h2 again e
    assume o: "open_session E c repo (algorithm_of dgst) h = (Inr session, h1)"
      and l: "patch_loop E quote c U sz (max (cl_chunk_size c) (us_min_chunk session)) (chunk_fuel sz) session 0 (s\<lparr>ps_accepted := []\<rparr>) h1
        = Some ((again, Some e), session', s', h2)" and h': "h' = abandon_session E c session' h2"
    show ?thesis
      by (rule weak [OF later [OF loop [OF o l]]]) (simp_all add: h' abandon_session_run chunked_price_def)
  next
    fix session h1 session' h2 again again' e session2 h3
    assume o: "open_session E c repo (algorithm_of dgst) h = (Inr session, h1)"
      and l: "patch_loop E quote c U sz (max (cl_chunk_size c) (us_min_chunk session)) (chunk_fuel sz) session 0 (s\<lparr>ps_accepted := []\<rparr>) h1
        = Some ((again, None), session', s', h2)" and m: "commit_chunks E c U session' dgst s' h2 = ((again', Some e), session2, h3)"
      and h': "h' = abandon_session E c session2 h3"
    note k = commit_chunks_run [OF m]
    show ?thesis
      by (rule weak [OF later [OF later [OF loop [OF o l] conjunct1 [OF k] conjunct2 [OF k]]]])
        (simp_all add: h' abandon_session_run chunked_price_def)
  next
    fix session h1 session' h2 again again' session2
    assume o: "open_session E c repo (algorithm_of dgst) h = (Inr session, h1)"
      and l: "patch_loop E quote c U sz (max (cl_chunk_size c) (us_min_chunk session)) (chunk_fuel sz) session 0 (s\<lparr>ps_accepted := []\<rparr>) h1
        = Some ((again, None), session', s', h2)" and m: "commit_chunks E c U session' dgst s' h2 = ((again', None), session2, h')"
    note k = commit_chunks_run [OF m]
    show ?thesis by (rule weak [OF later [OF loop [OF o l] conjunct1 [OF k] conjunct2 [OF k]]]) (simp add: chunked_price_def)
  qed
qed

lemma chunked_once_accepts:
  assumes "chunked_once E quote algorithm_of c U repo dgst sz s h = Some ((again, None), s', h')" and "at_rest (ps_body s)"
    and "0 < cl_chunk_size c" and "0 < sz"
    and "holds_stream (up_source U) S" and "tells_position (up_source U)" and "source_pos (up_source U) h = p0"
  shows "ps_accepted s' = take (nat sz) (drop p0 S) \<and> int (length (ps_accepted s')) = sz \<and> length S \<le> p0 + nat sz"
proof (rule chunked_once_cases [OF assms(1)])
  fix session h1 session' h2 a1 a2 session2
  assume o: "open_session E c repo (algorithm_of dgst) h = (Inr session, h1)"
    and l: "patch_loop E quote c U sz (max (cl_chunk_size c) (us_min_chunk session)) (chunk_fuel sz) session 0 (s\<lparr>ps_accepted := []\<rparr>) h1
        = Some ((a1, None), session', s', h2)"
    and "commit_chunks E c U session' dgst s' h2 = ((a2, None), session2, h')"
  have "chunk_inv (up_source U) S p0 sz 0 (s\<lparr>ps_accepted := []\<rparr>) h1"
    using open_session_run [OF o, of "up_source U"] assms(4,7) by (simp add: chunk_inv_def)
  from patch_loop_accepts [OF _ assms(5,6) l _ this] assms(2-4) have "chunk_inv (up_source U) S p0 sz sz s' h2" by simp
  with assms(4) show ?thesis unfolding chunk_inv_def by blast
qed simp_all

end
