(* ===== verification/DigestQuery.thy ===== *)
theory DigestQuery
  imports Commit
begin

text \<open>
  push.go, \<open>withDigest\<close>: the digest parameter that the final PUT adds to a session URL whose
  query is opaque to the client.
\<close>

section \<open>The digest parameter of a commit\<close>

lemma upper_hex_val: "n < 16 \<Longrightarrow> hex_val (upper_hex n) = Some n"
  by (simp add: upper_hex_def hex_val_def Let_def)

lemma upper_hex_chars: "n < 16 \<Longrightarrow> upper_hex n \<noteq> CHR ''&''"
proof
  assume "n < 16" "upper_hex n = CHR ''&''"
  then have "(of_char (upper_hex n) :: nat) = of_char CHR ''&''" by simp
  with \<open>n < 16\<close> show False by (simp add: upper_hex_def split: if_splits)
qed

lemma char_halves: "of_char c div 16 < (16::nat)" "of_char c mod 16 < (16::nat)"
  "char_of (16 * (of_char c div 16) + of_char c mod (16::nat)) = c"
  using nat_of_char_less_256 [of c] by (simp_all add: less_mult_imp_div_less)

lemma query_escaped: "should_escape EncQuery CHR ''&''" "should_escape EncQuery CHR ''%''" "should_escape EncQuery CHR ''+''"
  by code_simp+

lemma query_escape_chars: "CHR ''&'' \<notin> set (query_escape s)"
proof -
  have "CHR ''&'' \<notin> set (escape_char EncQuery c)" for c
  proof (cases "should_escape EncQuery c")
    case True
    have "upper_hex (of_char c div 16) \<noteq> CHR ''&'' \<and> upper_hex (of_char c mod 16) \<noteq> CHR ''&''"
      using upper_hex_chars [OF char_halves(1) [of c]] upper_hex_chars [OF char_halves(2) [of c]] by simp
    with True show ?thesis by (auto simp: escape_char_def)
  next
    case False
    with query_escaped(1) show ?thesis by (auto simp: escape_char_def)
  qed
  then show ?thesis by (auto simp: query_escape_def escape_def)
qed

lemma unescape_escape: "query_unescape (query_escape s) = Some s"
proof -
  have "unescape EncQuery (escape_char EncQuery c @ t) = map_option ((#) c) (unescape EncQuery t)" for c t
  proof (cases "should_escape EncQuery c")
    case True
    with char_halves [of c] show ?thesis by (simp add: escape_char_def upper_hex_val)
  next
    case False
    then have "c \<noteq> CHR ''%'' \<and> c \<noteq> CHR ''+''" using query_escaped by auto
    with False show ?thesis by (simp add: escape_char_def)
  qed
  then have "unescape EncQuery (concat (map (escape_char EncQuery) s)) = Some s" by (induction s) simp_all
  then show ?thesis by (simp add: query_unescape_def query_escape_def escape_def)
qed

definition is_digest_part :: "string \<Rightarrow> bool" where
  "is_digest_part p \<longleftrightarrow> is_digest_key (fst (str_cut CHR ''='' p))"

definition other_parts :: "url \<Rightarrow> string list" where
  "other_parts u = filter (\<lambda>p. p \<noteq> [] \<and> \<not> is_digest_part p) (str_split CHR ''&'' (u_raw_query u))"

definition digest_parts :: "url \<Rightarrow> string list" where
  "digest_parts u = filter is_digest_part (str_split CHR ''&'' (u_raw_query u))"

lemma str_cut_key: "c \<notin> set (fst (str_cut c p)) \<and> set (fst (str_cut c p)) \<subseteq> set p"
  by (induction p) (auto split: prod.split)

lemma cut_key: "str_cut c (fst (str_cut c p) @ c # v) = (fst (str_cut c p), v, True)"
  using str_cut_key by (simp add: str_cut_append)

lemma digest_part_key: "is_digest_part (digest_part v p) = is_digest_part p"
  by (simp add: is_digest_part_def digest_part_def Let_def cut_key)

lemma str_split_last: "CHR ''&'' \<notin> set v \<Longrightarrow> str_split CHR ''&'' (q @ CHR ''&'' # v) = str_split CHR ''&'' q @ [v]"
  by (induction q) (auto simp: str_split_absent split: list.split)

lemma with_digest_parts:
  "str_split CHR ''&'' (u_raw_query (with_digest u d)) =
     (let old = str_split CHR ''&'' (u_raw_query u); v = query_escape d in
      if list_ex is_digest_part old then map (digest_part v) old
      else if u_raw_query u = [] then [''digest='' @ v] else old @ [''digest='' @ v])"
proof -
  let ?v = "query_escape d" and ?old = "str_split CHR ''&'' (u_raw_query u)"
  have amp: "CHR ''&'' \<notin> set (''digest='' @ ?v)" using query_escape_chars by simp
  have "CHR ''&'' \<notin> set (digest_part ?v p)" if "p \<in> set ?old" for p
  proof -
    from str_split_pieces [OF that] query_escape_chars str_cut_key [of _ p] show ?thesis by (auto simp: digest_part_def Let_def)
  qed
  then have m: "str_split CHR ''&'' (str_join CHR ''&'' (map (digest_part ?v) ?old)) = map (digest_part ?v) ?old"
    by (intro str_split_join) auto
  show ?thesis
    using m str_split_last [OF amp, of "u_raw_query u"] str_split_absent [OF amp]
    by (simp add: with_digest_def Let_def is_digest_part_def [abs_def])
qed

text \<open>
  C40. \<open>withDigest\<close> sets the digest of an upload URL and nothing else: the URL changes in its
  query only, every other parameter of the query is kept byte for byte and in order, there is a
  digest parameter, each of them carries the escaped digest (however its key was spelled), and
  that value reads back as the digest.
\<close>

theorem with_digest_only:
  "\<exists>q. with_digest u d = u\<lparr>u_raw_query := q\<rparr> \<and> other_parts (with_digest u d) = other_parts u \<and>
     digest_parts (with_digest u d) \<noteq> [] \<and>
     list_all (\<lambda>p. p = fst (str_cut CHR ''='' p) @ ''='' @ query_escape d) (digest_parts (with_digest u d)) \<and>
     query_unescape (query_escape d) = Some d"
proof -
  let ?v = "query_escape d" and ?old = "str_split CHR ''&'' (u_raw_query u)"
  have dg: "is_digest_part (''digest='' @ ?v)" "fst (str_cut CHR ''='' (''digest='' @ ?v)) = ''digest''"
    by (simp_all add: is_digest_part_def is_digest_key_def query_unescape_def)
  have keep: "filter (\<lambda>p. p \<noteq> [] \<and> \<not> is_digest_part p) (map (digest_part ?v) ps) =
      filter (\<lambda>p. p \<noteq> [] \<and> \<not> is_digest_part p) ps" for ps
    by (induction ps) (auto simp: digest_part_key, auto simp: is_digest_part_def digest_part_def)
  have q: "\<exists>q. with_digest u d = u\<lparr>u_raw_query := q\<rparr>" by (auto simp: with_digest_def Let_def)
  have others: "other_parts (with_digest u d) = other_parts u"
    using dg by (simp add: other_parts_def with_digest_parts Let_def keep)
  have all: "list_all (\<lambda>p. p = fst (str_cut CHR ''='' p) @ ''='' @ ?v) (filter is_digest_part (map (digest_part ?v) ps))" for ps
    by (auto simp: list_all_iff digest_part_key) (auto simp: is_digest_part_def digest_part_def Let_def cut_key)
  have none: "\<not> list_ex is_digest_part ?old \<Longrightarrow> filter is_digest_part ?old = []" by (auto simp: list_ex_iff filter_empty_conv)
  have digests: "digest_parts (with_digest u d) \<noteq> [] \<and>
      list_all (\<lambda>p. p = fst (str_cut CHR ''='' p) @ ''='' @ ?v) (digest_parts (with_digest u d))"
  proof (cases "list_ex is_digest_part ?old")
    case True
    with all [of ?old] show ?thesis by (auto simp: digest_parts_def with_digest_parts Let_def list_ex_iff filter_empty_conv digest_part_key)
  next
    case False
    with none dg show ?thesis by (simp add: digest_parts_def with_digest_parts Let_def)
  qed
  from q others digests unescape_escape show ?thesis by blast
qed

end
