(* ===== verification/Push.thy ===== *)
theory Push
  imports ChunkedRuns DigestQuery
begin

text \<open>
  push.go: \<open>Push\<close>, its checks, the position it captures of a reader that can seek, and the
  attempts of \<open>pushWithRetry\<close>, each of them a whole upload from the reader's first byte.
\<close>

section \<open>Complete attempts\<close>

text \<open>\<open>readerReplay.rewind\<close>.\<close>

definition push_rewind :: "uploader \<Rightarrow> push_state \<Rightarrow> history \<Rightarrow> goerr option \<times> history" where
  "push_rewind U s h =
     (case body_source_error (ps_body s) of
        Some e \<Rightarrow> (Some e, h)
      | None \<Rightarrow> source_seek (up_source U) (the (ps_start s)) h)"

text \<open>
  What does not change during a push: the client, the target and the reader; \<open>tx_quote\<close> is
  \<open>%q\<close>, \<open>tx_algorithm\<close> is \<open>digest.Digest.Algorithm\<close>.
\<close>

record transfer =
  tx_client :: client
  tx_uploader :: uploader
  tx_repo :: repository
  tx_digest :: string
  tx_size :: int
  tx_quote :: "string \<Rightarrow> string"
  tx_algorithm :: "string \<Rightarrow> string"

definition upload_once :: "env \<Rightarrow> transfer \<Rightarrow> push_state \<Rightarrow> history \<Rightarrow> (bool \<times> goerr option) \<times> push_state \<times> history" where
  "upload_once E tx s h =
     (if cl_chunk_size (tx_client tx) > 0 then
        the (chunked_once E (tx_quote tx) (tx_algorithm tx) (tx_client tx) (tx_uploader tx) (tx_repo tx) (tx_digest tx)
               (tx_size tx) s h)
      else push_once E (tx_client tx) (tx_uploader tx) (tx_repo tx) (tx_digest tx) (tx_size tx) s h)"

definition pushing :: "transfer \<Rightarrow> goerr \<Rightarrow> goerr" where
  "pushing tx e =
     wrapf (''pushing blob '' @ tx_digest tx @ '' to '' @ repo_host (tx_repo tx) @ ''/'' @ repo_name (tx_repo tx)) e"

definition unseekable_restart :: "goerr \<Rightarrow> goerr option" where
  "unseekable_restart e =
     mark_retryable
       (Some (Wrapf (err_text e @ '' (upload restart needs the bytes again, but the reader is not an io.Seeker)'') [e]))
       (retry_after_of e)"

definition rewind_failed :: "goerr \<Rightarrow> goerr \<Rightarrow> goerr" where
  "rewind_failed re e =
     Wrapf (''rewinding reader to restart upload: '' @ err_text re @ '' (restart cause: '' @ err_text e @ '')'') [re, e]"

type_synonym push_result = "goerr option \<times> push_state \<times> history"

text \<open>What follows a failed attempt \<open>k\<close>: the final error, or the state for the next one.\<close>

definition after_failure :: "env \<Rightarrow> transfer \<Rightarrow> nat \<Rightarrow> bool \<Rightarrow> goerr \<Rightarrow> push_state \<Rightarrow> history \<Rightarrow> push_result + push_state \<times> history" where
  "after_failure E tx k again e s h =
     (if \<not> again \<or> k = max_attempts (tx_client tx) then Inl (Some (terminal_push_error e again), s, h)
      else if tx_size tx > 0 \<and> ps_start s = None then Inl (unseekable_restart e, s, h)
      else
        (case (if tx_size tx > 0 then push_rewind (tx_uploader tx) s h else (None, h)) of
           (Some re, h1) \<Rightarrow> Inl (Some (rewind_failed re e), s, h1)
         | (None, h1) \<Rightarrow>
           (case retry_wait E (tx_client tx) k (retry_after_of e) h1 of
              (Some ce, h2) \<Rightarrow> Inl (Some (retry_canceled_error ce (Some e)), s, h2)
            | (None, h2) \<Rightarrow> Inr (s, h2))))"

definition push_turn :: "env \<Rightarrow> transfer \<Rightarrow> nat \<Rightarrow> push_state \<times> history \<Rightarrow> push_result + push_state \<times> history" where
  "push_turn E tx k sh =
     (case upload_once E tx (fst sh) (snd sh) of
        ((again, None), s, h) \<Rightarrow> Inl (None, s, h)
      | ((again, Some cause), s, h) \<Rightarrow>
          (let e = pushing tx cause in
           case ctx_err E h of
             (Some _, h1) \<Rightarrow> (case context_operation_error E e h1 of (x, h2) \<Rightarrow> Inl (Some x, s, h2))
           | (None, h1) \<Rightarrow> after_failure E tx k again e s h1))"

definition push_with_retry :: "env \<Rightarrow> transfer \<Rightarrow> push_state \<Rightarrow> history \<Rightarrow> push_result" where
  "push_with_retry E tx s h = the (attempt_loop (push_turn E tx) (max_attempts (tx_client tx)) 1 (s, h))"

section \<open>Push\<close>

text \<open>\<open>newReaderReplay\<close>: where the reader stands, None if it cannot seek.\<close>

definition new_reader_replay :: "source \<Rightarrow> history \<Rightarrow> (goerr + int option) \<times> history" where
  "new_reader_replay src h =
     (if \<not> so_seekable src then (Inr None, h)
      else (case source_tell src h of (Inl e, h1) \<Rightarrow> (Inl e, h1) | (Inr p, h1) \<Rightarrow> (Inr (Some p), h1)))"

definition no_push :: push_state where
  "no_push = \<lparr>ps_start = None, ps_body = None, ps_tracker = None, ps_wire = None, ps_accepted = []\<rparr>"

definition stop_wire :: "push_result \<Rightarrow> push_result" where
  "stop_wire r = (case r of (e, s, h) \<Rightarrow> (e, s\<lparr>ps_wire := wire_stop (ps_wire s)\<rparr>, h))"

text \<open>From the capture of the position on.\<close>

definition push_from_reader :: "env \<Rightarrow> transfer \<Rightarrow> push_state \<Rightarrow> history \<Rightarrow> push_result" where
  "push_from_reader E tx s h =
     (case new_reader_replay (up_source (tx_uploader tx)) h of
        (Inl e, h1) \<Rightarrow> (Some (wrapf ''capturing reader position for upload retries'' e), s, h1)
      | (Inr start, h1) \<Rightarrow>
        (case (if tx_size tx = 0 then validate_reader_eof (up_source (tx_uploader tx)) 0 h1 else (None, h1)) of
           (Some e, h2) \<Rightarrow> (Some e, s, h2)
         | (None, h2) \<Rightarrow> push_with_retry E tx (s\<lparr>ps_start := start\<rparr>) h2))"

text \<open>The reader is None where the caller's interface is nil or holds a nil pointer.\<close>

definition push ::
    "env \<Rightarrow> (string \<Rightarrow> goerr option) \<Rightarrow> (string \<Rightarrow> string) \<Rightarrow> (string \<Rightarrow> string) \<Rightarrow> client
      \<Rightarrow> (history \<Rightarrow> request \<Rightarrow> body_action list) \<Rightarrow> repository \<Rightarrow> string \<Rightarrow> int \<Rightarrow> source option
      \<Rightarrow> transfer_option option list \<Rightarrow> history \<Rightarrow> push_result" where
  "push E digest_check quote algorithm_of c courier repo dgst sz rd opts h =
     (case validate_target digest_check repo dgst of
        Some e \<Rightarrow> (Some e, no_push, h)
      | None \<Rightarrow>
        if sz < 0 then
          (Some (Text (''size '' @ fmt_d sz @ '' is invalid: pushes require the exact blob size'')), no_push, h)
        else
          (case rd of
             None \<Rightarrow> (Some (Text ''nil reader''), no_push, h)
           | Some src \<Rightarrow>
             (case ctx_err E h of
                (Some e, h1) \<Rightarrow> (Some (wrapf ''pushing blob'' e), no_push, h1)
              | (None, h1) \<Rightarrow>
                  (let cfg = apply_transfer_options opts;
                       s = no_push\<lparr>ps_tracker := new_progress_tracker (tc_progress cfg \<noteq> None) sz,
                                   ps_wire := new_wire_tracker (tc_wire_progress cfg \<noteq> None)\<rparr>;
                       tx = \<lparr>tx_client = c, tx_uploader = \<lparr>up_source = src, up_courier = courier\<rparr>, tx_repo = repo,
                             tx_digest = dgst, tx_size = sz, tx_quote = quote, tx_algorithm = algorithm_of\<rparr>
                   in stop_wire (push_from_reader E tx s h1)))))"

section \<open>An attempt of either kind\<close>

definition push_price :: "client \<Rightarrow> int \<Rightarrow> nat" where
  "push_price c sz = (if cl_chunk_size c > 0 then chunked_price c sz else 30)"

lemma upload_once_run:
  assumes "upload_once E tx s h = (out, s', h')" and "at_rest (ps_body s)" and "0 \<le> tx_size tx"
  shows "attempt_ok E (push_price (tx_client tx) (tx_size tx)) s h s' h'"
proof (cases "cl_chunk_size (tx_client tx) > 0")
  case True
  obtain q where "chunked_once E (tx_quote tx) (tx_algorithm tx) (tx_client tx) (tx_uploader tx) (tx_repo tx)
      (tx_digest tx) (tx_size tx) s h = Some q" using chunked_once_total [OF True] by (meson not_None_eq)
  with assms(1) True have "chunked_once E (tx_quote tx) (tx_algorithm tx) (tx_client tx) (tx_uploader tx) (tx_repo tx)
      (tx_digest tx) (tx_size tx) s h = Some (out, s', h')" by (simp add: upload_once_def)
  from chunked_once_run [OF this assms(2) True assms(3)] True show ?thesis by (simp add: push_price_def)
next
  case False
  with assms push_once_run [OF _ assms(2,3)] show ?thesis by (auto simp: upload_once_def push_price_def)
qed

lemma push_rewind_run:
  assumes "push_rewind U s h = (r, h')"
  shows "settled E {} h h' \<and> sent h' = sent h \<and> (r = None \<longrightarrow> source_pos (up_source U) h' = nat (the (ps_start s)))"
  using assms by (auto simp: push_rewind_def source_seek_def intro: settled_event split: option.splits)

lemma retry_wait_pos: "retry_wait E c k after h = (r, h') \<Longrightarrow> source_pos src h' = source_pos src h"
  by (auto simp: retry_wait_def backoff_delay_def rand_n_def sleep_context_def ctx_err_def split: if_splits)

lemma after_failure_run:
  assumes "after_failure E tx k again e s h = r"
  shows "case r of
      Inl (x, s', h') \<Rightarrow> x \<noteq> None \<and> s' = s \<and> settled E {} h h' \<and> sent h' = sent h
    | Inr (s', h') \<Rightarrow> s' = s \<and> settled E {} h h' \<and> sent h' = sent h \<and> k \<noteq> max_attempts (tx_client tx) \<and>
        (tx_size tx > 0 \<longrightarrow> ps_start s \<noteq> None \<and> source_pos (up_source (tx_uploader tx)) h' = nat (the (ps_start s)))"
proof -
  obtain re h1 where w: "(if tx_size tx > 0 then push_rewind (tx_uploader tx) s h else (None, h)) = (re, h1)" by (metis surj_pair)
  have r: "settled E {} h h1" "sent h1 = sent h"
    "re = None \<Longrightarrow> tx_size tx > 0 \<Longrightarrow> source_pos (up_source (tx_uploader tx)) h1 = nat (the (ps_start s))"
    using w push_rewind_run [of "tx_uploader tx" s h re h1 E] by (auto split: if_splits)
  obtain ce h2 where z: "retry_wait E (tx_client tx) k (retry_after_of e) h1 = (ce, h2)" by (metis surj_pair)
  have t: "settled E {} h h2" "sent h2 = sent h"
    "source_pos (up_source (tx_uploader tx)) h2 = source_pos (up_source (tx_uploader tx)) h1"
    using settled_wait [OF r(1) z] retry_wait_sent [OF z] r(2) retry_wait_pos [OF z] by simp_all
  show ?thesis
    using assms w r z t
    by (cases re; cases ce) (auto simp: after_failure_def unseekable_restart_def mark_retryable_def)
qed

section \<open>All attempts\<close>

lemma push_turn_run:
  assumes "push_turn E tx k (s, h) = r" and "at_rest (ps_body s)" and "0 \<le> tx_size tx"
  shows "case r of
      Inl (x, s', h') \<Rightarrow> attempt_ok E (push_price (tx_client tx) (tx_size tx)) s h s' h'
    | Inr (s', h') \<Rightarrow> attempt_ok E (push_price (tx_client tx) (tx_size tx)) s h s' h' \<and> k \<noteq> max_attempts (tx_client tx) \<and>
        (tx_size tx > 0 \<longrightarrow> ps_start s \<noteq> None \<and> source_pos (up_source (tx_uploader tx)) h' = nat (the (ps_start s)))"
proof -
  let ?p = "push_price (tx_client tx) (tx_size tx)"
  obtain again e s1 h1 where u: "upload_once E tx s h = ((again, e), s1, h1)" by (metis surj_pair)
  note one = upload_once_run [OF u assms(2,3)]
  have more: "attempt_ok E ?p s h s1 h2" if "settled E {} h1 h2" "sent h2 = sent h1" for h2
    using one that settled_then [of E h h1 "{}" h2] by (auto simp: attempt_ok_def)
  show ?thesis
  proof (cases e)
    case None
    with assms(1) u one show ?thesis by (auto simp: push_turn_def)
  next
    case (Some cause)
    obtain cx h2 where c: "ctx_err E h1 = (cx, h2)" by (metis surj_pair)
    note s2 = settled_ctx [OF c] sent_ctx [OF c]
    show ?thesis
    proof (cases cx)
      case (Some x)
      obtain y h3 where o: "context_operation_error E (pushing tx cause) h2 = (y, h3)" by (metis surj_pair)
      then have "sent h3 = sent h2" by (auto simp: context_operation_error_def ctx_err_def split: option.splits)
      with more [OF settled_operation_error [OF s2(1) o]] s2 assms(1) u \<open>e = Some cause\<close> c Some o show ?thesis
        by (auto simp: push_turn_def)
    next
      case None
      note f = after_failure_run [OF refl, where E = E and tx = tx and k = k and again = again and e = "pushing tx cause" and s = s1 and h = h2]
      have "r = after_failure E tx k again (pushing tx cause) s1 h2"
        using assms(1) u \<open>e = Some cause\<close> c None by (auto simp: push_turn_def)
      with f one more s2 settled_then [OF s2(1)] show ?thesis
        by (auto simp: attempt_ok_def split: sum.splits)
    qed
  qed
qed

interpretation push_loop: bounded_attempts "push_turn E tx" "max_attempts (tx_client tx)" for E tx
proof unfold_locales
  show "push_turn E tx (max_attempts (tx_client tx)) s \<noteq> Inr s'" for s s'
    by (auto simp: push_turn_def after_failure_def Let_def split: option.splits prod.splits if_splits)
qed simp

lemma push_with_retry_loop:
  "push_with_retry E tx s h = q \<longleftrightarrow> attempt_loop (push_turn E tx) (max_attempts (tx_client tx)) 1 (s, h) = Some q"
  using push_loop.loop_total [of E tx "(s, h)"] by (auto simp: push_with_retry_def)

lemma push_with_retry_run:
  assumes "push_with_retry E tx s h = (e, s', h')" and "at_rest (ps_body s)" and "0 \<le> tx_size tx"
  shows "attempt_ok E (max_attempts (tx_client tx) * push_price (tx_client tx) (tx_size tx)) s h s' h'"
proof -
  let ?c = "tx_client tx" let ?p = "push_price ?c (tx_size tx)"
  have "case (e, s', h') of (e, s', h') \<Rightarrow> attempt_ok E (max_attempts ?c * ?p) s h s' h'"
  proof (rule push_loop.loop_rule [OF assms(1) [unfolded push_with_retry_loop], where P = "\<lambda>k (t, g). attempt_ok E ((k - 1) * ?p) s h t g"])
    show "case (s, h) of (t, g) \<Rightarrow> attempt_ok E ((1 - 1) * ?p) s h t g" using assms(2) by (simp add: attempt_ok_def)
  next
    fix j t t'
    assume j: "1 \<le> j" and P: "case t of (t, g) \<Rightarrow> attempt_ok E ((j - 1) * ?p) s h t g" and turn: "push_turn E tx j t = Inr t'"
    obtain u g u' g' where t: "t = (u, g)" "t' = (u', g')" by (metis surj_pair)
    have k: "(j - 1) * ?p + ?p = (Suc j - 1) * ?p" using j by (cases j) simp_all
    have "at_rest (ps_body u)" using P t by (simp add: attempt_ok_def)
    with push_turn_run [OF turn [unfolded t] _ assms(3)] have "attempt_ok E ?p u g u' g'" by simp
    with attempt_ok_trans [of E "(j - 1) * ?p" s h u g ?p u' g'] P t k show "case t' of (t, g) \<Rightarrow> attempt_ok E ((Suc j - 1) * ?p) s h t g"
      by simp
  next
    fix j t r
    assume j: "1 \<le> j" "j \<le> max_attempts ?c" and P: "case t of (t, g) \<Rightarrow> attempt_ok E ((j - 1) * ?p) s h t g"
      and turn: "push_turn E tx j t = Inl r"
    obtain u g x u' g' where t: "t = (u, g)" "r = (x, u', g')" by (metis surj_pair)
    have k: "(j - 1) * ?p + ?p \<le> max_attempts ?c * ?p" using j mult_le_mono1 [of j "max_attempts ?c" ?p] by (cases j) simp_all
    have "at_rest (ps_body u)" using P t by (simp add: attempt_ok_def)
    with push_turn_run [OF turn [unfolded t] _ assms(3)] have "attempt_ok E ?p u g u' g'" by simp
    with attempt_ok_trans [of E "(j - 1) * ?p" s h u g ?p u' g'] P t k show "case r of (e, s', h') \<Rightarrow> attempt_ok E (max_attempts ?c * ?p) s h s' h'"
      by (auto simp: attempt_ok_def)
  qed
  then show ?thesis by simp
qed

end
