(* ===== verification/PushRuns.thy ===== *)
theory PushRuns
  imports Push
begin

text \<open>
  What \<open>Push\<close> promises: it returns with every body let go, within its budget of requests, and
  where it reports success the registry has accepted exactly the rest of the caller's reader.
\<close>

section \<open>Empty blobs\<close>

text \<open>An empty blob has no request body at all.\<close>

interpretation vacant: carried_body "upload_hooks U start offset 0 fin wire" first "\<lambda>req b h. b = None" "\<lambda>b h. b = None"
  for U start offset fin wire first
  by standard (auto simp: upload_hooks_def send_body_def close_and_wait_def)

lemma vacant_request:
  "do_location_request E allow (upload_hooks U start offset 0 fin wire) req u None h = (out, b', h') \<Longrightarrow> b' = None"
  by (rule location_request_carries [OF vacant.carried_body_axioms]) (rule refl)

lemma vacant_commit:
  assumes "commit_upload E c U session dgst 0 s h = (out, session', s', h')" and "ps_body s = None"
  shows "ps_body s' = None"
proof -
  obtain r s1 where n: "new_commit_request (with_digest (us_url session) dgst) 0 s = (r, s1)" by (metis surj_pair)
  then have s1: "s1 = s" by (auto simp: new_commit_request_def Let_def split: sum.splits)
  show ?thesis
  proof (cases r)
    case (Inl e)
    with assms n s1 show ?thesis by (auto simp: commit_upload_def)
  next
    case (Inr req)
    obtain res b h1 where run: "do_location_request E (cl_write_redirects c)
        (upload_hooks U (ps_start s) 0 0 True (ps_wire s)) req (Some (us_registry session)) None h = (res, b, h1)"
      by (metis prod_cases3)
    have "b = None" by (rule vacant_request [OF run])
    with assms n s1 Inr run show ?thesis
      by (cases res) (auto simp: commit_upload_def close_and_wait_def Let_def split: prod.splits)
  qed
qed

lemma vacant_attempt:
  assumes "upload_once E tx s h = (out, s', h')" and "ps_body s = None" and "tx_size tx = 0"
  shows "ps_body s' = None \<and> (snd out = None \<longrightarrow> ps_accepted s' = [])"
proof (cases "cl_chunk_size (tx_client tx) > 0")
  case True
  obtain q where "chunked_once E (tx_quote tx) (tx_algorithm tx) (tx_client tx) (tx_uploader tx) (tx_repo tx)
      (tx_digest tx) (tx_size tx) s h = Some q" using chunked_once_total [OF True] by (meson not_None_eq)
  with assms(1,3) True have q: "chunked_once E (tx_quote tx) (tx_algorithm tx) (tx_client tx) (tx_uploader tx) (tx_repo tx)
      (tx_digest tx) 0 s h = Some (out, s', h')" by (simp add: upload_once_def)
  show ?thesis by (rule chunked_once_cases [OF q]) (use assms(2) in \<open>auto simp: patch_loop_end\<close>)
next
  case False
  obtain r h1 where o: "open_session E (tx_client tx) (tx_repo tx) [] h = (r, h1)" by (metis surj_pair)
  have q: "push_once E (tx_client tx) (tx_uploader tx) (tx_repo tx) (tx_digest tx) 0 s h = (out, s', h')"
    using assms(1,3) False by (simp add: upload_once_def)
  show ?thesis
  proof (cases r)
    case (Inl e)
    with q o assms(2) show ?thesis by (cases e) (auto simp: push_once_def)
  next
    case (Inr session)
    obtain again e session' s1 h2 where cm: "commit_upload E (tx_client tx) (tx_uploader tx) session (tx_digest tx) 0
        (s\<lparr>ps_accepted := []\<rparr>) h1 = ((again, e), session', s1, h2)" by (metis surj_pair)
    have v: "ps_body s1 = None" using vacant_commit [OF cm] assms(2) by simp
    have a: "ps_accepted s1 = []" using commit_accepted [OF cm] by simp
    obtain t h3 where t: "tracker_set 0 (ps_tracker s1) h2 = (t, h3)" by (metis surj_pair)
    show ?thesis using q o Inr cm v a t by (cases e) (auto simp: push_once_def accept_body_def)
  qed
qed

section \<open>The bytes that a push delivers\<close>

text \<open>At the start of an attempt: the reader is back where the push found it.\<close>

definition ready :: "transfer \<Rightarrow> byte list \<Rightarrow> nat \<Rightarrow> push_state \<Rightarrow> history \<Rightarrow> bool" where
  "ready tx S p0 s h \<longleftrightarrow>
     at_rest (ps_body s) \<and>
     (if tx_size tx = 0 then ps_body s = None \<and> length S \<le> p0
      else source_pos (up_source (tx_uploader tx)) h = p0 \<and> (\<forall>k. ps_start s = Some k \<longrightarrow> nat k = p0))"

definition whole_stream :: "transfer \<Rightarrow> byte list \<Rightarrow> nat \<Rightarrow> push_state \<Rightarrow> bool" where
  "whole_stream tx S p0 s \<longleftrightarrow> ps_accepted s = drop p0 S \<and> int (length (drop p0 S)) = tx_size tx"

lemma whole_streamI:
  assumes "ps_accepted s = take (nat (tx_size tx)) (drop p0 S)" and "int (length (ps_accepted s)) = tx_size tx"
    and "length S \<le> p0 + nat (tx_size tx)"
  shows "whole_stream tx S p0 s"
proof -
  have "ps_accepted s = drop p0 S" using assms(1,3) by simp
  with assms(2) show ?thesis unfolding whole_stream_def by metis
qed

lemma upload_once_delivers:
  assumes "upload_once E tx s h = ((again, None), s', h')" and "ready tx S p0 s h" and "0 \<le> tx_size tx"
    and "holds_stream (up_source (tx_uploader tx)) S" and "tells_position (up_source (tx_uploader tx))"
  shows "whole_stream tx S p0 s'"
proof (cases "tx_size tx = 0")
  case True
  with vacant_attempt [OF assms(1)] assms(2) show ?thesis by (simp add: ready_def whole_stream_def)
next
  case False
  with assms(3) have sz: "0 < tx_size tx" by simp
  have i: "at_rest (ps_body s)" "source_pos (up_source (tx_uploader tx)) h = p0" "\<forall>k. ps_start s = Some k \<longrightarrow> nat k = p0"
    using assms(2) False by (simp_all add: ready_def)
  show ?thesis
  proof (cases "cl_chunk_size (tx_client tx) > 0")
    case True
    obtain q where "chunked_once E (tx_quote tx) (tx_algorithm tx) (tx_client tx) (tx_uploader tx) (tx_repo tx)
        (tx_digest tx) (tx_size tx) s h = Some q" using chunked_once_total [OF True] by (meson not_None_eq)
    with assms(1) True have "chunked_once E (tx_quote tx) (tx_algorithm tx) (tx_client tx) (tx_uploader tx) (tx_repo tx)
        (tx_digest tx) (tx_size tx) s h = Some ((again, None), s', h')" by (simp add: upload_once_def)
    from chunked_once_accepts [OF this i(1) True sz assms(4,5) i(2)] show ?thesis by (blast intro: whole_streamI)
  next
    case False
    then have q: "push_once E (tx_client tx) (tx_uploader tx) (tx_repo tx) (tx_digest tx) (tx_size tx) s h = ((again, None), s', h')"
      using assms(1) by (simp add: upload_once_def)
    have "stream_case (tx_uploader tx) (ps_start s) S p0 (tx_size tx)" using assms(4) sz i(3) by (simp add: stream_case_def)
    from push_once_accepts [OF q this i(2)] show ?thesis by (blast intro: whole_streamI)
  qed
qed

lemma push_turn_delivers:
  assumes "push_turn E tx k (s, h) = Inl (None, s', h')" and "ready tx S p0 s h" and "0 \<le> tx_size tx"
    and "holds_stream (up_source (tx_uploader tx)) S" and "tells_position (up_source (tx_uploader tx))"
  shows "whole_stream tx S p0 s'"
proof -
  obtain again e s1 h1 where u: "upload_once E tx s h = ((again, e), s1, h1)" by (metis surj_pair)
  have "e = None \<and> s1 = s'"
  proof (cases e)
    case None
    with assms(1) u show ?thesis by (simp add: push_turn_def)
  next
    case (Some cause)
    obtain cx h2 where c: "ctx_err E h1 = (cx, h2)" by (metis surj_pair)
    show ?thesis
    proof (cases cx)
      case None
      with assms(1) u Some c after_failure_run [OF refl, where E = E and tx = tx and k = k and again = again
          and e = "pushing tx cause" and s = s1 and h = h2] show ?thesis by (auto simp: push_turn_def)
    qed (use assms(1) u Some c in \<open>auto simp: push_turn_def split: prod.splits\<close>)
  qed
  with upload_once_delivers [OF _ assms(2-5)] u show ?thesis by blast
qed

lemma push_turn_ready:
  assumes "push_turn E tx k (s, h) = Inr (s', h')" and "ready tx S p0 s h" and "0 \<le> tx_size tx"
  shows "ready tx S p0 s' h'"
proof -
  have r: "at_rest (ps_body s)" using assms(2) by (simp add: ready_def)
  note t = push_turn_run [OF assms(1) r assms(3)]
  have v: "ps_body s' = None" if z: "tx_size tx = 0"
  proof -
    obtain out s1 h1 where u: "upload_once E tx s h = (out, s1, h1)" by (metis prod_cases3)
    have "s' = s1"
      using assms(1) u by (auto simp: push_turn_def after_failure_def Let_def split: prod.splits option.splits if_splits)
    with vacant_attempt [OF u _ z] assms(2) z show ?thesis by (simp add: ready_def)
  qed
  show ?thesis using t v assms(2,3) by (auto simp: ready_def attempt_ok_def)
qed

lemma push_with_retry_delivers:
  assumes "push_with_retry E tx s h = (None, s', h')" and "ready tx S p0 s h" and "0 \<le> tx_size tx"
    and "holds_stream (up_source (tx_uploader tx)) S" and "tells_position (up_source (tx_uploader tx))"
  shows "whole_stream tx S p0 s'"
proof -
  have "case (None :: goerr option, s', h') of (e, s', h') \<Rightarrow> e = None \<longrightarrow> whole_stream tx S p0 s'"
  proof (rule push_loop.loop_rule [OF assms(1) [unfolded push_with_retry_loop], where P = "\<lambda>k (t, g). ready tx S p0 t g"])
    fix j t t'
    assume "case t of (t, g) \<Rightarrow> ready tx S p0 t g" and "push_turn E tx j t = Inr t'"
    with push_turn_ready assms(3) show "case t' of (t, g) \<Rightarrow> ready tx S p0 t g" by (cases t; cases t') auto
  next
    fix j t r
    assume "case t of (t, g) \<Rightarrow> ready tx S p0 t g" and "push_turn E tx j t = Inl r"
    with push_turn_delivers assms(3-5) show "case r of (e, s', h') \<Rightarrow> e = None \<longrightarrow> whole_stream tx S p0 s'"
      by (cases t; cases r) auto
  qed (use assms(2) in simp)
  then show ?thesis by simp
qed

section \<open>Push\<close>


lemma new_reader_replay_run:
  assumes "new_reader_replay src h = (r, h')"
  shows "settled E {} h h' \<and> sent h' = sent h \<and> source_pos src h' = source_pos src h \<and>
    (tells_position src \<longrightarrow> (\<forall>k. r = Inr (Some k) \<longrightarrow> nat k = source_pos src h))"
  using assms
  by (auto simp: new_reader_replay_def source_tell_def tells_position_def intro!: settled_event split: if_splits sum.splits)


lemma probe_loop_end:
  "holds_stream src S \<Longrightarrow> probe_loop src left r h = ((None, r'), h') \<Longrightarrow> length S \<le> source_pos src h"
proof (induction left arbitrary: h)
  case (Suc left)
  obtain n d e where a: "so_read src h 1 = (n, d, e)" by (metis prod_cases3)
  have pos: "source_pos src (EvSourceRead 1 # h) = source_pos src h + nat n" using a by (simp del: One_nat_def)
  have eof: "is_eof e \<longrightarrow> length S \<le> source_pos src h + nat n"
    using Suc.prems(1) a unfolding holds_stream_def by (metis (mono_tags, lifting) case_prod_conv)
  show ?case
    using Suc.IH [OF Suc.prems(1), of "EvSourceRead 1 # h"] Suc.prems(2) a pos eof
    by (auto simp: source_read_def probe_failed_def simp del: source_pos.simps split: if_splits option.splits)
qed (simp add: probe_failed_def)

lemma validate_eof_end:
  assumes "holds_stream src S" and "validate_reader_eof src 0 h = (None, h')" shows "length S \<le> source_pos src h"
proof -
  obtain r g where "probe_loop src max_consecutive_empty_reads (new_exact_reader 0 True) h = ((None, r), g)"
    using assms(2) by (auto simp: validate_reader_eof_def probe_eof_def split: prod.splits option.splits)
  from probe_loop_end [OF assms(1) this] show ?thesis .
qed


lemma push_from_reader_delivers:
  assumes "push_from_reader E tx s h = (None, s', h')" and "ps_body s = None" and "0 \<le> tx_size tx"
    and "holds_stream (up_source (tx_uploader tx)) S" and "tells_position (up_source (tx_uploader tx))"
  shows "whole_stream tx S (source_pos (up_source (tx_uploader tx)) h) s'"
proof -
  let ?src = "up_source (tx_uploader tx)"
  obtain start h1 where n: "new_reader_replay ?src h = (Inr start, h1)"
    using assms(1) by (auto simp: push_from_reader_def split: sum.splits prod.splits)
  note s1 = new_reader_replay_run [OF n]
  obtain x h2 where v: "(if tx_size tx = 0 then validate_reader_eof ?src 0 h1 else (None, h1)) = (x, h2)" by (metis surj_pair)
  have x: "x = None" and w: "push_with_retry E tx (s\<lparr>ps_start := start\<rparr>) h2 = (None, s', h')"
    using assms(1) n v by (auto simp: push_from_reader_def split: option.splits)
  have "ready tx S (source_pos ?src h) (s\<lparr>ps_start := start\<rparr>) h2"
    using s1 v x assms(2,5) validate_eof_end [OF assms(4), of h1 h2] by (auto simp: ready_def at_rest_def split: if_splits)
  from push_with_retry_delivers [OF w this assms(3-5)] show ?thesis .
qed

lemma push_cases:
  assumes "push E digest_check quote algorithm_of c courier repo dgst sz rd opts h = (e, s', h')"
  obtains x where "e = Some x" "s' = no_push" "h' = h"
  | x where "e = Some x" "s' = no_push" "h' = EvCtx # h"
  | src s tx r where "rd = Some src" "0 \<le> sz" "ps_body s = None" "tx_client tx = c" "tx_size tx = sz"
      "up_source (tx_uploader tx) = src" "push_from_reader E tx s (EvCtx # h) = (e, r, h')" "s' = r\<lparr>ps_wire := wire_stop (ps_wire r)\<rparr>"
proof -
  note that' = that
  show thesis
  proof (cases "validate_target digest_check repo dgst = None \<and> 0 \<le> sz \<and> rd \<noteq> None \<and> en_ctx E h = None")
    case False
    show thesis
    proof (cases "validate_target digest_check repo dgst")
      case None
      with False assms that'(1,2) show thesis by (auto simp: push_def ctx_err_def split: option.splits if_splits)
    next
      case (Some x)
      with assms that'(1) [of x] show thesis by (simp add: push_def)
    qed
  next
    case True
    then obtain src where src: "rd = Some src" by auto
    let ?s = "no_push\<lparr>ps_tracker := new_progress_tracker (tc_progress (apply_transfer_options opts) \<noteq> None) sz,
        ps_wire := new_wire_tracker (tc_wire_progress (apply_transfer_options opts) \<noteq> None)\<rparr>"
    let ?tx = "\<lparr>tx_client = c, tx_uploader = \<lparr>up_source = src, up_courier = courier\<rparr>, tx_repo = repo,
        tx_digest = dgst, tx_size = sz, tx_quote = quote, tx_algorithm = algorithm_of\<rparr>"
    obtain y r g where p: "push_from_reader E ?tx ?s (EvCtx # h) = (y, r, g)" by (metis prod_cases3)
    have "e = y \<and> s' = r\<lparr>ps_wire := wire_stop (ps_wire r)\<rparr> \<and> h' = g"
      using assms True src p by (auto simp: push_def ctx_err_def stop_wire_def Let_def)
    with that'(3) [of src ?s ?tx r] src True p show thesis by (simp add: no_push_def)
  qed
qed


text \<open>Success means that the accepted bodies carry what the reader had left.\<close>

lemma push_delivers:
  assumes "push E digest_check quote algorithm_of c courier repo dgst sz (Some src) opts h = (None, s', h')"
    and "holds_stream src S" and "tells_position src"
  shows "ps_accepted s' = drop (source_pos src h) S \<and> int (length (drop (source_pos src h) S)) = sz"
proof (cases rule: push_cases [OF assms(1)])
  case (3 src' s tx r)
  then have src: "src' = src" by simp
  have "whole_stream tx S (source_pos src (EvCtx # h)) r"
    using push_from_reader_delivers [OF 3(7,3)] 3 src assms(2,3) by simp
  with 3 show ?thesis by (simp add: whole_stream_def)
qed simp_all

text \<open>
  C1. A push that reports success has delivered its blob: for a caller's reader that holds the
  stream \<open>S\<close> (reads and seeks as \<open>io.Reader\<close> and \<open>io.Seeker\<close> document them), the bodies that the
  registry accepted in the successful attempt, one or one per chunk, carry exactly what the reader
  had left when \<open>Push\<close> was called, and that is as long as declared; through redirects that replay
  the body and after any number of failed attempts.
\<close>

theorem push_exact:
  assumes "push E digest_check quote algorithm_of c courier repo dgst sz (Some src) opts h = (None, s', h')"
    and "holds_stream src S" and "tells_position src"
  shows "ps_accepted s' = drop (source_pos src h) S \<and> int (length (drop (source_pos src h) S)) = sz"
  by (rule push_delivers [OF assms])

end
