(* ===== verification/PushScenes.thy ===== *)
theory PushScenes
  imports PushRuns
begin

text \<open>
  Concrete uploads of the bytes 1, 2, 3: a registry that opens a session for every POST, accepts
  every PUT and acknowledges a chunk by the range that it declares.
\<close>

definition upload_env :: env where
  "upload_env = quiet_env\<lparr>en_trip :=
     (\<lambda>side h req.
        if rq_method req = ''POST'' then Reply 202 [(''Location'', ''https://r.io/up'')] 0
        else if rq_method req = ''PATCH'' then Reply 202 [(''Range'', header_get (rq_header req) ''Content-Range'')] 0
        else Reply 201 [] 0)\<rparr>"

definition upload_sample :: uploader where
  "upload_sample = \<lparr>up_source = list_source [1, 2, 3] True False, up_courier = (\<lambda>h req. one_read @ second_read)\<rparr>"

definition upload_repo :: repository where
  "upload_repo = \<lparr>repo_host = ''r.io'', repo_name = ''x''\<rparr>"

lemma sample_reader: "holds_stream (up_source upload_sample) [1, 2, 3]" "tells_position (up_source upload_sample)"
  by (simp_all add: upload_sample_def list_source_holds)
    (simp add: tells_position_def list_source_pos, simp add: list_source_def)

section \<open>A monolithic push\<close>

definition scene_start :: history where
  "scene_start = [EvSourceTell, EvCtx]"

definition scene_open :: "(bool \<times> goerr + upload_session) \<times> history" where
  "scene_open = open_session upload_env sample_client upload_repo [] scene_start"

definition scene_session :: upload_session where
  "scene_session = (case fst scene_open of Inr s \<Rightarrow> s)"

definition scene_commit :: "(bool \<times> goerr option) \<times> upload_session \<times> push_state \<times> history" where
  "scene_commit = commit_upload upload_env sample_client upload_sample scene_session ''sha256:0'' 3
     (no_push\<lparr>ps_start := Some 0\<rparr>\<lparr>ps_accepted := []\<rparr>) (snd scene_open)"

lemma scene_opened: "scene_open = (Inr scene_session, snd scene_open)"
proof -
  have "\<not> isl (fst scene_open)" by code_simp
  then obtain s where s: "fst scene_open = Inr s" by (cases "fst scene_open") auto
  then have "scene_session = s" by (simp add: scene_session_def)
  with s show ?thesis by (simp add: prod_eq_iff)
qed

lemma scene_committed: "snd (fst scene_commit) = None"
  by code_simp

definition scene_transfer :: transfer where
  "scene_transfer = \<lparr>tx_client = sample_client, tx_uploader = upload_sample, tx_repo = upload_repo, tx_digest = ''sha256:0'',
     tx_size = 3, tx_quote = (\<lambda>s. s), tx_algorithm = (\<lambda>d. d)\<rparr>"

lemma scene_attempt:
  "\<exists>s h. upload_once upload_env scene_transfer (no_push\<lparr>ps_start := Some 0\<rparr>) scene_start = ((False, None), s, h)"
proof -
  have o: "open_session upload_env sample_client upload_repo [] scene_start = (Inr scene_session, snd scene_open)"
    using scene_opened by (simp only: scene_open_def)
  obtain again session s1 h2 where "scene_commit = ((again, None), session, s1, h2)"
    using scene_committed by (metis surj_pair fst_conv snd_conv)
  then have cm: "commit_upload upload_env sample_client upload_sample scene_session ''sha256:0'' 3
     (no_push\<lparr>ps_start := Some 0\<rparr>\<lparr>ps_accepted := []\<rparr>) (snd scene_open) = ((again, None), session, s1, h2)"
    by (simp only: scene_commit_def)
  obtain t h3 where t: "tracker_set 3 (ps_tracker s1) h2 = (t, h3)" by (metis surj_pair)
  have mono: "\<not> cl_chunk_size sample_client > 0" by code_simp
  have "push_once upload_env sample_client upload_sample upload_repo ''sha256:0'' 3 (no_push\<lparr>ps_start := Some 0\<rparr>) scene_start
      = ((False, None), accept_body (s1\<lparr>ps_tracker := t\<rparr>), h3)"
    unfolding push_once_def o prod.case sum.case cm t option.case ..
  with mono show ?thesis by (simp add: upload_once_def scene_transfer_def)
qed

lemma scene_push:
  "fst (push upload_env (\<lambda>d. None) (\<lambda>s. s) (\<lambda>d. d) sample_client (up_courier upload_sample) upload_repo ''sha256:0'' 3
     (Some (up_source upload_sample)) [] []) = None"
proof -
  have v: "validate_target (\<lambda>d. None) upload_repo ''sha256:0'' = None" by code_simp
  have tell: "new_reader_replay (up_source upload_sample) [EvCtx] = (Inr (Some 0), scene_start)" by code_simp
  have ctx: "ctx_err upload_env [] = (None, [EvCtx])" by code_simp
  obtain s h where u: "upload_once upload_env scene_transfer (no_push\<lparr>ps_start := Some 0\<rparr>) scene_start = ((False, None), s, h)"
    using scene_attempt by blast
  obtain m where m: "max_attempts sample_client = Suc m" using max_attempts_pos gr0_implies_Suc by blast
  have "push_with_retry upload_env scene_transfer (no_push\<lparr>ps_start := Some 0\<rparr>) scene_start = (None, s, h)"
    by (simp add: push_with_retry_def push_turn_def u m scene_transfer_def [THEN arg_cong [of _ _ tx_client]])
  then have r: "push_from_reader upload_env scene_transfer no_push [EvCtx] = (None, s, h)"
    by (simp add: push_from_reader_def tell scene_transfer_def)
  have s: "no_push\<lparr>ps_tracker := new_progress_tracker (tc_progress (apply_transfer_options []) \<noteq> None) 3,
      ps_wire := new_wire_tracker (tc_wire_progress (apply_transfer_options []) \<noteq> None)\<rparr> = no_push"
    by (simp add: apply_transfer_options_def new_progress_tracker_def new_wire_tracker_def no_push_def)
  have tx: "\<lparr>tx_client = sample_client, tx_uploader = \<lparr>up_source = up_source upload_sample, up_courier = up_courier upload_sample\<rparr>,
      tx_repo = upload_repo, tx_digest = ''sha256:0'', tx_size = 3, tx_quote = (\<lambda>s. s), tx_algorithm = (\<lambda>d. d)\<rparr> = scene_transfer"
    by (simp add: scene_transfer_def)
  show ?thesis unfolding push_def v ctx Let_def s tx option.case prod.case r stop_wire_def by simp
qed

lemma push_exact_witness:
  "\<exists>s h. push upload_env (\<lambda>d. None) (\<lambda>s. s) (\<lambda>d. d) sample_client (up_courier upload_sample) upload_repo ''sha256:0'' 3
     (Some (up_source upload_sample)) [] [] = (None, s, h) \<and> ps_accepted s = [1, 2, 3]"
proof -
  obtain s h where p: "push upload_env (\<lambda>d. None) (\<lambda>s. s) (\<lambda>d. d) sample_client (up_courier upload_sample) upload_repo ''sha256:0'' 3
     (Some (up_source upload_sample)) [] [] = (None, s, h)" using scene_push by (metis fst_conv prod_cases3)
  from push_exact [OF p sample_reader] p show ?thesis by simp
qed

section \<open>A chunk\<close>

definition chunk_session :: upload_session where
  "chunk_session = \<lparr>us_url = empty_url\<lparr>u_scheme := ''https'', u_host := ''r.io''\<rparr>,
     us_registry = empty_url\<lparr>u_scheme := ''https'', u_host := ''r.io''\<rparr>, us_min_chunk = 0\<rparr>"

definition chunk_patch :: "((goerr + request \<times> int option) \<times> push_state) \<times> history" where
  "chunk_patch = new_patch_request upload_sample chunk_session 0 2 False (no_push\<lparr>ps_start := Some 0\<rparr>) []"

definition chunk_request :: "request \<times> int option" where
  "chunk_request = (case fst (fst chunk_patch) of Inr r \<Rightarrow> r)"

definition chunk_answer :: "(goerr + response) \<times> upload_body option \<times> history" where
  "chunk_answer = do_location_request upload_env (cl_write_redirects sample_client)
     (upload_hooks upload_sample (snd chunk_request) 0 2 False (ps_wire (snd (fst chunk_patch)))) (fst chunk_request)
     (Some (us_registry chunk_session)) (ps_body (snd (fst chunk_patch))) (snd chunk_patch)"

definition chunk_result :: "((bool \<times> goerr option) \<times> upload_session) \<times> history" where
  "chunk_result = patch_response upload_env (\<lambda>s. s) sample_client (case fst chunk_answer of Inr r \<Rightarrow> r) chunk_session 0 (0 + 2 - 1)
     ((snd (fst chunk_patch))\<lparr>ps_body := fst (snd chunk_answer)\<rparr>) (snd (snd chunk_answer))"

lemma the_Inr: "\<not> isl x \<Longrightarrow> x = Inr (case x of Inr r \<Rightarrow> r)"
  by (cases x) simp_all

lemma chunk_steps: "\<not> isl (fst (fst chunk_patch))" "\<not> isl (fst chunk_answer)" "snd (fst (fst chunk_result)) = None"
  by code_simp+

lemma scene_chunk:
  "\<exists>again session s h. patch_chunk upload_env (\<lambda>s. s) sample_client upload_sample chunk_session 0 2 False
     (no_push\<lparr>ps_start := Some 0\<rparr>) [] = ((again, None), session, s, h)"
proof -
  have p: "new_patch_request upload_sample chunk_session 0 2 False (no_push\<lparr>ps_start := Some 0\<rparr>) []
      = ((Inr (fst chunk_request, snd chunk_request), snd (fst chunk_patch)), snd chunk_patch)"
    using the_Inr [OF chunk_steps(1)] by (simp add: chunk_patch_def [symmetric] chunk_request_def prod_eq_iff)
  have a: "do_location_request upload_env (cl_write_redirects sample_client)
     (upload_hooks upload_sample (snd chunk_request) 0 2 False (ps_wire (snd (fst chunk_patch)))) (fst chunk_request)
     (Some (us_registry chunk_session)) (ps_body (snd (fst chunk_patch))) (snd chunk_patch)
     = (Inr (case fst chunk_answer of Inr r \<Rightarrow> r), fst (snd chunk_answer), snd (snd chunk_answer))"
    using the_Inr [OF chunk_steps(2)] by (simp add: chunk_answer_def [symmetric] prod_eq_iff)
  obtain again session h where r: "patch_response upload_env (\<lambda>s. s) sample_client (case fst chunk_answer of Inr r \<Rightarrow> r) chunk_session 0
     (0 + 2 - 1) ((snd (fst chunk_patch))\<lparr>ps_body := fst (snd chunk_answer)\<rparr>) (snd (snd chunk_answer)) = (((again, None), session), h)"
    using chunk_steps(3) unfolding chunk_result_def by (metis surj_pair fst_conv snd_conv)
  show ?thesis unfolding patch_chunk_def Let_def p prod.case sum.case a r by blast
qed

lemma chunk_acknowledged_witness:
  "\<exists>again session s h. patch_chunk upload_env (\<lambda>s. s) sample_client upload_sample chunk_session 0 2 False
     (no_push\<lparr>ps_start := Some 0\<rparr>) [] = ((again, None), session, s, h) \<and> delivered (ps_body s) = [1, 2]"
proof -
  obtain again session s h where c: "patch_chunk upload_env (\<lambda>s. s) sample_client upload_sample chunk_session 0 2 False
     (no_push\<lparr>ps_start := Some 0\<rparr>) [] = ((again, None), session, s, h)" using scene_chunk by blast
  have "source_pos (up_source upload_sample) [] = 0" by simp
  with chunk_acknowledged [OF c sample_reader] c show ?thesis by simp
qed

end
