(* ===== verification/UploadBounds.thy ===== *)
theory UploadBounds
  imports UploadRuns
begin

text \<open>
  Upload bodies over any reader at all, also one that breaks the contract of \<open>io.Reader\<close>: the
  counters stay in their ranges and what is staged in memory stays within four buffers.
\<close>

section \<open>Over any reader\<close>

definition exact_bounded :: "exact_reader \<Rightarrow> bool" where
  "exact_bounded r \<longleftrightarrow> 0 \<le> er_remaining r \<and> er_remaining r \<le> er_expected r"

lemma probe_loop_counts:
  "probe_loop src left r h = ((e, r'), h') \<Longrightarrow> er_remaining r' = er_remaining r \<and> er_expected r' = er_expected r"
  by (induction left arbitrary: h) (auto simp: probe_failed_def split: prod.splits if_splits option.splits)

lemma exact_read_counts:
  assumes "exact_read src p r h = (((d, e), r'), h')" and "exact_bounded r"
  shows "er_expected r' = er_expected r \<and> er_remaining r' = er_remaining r - int (length d) \<and> length d \<le> p \<and> exact_bounded r'"
proof (cases "er_remaining r = 0")
  case True
  with assms show ?thesis by (simp add: exact_read_def)
next
  case False
  let ?p = "if int p > er_remaining r then nat (er_remaining r) else p"
  obtain n d0 x h1 where rd: "source_read src ?p h = ((n, d0, x), h1)" by (metis prod_cases4 surj_pair)
  then have len: "length d0 = min (nat n) ?p" by (auto simp: source_read_def min.commute split: prod.splits)
  have p: "int ?p \<le> er_remaining r" "?p \<le> p" using assms(2) by (auto simp: exact_bounded_def)
  have "exact_answer src ?p n d0 x r h1 = (((d, e), r'), h')"
    using assms(1) False rd by (simp add: exact_read_def Let_def split: if_splits)
  then have "er_expected r' = er_expected r \<and> er_remaining r' = er_remaining r - int (length d) \<and> length d \<le> ?p"
    using len probe_loop_counts [of src max_consecutive_empty_reads]
    by (fastforce simp: exact_answer_def exact_failed_def probe_eof_def Let_def split: if_splits prod.splits option.splits)
  with p assms(2) show ?thesis by (auto simp: exact_bounded_def)
qed

section \<open>What is staged\<close>

fun pump_buffers :: "pump_pc \<Rightarrow> nat" where
  "pump_buffers PumpFill = 1"
| "pump_buffers PumpRead = 1"
| "pump_buffers (PumpPut c) = (if fst c = [] then 0 else 1)"
| "pump_buffers p = 0"

definition full :: "upload_body_chunk list \<Rightarrow> nat" where
  "full cs = length (filter (\<lambda>c. fst c \<noteq> []) cs)"

text \<open>The buffers of a body: idle, with the pump, in a batch, or the one being read.\<close>

definition stock :: "upload_body \<Rightarrow> nat" where
  "stock b = ub_available b + pump_buffers (ub_pump b) + full (body_holds (ub_reader b)) + full (ub_chunks b) +
     (if ub_current b = None then 0 else 1)"

definition weight :: "upload_body \<Rightarrow> nat" where
  "weight b = length (ub_out b) + length (concat (map fst (pipeline b)))"

definition buffer_bytes :: nat where
  "buffer_bytes = nat upload_body_buffer_size"

definition stage_inv :: "upload_body \<Rightarrow> bool" where
  "stage_inv b \<longleftrightarrow>
     exact_bounded (ub_exact b) \<and> stock b \<le> upload_body_buffer_count \<and>
     (ub_pump b = PumpOff \<or> ub_pump b = PumpInit \<longrightarrow> stock b = 0) \<and>
     ub_written b = int (length (ub_out b)) \<and>
     int (weight b) \<le> er_expected (ub_exact b) - er_remaining (ub_exact b) \<and>
     (\<forall>c \<in> set (pipeline b). length (fst c) \<le> buffer_bytes)"

text \<open>A step that only moves or drops what is staged.\<close>

definition lighter :: "upload_body \<Rightarrow> upload_body \<Rightarrow> bool" where
  "lighter b b' \<longleftrightarrow>
     ub_exact b' = ub_exact b \<and> stock b' \<le> stock b \<and> weight b' \<le> weight b \<and>
     (ub_pump b' = PumpOff \<or> ub_pump b' = PumpInit \<longrightarrow> ub_pump b = PumpOff \<or> ub_pump b = PumpInit) \<and>
     ub_written b' + int (length (ub_out b)) = ub_written b + int (length (ub_out b')) \<and>
     (\<forall>c \<in> set (pipeline b'). \<exists>c' \<in> set (pipeline b). length (fst c) \<le> length (fst c'))"

lemma lighter_stage:
  assumes "stage_inv b" and "lighter b b'" shows "stage_inv b'"
proof -
  have "\<forall>c \<in> set (pipeline b'). length (fst c) \<le> buffer_bytes"
    using assms unfolding stage_inv_def lighter_def by (meson le_trans)
  with assms show ?thesis by (auto simp: stage_inv_def lighter_def)
qed

lemma full_Cons [simp]: "full (c # cs) = (if fst c = [] then 0 else 1) + full cs"
  and full_Nil [simp]: "full [] = 0" and full_append [simp]: "full (xs @ ys) = full xs + full ys"
  by (simp_all add: full_def)

lemma recycle_available [simp]:
  "ub_available (recycle_current b) = ub_available b + (if ub_current b = None then 0 else 1)"
  by (cases "ub_current b") (simp_all add: recycle_current_def)

lemma recycle_stock:
  "stock (recycle_current b) = stock b"
  "weight (recycle_current b) \<le> weight b"
  "set (pipeline (recycle_current b)) \<subseteq> set (pipeline b)"
  by (auto simp: stock_def weight_def pipeline_def)

lemmas staged = stock_def weight_def pipeline_def

lemma release_staged [simp]: "stock (release_if_idle b) = stock b" "weight (release_if_idle b) = weight b"
  "pipeline (release_if_idle b) = pipeline b"
  by (simp_all add: staged)

lemma pump_go_stage:
  assumes "pump_go src b h = Some (b', h')" and "stage_inv b" shows "stage_inv b'"
proof (cases "ub_pump b")
  case PumpInit
  have "buffer_count (ub_exact b) \<le> upload_body_buffer_count" by (simp add: buffer_count_def)
  with assms PumpInit show ?thesis
    by (auto simp: pump_go.simps stage_inv_def staged upload_body_buffer_count_def split: if_splits)
next
  case PumpRead
  obtain d e r where rd: "exact_read src (nat (buffer_size (ub_exact b))) (ub_exact b) h = (((d, e), r), h')"
      and b': "b' = b\<lparr>ub_exact := r, ub_pump := (if d \<noteq> [] \<or> e \<noteq> None then PumpPut (d, e) else PumpFill)\<rparr>"
    using assms(1) PumpRead by (auto simp: pump_go.simps split: prod.splits)
  have "exact_bounded (ub_exact b)" using assms(2) by (simp add: stage_inv_def)
  note x = exact_read_counts [OF rd this]
  have "length d \<le> buffer_bytes" using x by (auto simp: buffer_size_def buffer_bytes_def)
  with assms(2) x b' PumpRead show ?thesis by (auto simp: stage_inv_def staged)
next
  case (PumpPut c)
  with assms show ?thesis by (cases c) (auto simp: pump_go.simps stage_inv_def staged split: if_splits)
qed (use assms in \<open>auto simp: pump_go.simps stage_inv_def staged split: if_splits\<close>)

lemma body_go_lighter:
  assumes "body_go b h = Some (b', h')" and "current_inv b" and "flags_inv b" shows "lighter b b'"
proof (cases "ub_reader b")
  case (BodyStart n)
  moreover have "\<not> ub_once b \<Longrightarrow> ub_pump b = PumpOff" using assms(3) by (simp add: flags_inv_def)
  ultimately show ?thesis using assms(1)
    by (cases "ub_once b"; cases "ub_close_called b") (auto simp: body_go.simps lighter_def staged start_pump_def)
next
  case (BodyLoop n)
  consider "current_left b \<noteq> []" "ub_close_called b" | "current_left b \<noteq> []" "\<not> ub_close_called b"
    | c cs where "current_left b = []" "ub_chunks b = c # cs"
    using assms(1) BodyLoop by (cases "ub_chunks b"; cases "current_left b = []") (auto simp: body_go.simps)
  then show ?thesis
  proof cases
    case 2
    then obtain cur where cur: "ub_current b = Some cur" using current_there by blast
    show ?thesis using assms(1) BodyLoop 2 cur
      by (auto simp: body_go.simps lighter_def staged current_batch_def current_left_def Let_def)
  qed (use assms(1) BodyLoop in \<open>auto simp: body_go.simps lighter_def staged\<close>)
next
  case (BodyGot n c)
  then have "ub_current b = None" using assms(2) by (simp add: current_inv_def)
  with assms(1) BodyGot show ?thesis
    by (cases c) (auto simp: body_go.simps lighter_def staged current_batch_def current_left_def split: if_splits)
next
  case (BodyCopied d)
  with assms(1) recycle_stock [of b] show ?thesis
    by (cases "current_left b = []") (auto simp: body_go.simps lighter_def staged)
next
  case (BodyFinish d e)
  with assms(1) recycle_stock [of b] show ?thesis
    by (cases "ub_close_called b") (auto simp: body_go.simps lighter_def staged)
qed (use assms in \<open>auto simp: body_go.simps\<close>)

lemma other_lighter:
  "pump_stop b = Some b' \<Longrightarrow> lighter b b'"
  "body_call n b = Some b' \<Longrightarrow> lighter b b'"
  "body_stop b = Some b' \<Longrightarrow> lighter b b'"
  "lighter b (close_call_body b)"
  "close_go_body b = Some b' \<Longrightarrow> lighter b b'"
proof -
  show "lighter b b'" if "pump_stop b = Some b'"
    using that by (cases "ub_pump b") (auto simp: pump_stop.simps lighter_def staged split: if_splits)
  show "lighter b b'" if "body_call n b = Some b'"
    using that recycle_stock [of b] by (auto simp: body_call.simps lighter_def staged split: if_splits)
  show "lighter b b'" if "body_stop b = Some b'"
    using that by (cases "ub_reader b") (auto simp: body_stop.simps lighter_def staged split: if_splits)
  show "lighter b (close_call_body b)"
    by (cases "ub_close_called b") (auto simp: close_call_fields lighter_def staged)
  show "lighter b b'" if "close_go_body b = Some b'"
    using that recycle_stock [of b] by (auto simp: close_go_body_def lighter_def staged split: if_splits)
qed

lemma perform_stage:
  assumes "body_perform src a b h = Some (b', h')" and "stage_inv b" and "current_inv b" and "flags_inv b"
  shows "stage_inv b'"
  using assms(1) by (rule perform_cases)
    (auto intro: pump_go_stage [OF _ assms(2)] lighter_stage [OF assms(2)] body_go_lighter [OF _ assms(3,4)] other_lighter)

lemma perform_expected:
  assumes "body_perform src a b h = Some (b', h')" and "stage_inv b" and "current_inv b" and "flags_inv b"
  shows "er_expected (ub_exact b') = er_expected (ub_exact b)"
  using assms(1)
proof (rule perform_cases)
  assume go: "pump_go src b h = Some (b', h')"
  have e: "exact_bounded (ub_exact b)" using assms(2) by (simp add: stage_inv_def)
  show ?thesis
  proof (cases "ub_pump b")
    case (PumpPut c)
    with go show ?thesis by (cases c) (auto simp: pump_go.simps split: if_splits)
  qed (use go exact_read_counts [OF _ e] in \<open>auto simp: pump_go.simps split: if_splits prod.splits\<close>)
qed (use body_go_lighter [OF _ assms(3,4)] other_lighter [where b = b] in \<open>auto simp: lighter_def\<close>)

lemma stage_new:
  "0 \<le> sz \<Longrightarrow> stage_inv (new_upload_body (exact_at off sz fin) wire)"
  by (simp add: stage_inv_def staged new_upload_body_def exact_at_def new_exact_reader_def exact_bounded_def current_batch_def)

lemma reached_stage:
  "body_reached src (exact_at off sz fin) wire h0 b h \<Longrightarrow> 0 \<le> sz \<Longrightarrow> stage_inv b \<and> current_inv b \<and> flags_inv b \<and> er_expected (ub_exact b) = sz"
proof (induction rule: body_reached.induct)
  case body_new
  then show ?case using stage_new
    by (auto simp: current_inv_def flags_inv_def new_upload_body_def exact_at_def new_exact_reader_def)
next
  case (body_step b h a b' h')
  then show ?case using perform_stage perform_current perform_flags perform_expected by metis
qed simp_all

lemma staged_bytes:
  "\<forall>c \<in> set cs. length (fst c) \<le> k \<Longrightarrow> length (concat (map fst cs)) \<le> full cs * k"
  by (induction cs) auto

text \<open>
  C17. An upload body keeps within its types whatever the caller's reader does, invalid counts,
  endless empty reads and data behind the end included: the declared bytes it still wants lie
  between zero and the declared size, it has counted exactly the bytes that it gave to the
  transport and never more than it took from the reader, and what it has staged fits in its four
  buffers of 256 KiB, so that it never holds more than 1 MiB and a used buffer always has room to
  go back to.
\<close>

theorem upload_body_bounded:
  assumes "body_reached src (exact_at off sz fin) wire h0 b h" and "0 \<le> sz"
  shows "0 \<le> er_remaining (ub_exact b) \<and> er_remaining (ub_exact b) \<le> sz \<and>
    ub_written b = int (length (ub_out b)) \<and> ub_written b \<le> sz - er_remaining (ub_exact b) \<and>
    ub_available b + full (pipeline b) \<le> upload_body_buffer_count \<and>
    int (length (concat (map fst (pipeline b)))) \<le> int upload_body_buffer_count * upload_body_buffer_size"
proof -
  have i: "stage_inv b" "er_expected (ub_exact b) = sz" using reached_stage [OF assms] by auto
  have held: "ub_available b + full (pipeline b) \<le> stock b"
    by (cases "ub_current b"; cases "ub_pump b"; cases "ub_reader b") (simp_all add: staged current_batch_def)
  have "length (concat (map fst (pipeline b))) \<le> full (pipeline b) * buffer_bytes"
    using i(1) by (intro staged_bytes) (simp add: stage_inv_def)
  also have "\<dots> \<le> upload_body_buffer_count * buffer_bytes"
    using i(1) held by (intro mult_le_mono1) (simp add: stage_inv_def)
  finally have "int (length (concat (map fst (pipeline b)))) \<le> int upload_body_buffer_count * upload_body_buffer_size"
    by (simp add: buffer_bytes_def upload_body_buffer_size_def)
  with i held show ?thesis by (auto simp: stage_inv_def exact_bounded_def weight_def)
qed

lemma upload_body_bounded_witness:
  "\<exists>b h. three_bytes False (take 6 one_read) = (b, h) \<and> er_remaining (ub_exact b) = 0 \<and> full (pipeline b) = 1 \<and>
     ub_available b + full (pipeline b) \<le> upload_body_buffer_count"
proof -
  obtain b h where r: "three_bytes False (take 6 one_read) = (b, h)" by (metis surj_pair)
  have "er_remaining (ub_exact (fst (three_bytes False (take 6 one_read)))) = 0 \<and> full (pipeline (fst (three_bytes False (take 6 one_read)))) = 1"
    by code_simp
  then have "er_remaining (ub_exact b) = 0 \<and> full (pipeline b) = 1" by (simp add: r)
  with upload_body_bounded [OF three_reached [OF r]] r show ?thesis by auto
qed

end
