(* ===== verification/UploadStall.thy ===== *)
theory UploadStall
  imports UploadRuns
begin

text \<open>
  What a \<open>Read\<close> of an upload body meets after one that returned an error, \<open>io.EOF\<close> included: the
  pump has sent its last batch and nothing is left to receive, so it waits until \<open>Close\<close>.
\<close>

section \<open>A stalled body\<close>

definition ended :: "upload_body \<Rightarrow> bool" where
  "ended b \<longleftrightarrow> (ub_pump b = PumpExit \<or> ub_pump b = PumpDone) \<and> ub_chunks b = [] \<and> ub_once b"

fun waiting :: "body_pc \<Rightarrow> bool" where
  "waiting BodyIdle = True"
| "waiting (BodyStart n) = True"
| "waiting (BodyLoop n) = True"
| "waiting p = False"

definition stalled :: "upload_body \<Rightarrow> bool" where
  "stalled b \<longleftrightarrow> ended b \<and> ub_current b = None \<and> waiting (ub_reader b)"

definition stall_inv :: "upload_body \<Rightarrow> bool" where
  "stall_inv b \<longleftrightarrow>
     (\<not> ub_close_called b \<longrightarrow>
        (\<forall>d. ub_reader b = BodyCopied d \<and> current_left b = [] \<and> ub_current_err b \<noteq> None \<longrightarrow> ended b) \<and>
        (\<forall>d e. ub_reader b = BodyFinish d (Some e) \<longrightarrow> ended b \<and> ub_current b = None) \<and>
        (\<forall>d e. ub_result b = Some (d, Some e) \<longrightarrow> stalled b))"

lemmas stall_defs = stall_inv_def stalled_def ended_def

text \<open>A batch that is taken out with an error was the last one.\<close>

lemma failed_head:
  assumes "end_inv b" and "flags_inv b" and "\<not> ub_close_called b" and "map snd (pipeline b) = Some e # es"
    and "current_batch b \<noteq> [] \<or> body_holds (ub_reader b) \<noteq> []"
  shows "ended b"
proof -
  have ok: "errs_ok (Some e # es) (ub_pump b) (er_remaining (ub_exact b))"
    using assms(1,3,4) by (simp add: end_inv_def)
  then have es: "es = []" and pump: "\<not> filling (ub_pump b)" by (auto simp: errs_ok_def)
  have "length (map snd (pipeline b)) = 1" unfolding assms(4) es by simp
  then have "length (current_batch b) + length (body_holds (ub_reader b)) + length (ub_chunks b) +
      length (pump_holds (ub_pump b)) = 1" by (simp add: pipeline_def)
  moreover have "0 < length (current_batch b) + length (body_holds (ub_reader b))" using assms(5) by auto
  ultimately have "length (ub_chunks b) = 0" "length (pump_holds (ub_pump b)) = 0" by linarith+
  with pump assms(2) show ?thesis by (cases "ub_pump b") (auto simp: ended_def flags_inv_def)
qed

text \<open>A step that keeps the end and goes back to nowhere that a \<open>Read\<close> reports from.\<close>

lemma stall_frame:
  assumes "stall_inv b" and "\<not> ub_close_called b' \<longrightarrow> \<not> ub_close_called b \<and> (ended b \<longrightarrow> ended b')"
    and "\<forall>d. ub_reader b' = BodyCopied d \<longrightarrow>
      ub_reader b = BodyCopied d \<and> current_left b' = current_left b \<and> ub_current_err b' = ub_current_err b"
    and "\<forall>d e. ub_reader b' = BodyFinish d (Some e) \<longrightarrow> ub_reader b = BodyFinish d (Some e) \<and> ub_current b' = ub_current b"
    and "\<forall>d e. ub_result b' = Some (d, Some e) \<and> \<not> ub_close_called b' \<longrightarrow>
      ub_result b = Some (d, Some e) \<and> (stalled b \<longrightarrow> stalled b')"
  shows "stall_inv b'"
  using assms unfolding stall_inv_def by metis

lemma pump_go_ended: "pump_go src b h = Some (b', h') \<Longrightarrow> ended b \<Longrightarrow> ended b'"
  by (cases "ub_pump b") (auto simp: pump_go.simps ended_def)

lemma pump_go_stall:
  assumes "pump_go src b h = Some (b', h')" and "stall_inv b" shows "stall_inv b'"
  using pump_go_keeps [OF assms(1)] pump_go_ended [OF assms(1)]
  by (intro stall_frame [OF assms(2)]) (auto simp: stalled_def current_left_def split: option.split)

lemma body_go_stall:
  assumes "body_go b h = Some (b', h')" and "stall_inv b" and "end_inv b" and "flags_inv b" and "current_inv b"
  shows "stall_inv b'"
proof (cases "ub_close_called b")
  case True
  with body_go_keeps [OF assms(1)] show ?thesis by (simp add: stall_inv_def)
next
  case False
  show ?thesis
  proof (cases "ub_reader b")
    case (BodyStart n)
    with assms(1,2) False show ?thesis
      by (cases "ub_once b") (auto simp: body_go.simps stall_defs)
  next
    case (BodyLoop n)
    show ?thesis
    proof (cases "current_left b = []")
      case True
      with assms(1) BodyLoop obtain c cs where "ub_chunks b = c # cs" "b' = b\<lparr>ub_chunks := cs, ub_reader := BodyGot n c\<rparr>"
        by (auto simp: body_go.simps split: list.splits)
      then show ?thesis by (intro stall_frame [OF assms(2)]) (auto simp: stall_defs)
    next
      case left: False
      let ?d = "take n (current_left b)"
      have b': "b' = b\<lparr>ub_offset := ub_offset b + length ?d, ub_written := ub_written b + int (length ?d),
          ub_out := ub_out b @ ?d, ub_reader := BodyCopied ?d\<rparr>"
        using assms(1) BodyLoop left False by (simp add: body_go.simps Let_def)
      have there: "current_batch b = [(current_left b, ub_current_err b)]" "ub_current b \<noteq> None"
        using current_there [OF left] by (auto simp: current_batch_def)
      then have "ended b" if "ub_current_err b = Some e" for e
        using failed_head [OF assms(3,4) False, of e] that by (simp add: pipeline_def)
      moreover have "\<not> stalled b" using there by (simp add: stalled_def)
      ultimately show ?thesis using assms(2) False by (auto simp: b' stall_inv_def ended_def)
    qed
  next
    case (BodyGot n c)
    obtain d e where c: "c = (d, e)" by (cases c)
    have cur: "ub_current b = None" using assms(5) BodyGot by (simp add: current_inv_def)
    have "\<not> stalled b" using BodyGot by (simp add: stalled_def)
    moreover have "ended b" if "e = Some x" for x
      using failed_head [OF assms(3,4) False, of x] that BodyGot c cur by (simp add: pipeline_def current_batch_def)
    ultimately show ?thesis
      using assms(1,2) BodyGot c False cur
      by (cases "d = []") (auto simp: body_go.simps stall_inv_def ended_def)
  next
    case (BodyCopied d)
    then have "\<not> stalled b" by (simp add: stalled_def)
    with assms(1,2) BodyCopied False show ?thesis
      by (cases "current_left b = []") (auto simp: body_go.simps stall_inv_def ended_def)
  next
    case (BodyFinish d e)
    with assms(1,2) False show ?thesis by (cases e) (auto simp: body_go.simps stall_defs)
  qed (use assms(1) in \<open>simp add: body_go.simps\<close>)
qed

lemma perform_stall:
  assumes "body_perform src a b h = Some (b', h')" and "stall_inv b" and "end_inv b" and "flags_inv b" and "current_inv b"
  shows "stall_inv b'"
  using assms(1)
proof (rule perform_cases)
  show "pump_go src b h = Some (b', h') \<Longrightarrow> ?thesis" by (rule pump_go_stall [OF _ assms(2)])
  show "body_go b h = Some (b', h') \<Longrightarrow> ?thesis" by (rule body_go_stall [OF _ assms(2-5)])
  show "pump_stop b = Some b' \<Longrightarrow> ?thesis"
    by (auto simp: pump_stop.simps stall_inv_def split: if_splits pump_pc.splits)
  show "body_call n b = Some b' \<Longrightarrow> ?thesis" for n
    using assms(2) by (auto simp: body_call.simps stall_defs split: if_splits)
  show "body_stop b = Some b' \<Longrightarrow> ?thesis"
    by (auto simp: body_stop.simps stall_inv_def split: body_pc.splits if_splits)
  show "b' = close_call_body b \<Longrightarrow> ?thesis"
    using assms(2) by (cases "ub_close_called b") (auto simp: close_call_fields stall_inv_def)
  show "close_go_body b = Some b' \<Longrightarrow> ?thesis"
    using assms(4) by (auto simp: close_go_body_def flags_inv_def stall_inv_def split: if_splits)
qed

lemma body_stall:
  assumes "body_reached src (exact_at off sz fin) wire h0 b h" and "holds_stream src S" and "0 \<le> sz"
  shows "stall_inv b"
  using assms(1)
proof (induction rule: body_reached.induct)
  case body_new
  show ?case by (simp add: stall_inv_def new_upload_body_def)
next
  case (body_step b h a b' h')
  with body_inv [OF body_step.hyps(1) assms(2,3)] show ?case by (blast intro: perform_stall)
qed

section \<open>A Read of a stalled body\<close>

definition held_up :: "nat \<Rightarrow> upload_body \<Rightarrow> bool" where
  "held_up n b \<longleftrightarrow> stalled b \<and> \<not> ub_close_called b \<and> ub_reader b \<in> {BodyStart n, BodyLoop n}"

lemma held_up_step:
  assumes "body_perform src a b h = Some (b', h')" and "a \<noteq> BodyClose" and "held_up n b"
  shows "held_up n b' \<and> ub_result b' = ub_result b \<and> ub_out b' = ub_out b"
proof (cases a)
  case PumpGo
  with assms show ?thesis
    using pump_go_keeps [of src b h b' h'] pump_go_ended [of src b h b' h'] by (auto simp: held_up_def stalled_def)
next
  case BodyGo
  with assms show ?thesis by (auto simp: held_up_def stall_defs body_go.simps current_left_def split: list.splits)
qed (use assms in \<open>auto simp: held_up_def pump_stop.simps body_call.simps body_stop.simps close_go_body_def stall_defs split: if_splits\<close>)

lemma held_up_run:
  "body_run src as (b, h) = (b', h') \<Longrightarrow> BodyClose \<notin> set as \<Longrightarrow> held_up n b \<Longrightarrow>
   held_up n b' \<and> ub_result b' = ub_result b \<and> ub_out b' = ub_out b"
proof (induction as arbitrary: b h)
  case (Cons a as)
  show ?case
  proof (cases "body_perform src a b h")
    case None
    with Cons.IH [of b h] Cons.prems show ?thesis by simp
  next
    case (Some s)
    obtain b1 h1 where s: "s = (b1, h1)" by (metis surj_pair)
    have "held_up n b1 \<and> ub_result b1 = ub_result b \<and> ub_out b1 = ub_out b"
      using held_up_step [OF Some [unfolded s]] Cons.prems by auto
    with Cons.IH [of b1 h1] Cons.prems Some s show ?thesis by simp
  qed
qed simp

text \<open>
  C39. An upload can hang after the end of its source: once a \<open>Read\<close> of an unclosed body has
  returned an error, \<open>io.EOF\<close> included, a further \<open>Read\<close> with a non-empty buffer does not return
  before \<open>Close\<close>, whatever is scheduled: it stays in its wait, delivers nothing, and the result of
  the earlier \<open>Read\<close> remains the latest. A source that returns its last bytes together with
  \<open>io.EOF\<close>, which \<open>io.Reader\<close> allows, makes the body return that error with the bytes, before the
  read with which net/http probes a body of declared length once more.
\<close>

theorem upload_read_hangs:
  assumes "holds_stream src S" and "0 \<le> sz" and "body_reached src (exact_at off sz fin) wire h0 b h"
    and "\<not> ub_close_called b" and "ub_reader b = BodyIdle" and "ub_result b = Some (d, Some e)" and "0 < n"
    and "BodyClose \<notin> set as" and "body_run src (BodyCall n # as) (b, h) = (b', h')"
  shows "ub_reader b' \<in> {BodyStart n, BodyLoop n} \<and> ub_result b' = Some (d, Some e) \<and> ub_out b' = ub_out b"
proof -
  let ?b = "b\<lparr>ub_read_active := True, ub_reader := BodyStart n\<rparr>"
  have "stalled b" using body_stall [OF assms(3,1,2)] assms(4,6) by (simp add: stall_inv_def)
  then have "held_up n ?b" using assms(4) by (simp add: held_up_def stall_defs)
  moreover have "body_perform src (BodyCall n) b h = Some (?b, h)"
    using assms(4,5,7) by (simp add: body_call.simps)
  then have "body_run src as (?b, h) = (b', h')" using assms(9) by simp
  ultimately have "held_up n b' \<and> ub_result b' = ub_result ?b \<and> ub_out b' = ub_out ?b"
    using held_up_run assms(8) by blast
  with assms(6) show ?thesis by (simp add: held_up_def)
qed

text \<open>Three declared bytes from a source that returns them together with \<open>io.EOF\<close>.\<close>

lemma upload_read_hangs_witness:
  "\<exists>b h b' h'. three_bytes True one_read = (b, h) \<and> ub_out b = [1, 2, 3] \<and>
     body_run (list_source [1, 2, 3] False True) [BodyCall 8, BodyGo, PumpGo, PumpGo, BodyGo, BodyGo] (b, h) = (b', h') \<and>
     ub_reader b' \<in> {BodyStart 8, BodyLoop 8} \<and> ub_result b' = Some ([1, 2, 3], Some eof)"
proof -
  let ?src = "list_source [1, 2, 3] False True" and ?as = "[BodyGo, PumpGo, PumpGo, BodyGo, BodyGo]"
  obtain b h where r: "three_bytes True one_read = (b, h)" by (metis surj_pair)
  have "(\<lambda>b. (ub_close_called b, ub_reader b, ub_result b, ub_out b)) (fst (three_bytes True one_read))
    = (False, BodyIdle, Some ([1, 2, 3], Some eof), [1, 2, 3])" by code_simp
  then have s: "\<not> ub_close_called b" "ub_reader b = BodyIdle" "ub_result b = Some ([1, 2, 3], Some eof)"
    "ub_out b = [1, 2, 3]" by (simp_all add: r)
  obtain b' h' where run: "body_run ?src (BodyCall 8 # ?as) (b, h) = (b', h')" by (metis surj_pair)
  from upload_read_hangs [OF list_source_holds _ three_reached [OF r] s(1-3) _ _ run] r run s(4)
  show ?thesis by auto
qed

end
